(* ===== verification/KV_Prelude.thy ===== *)
theory KV_Prelude
  imports Main "HOL-Library.Word" "HOL-Library.Multiset" "HOL-Library.Code_Target_Nat"
begin

section \<open>Shared vocabulary of the key-value store development\<close>

text \<open>
  What the component theories share: names for the C++ types, the two ways a C++ call can
  fail to return normally (an exception, undefined behaviour), the parts of the standard
  library the sources use on byte strings (\<^verbatim>\<open>std::string_view::find\<close>,
  \<^verbatim>\<open>std::to_string\<close>) and the lemmas about them.

  A \<^verbatim>\<open>std::string\<close> or \<^verbatim>\<open>std::string_view\<close> is a \<^typ>\<open>string\<close>: an Isabelle \<^typ>\<open>char\<close> is
  one byte, so the model is binary safe as the code is. A \<^verbatim>\<open>std::size_t\<close> that counts bytes
  or elements held in memory is a \<^typ>\<open>nat\<close>; a \<^verbatim>\<open>std::uint64_t\<close> counter that is allowed to
  wrap is a \<^typ>\<open>64 word\<close>; a \<^verbatim>\<open>std::int64_t\<close> is an \<^typ>\<open>int\<close> whose range is checked wherever
  the code computes with it.
\<close>

type_synonym u64 = "64 word"

named_theorems kv_consts \<open>the numeric constants of the sources, to be unfolded for evaluation\<close>

subsection \<open>How a C++ call can fail\<close>

text \<open>
  The exceptions the sources throw, with their message (and errno), and the undefined
  behaviours the sources can run into. A fallible operation returns \<open>Inl\<close> of one of them.
\<close>

datatype exn =
    Invalid_argument string
  | System_error int string
  | Runtime_error string
  | Out_of_range string

datatype ub =
    Signed_overflow
  | Bit_ceil_unrepresentable

datatype fault = Exn exn | UB ub

text \<open>\<^verbatim>\<open>e.what()\<close>; the text of an error number is the system's.\<close>

fun exn_what :: "(int \<Rightarrow> string) \<Rightarrow> exn \<Rightarrow> string" where
  "exn_what strerror (Invalid_argument what) = what"
| "exn_what strerror (System_error code what) = what @ '': '' @ strerror code"
| "exn_what strerror (Runtime_error what) = what"
| "exn_what strerror (Out_of_range what) = what"

subsection \<open>Signed 64-bit arithmetic\<close>

definition int64_max :: int where [kv_consts]:
  "int64_max = 9223372036854775807"

definition int64_min :: int where [kv_consts]:
  "int64_min = - 9223372036854775808"

definition in_int64 :: "int \<Rightarrow> bool" where
  "in_int64 x \<longleftrightarrow> int64_min \<le> x \<and> x \<le> int64_max"

text \<open>The result of a signed 64-bit operation: its value, or undefined behaviour.\<close>

definition checked_int64 :: "int \<Rightarrow> ub + int" where
  "checked_int64 x = (if in_int64 x then Inr x else Inl Signed_overflow)"

lemma checked_int64_Inr [simp]: "checked_int64 x = Inr y \<longleftrightarrow> in_int64 x \<and> y = x"
  by (auto simp: checked_int64_def)

lemma checked_int64_Inl [simp]: "checked_int64 x = Inl e \<longleftrightarrow> \<not> in_int64 x \<and> e = Signed_overflow"
  by (auto simp: checked_int64_def)

text \<open>Integer division of C++: it truncates towards zero.\<close>

definition cpp_quot :: "int \<Rightarrow> int \<Rightarrow> int" where
  "cpp_quot x y =
     (if (0 \<le> x) = (0 < y) then abs x div abs y else - (abs x div abs y))"

lemma cpp_quot_nonneg: "0 \<le> x \<Longrightarrow> 0 < y \<Longrightarrow> cpp_quot x y = x div y"
  by (simp add: cpp_quot_def)

lemma int_div_less_iff: "0 < k \<Longrightarrow> x div k < v \<longleftrightarrow> x < v * k" for x k v :: int
proof -
  assume k: "0 < k"
  have "x < v * k \<longleftrightarrow> \<not> v * k \<le> x" by linarith
  also have "v * k \<le> x \<longleftrightarrow> v \<le> x div k"
  proof
    assume "v * k \<le> x"
    then have "v * k div k \<le> x div k" using k by (rule zdiv_mono1)
    with k show "v \<le> x div k" by simp
  next
    assume "v \<le> x div k"
    then have "v * k \<le> x div k * k" using k by simp
    also have "\<dots> \<le> x" using k by (metis div_mult_mod_eq le_add_same_cancel1 pos_mod_sign)
    finally show "v * k \<le> x" .
  qed
  finally show ?thesis by linarith
qed

subsection \<open>Unsigned 64-bit words\<close>

text \<open>Subtraction of two \<^verbatim>\<open>std::size_t\<close> values, which wraps around below zero.\<close>

definition size_sub :: "nat \<Rightarrow> nat \<Rightarrow> nat" where
  "size_sub x y = (if y \<le> x then x - y else x + 2 ^ 64 - y)"

lemma size_sub_le [simp]: "y \<le> x \<Longrightarrow> size_sub x y = x - y"
  by (simp add: size_sub_def)

lemma unat_pow2:
  assumes "k < 64"
  shows "unat (2 ^ k :: u64) = 2 ^ k"
proof -
  have "(2::nat) ^ k < 2 ^ 64" using assms by (simp only: power_strict_increasing_iff)
  moreover have "(2 ^ k :: u64) = word_of_nat (2 ^ k)" by simp
  ultimately show ?thesis by (simp only: unat_of_nat) simp
qed

lemma u64_of_unat: "unat (w :: u64) = n \<Longrightarrow> w = word_of_nat n"
  by auto

lemma unat_take_bit_u64: "unat (take_bit k (w :: u64)) = unat w mod 2 ^ k"
  by (simp only: unsigned_take_bit_eq take_bit_nat_def)

subsection \<open>Searching for a line terminator\<close>

abbreviation cr :: char where "cr \<equiv> CHR 0x0D"

abbreviation lf :: char where "lf \<equiv> CHR 0x0A"

abbreviation crlf :: string where "crlf \<equiv> [cr, lf]"

text \<open>\<^verbatim>\<open>input.find("\r\n")\<close>: the first position of the two bytes, \<^const>\<open>None\<close> for \<^verbatim>\<open>npos\<close>.\<close>

fun find_crlf :: "string \<Rightarrow> nat option" where
  "find_crlf [] = None"
| "find_crlf [c] = None"
| "find_crlf (c # d # cs) =
     (if c = cr \<and> d = lf then Some 0 else map_option Suc (find_crlf (d # cs)))"

lemma find_crlf_bound: "find_crlf s = Some p \<Longrightarrow> p + 2 \<le> length s"
  by (induction s arbitrary: p rule: find_crlf.induct) (auto split: if_splits)

lemma find_crlf_append: "find_crlf s = Some p \<Longrightarrow> find_crlf (s @ t) = Some p"
  by (induction s arbitrary: p rule: find_crlf.induct) (auto split: if_splits)

lemma find_crlf_line: "cr \<notin> set s \<Longrightarrow> find_crlf (s @ crlf @ t) = Some (length s)"
proof (induction s)
  case Nil
  then show ?case by simp
next
  case (Cons c s)
  then show ?case by (cases s) auto
qed

lemma find_crlf_no_cr: "cr \<notin> set s \<Longrightarrow> find_crlf (s @ [cr]) = None"
proof (induction s)
  case Nil
  then show ?case by simp
next
  case (Cons c s)
  then show ?case by (cases s) auto
qed

lemma find_crlf_None: "cr \<notin> set s \<Longrightarrow> find_crlf s = None"
  by (induction s rule: find_crlf.induct) auto

subsection \<open>Decimal output\<close>

definition digit_char :: "nat \<Rightarrow> char" where
  "digit_char d = char_of (48 + d)"

definition is_digit :: "char \<Rightarrow> bool" where
  "is_digit c \<longleftrightarrow> 48 \<le> (of_char c :: nat) \<and> (of_char c :: nat) \<le> 57"

lemma is_digit_int: "is_digit c \<longleftrightarrow> 48 \<le> (of_char c :: int) \<and> (of_char c :: int) \<le> 57"
proof -
  have "(of_char c :: int) = int (of_char c)" by (simp only: of_nat_of_char)
  then show ?thesis unfolding is_digit_def by linarith
qed

text \<open>\<^verbatim>\<open>std::to_string\<close> on unsigned and on signed integers.\<close>

fun nat_to_string :: "nat \<Rightarrow> string" where
  "nat_to_string n =
     (if n < 10 then [digit_char n] else nat_to_string (n div 10) @ [digit_char (n mod 10)])"

declare nat_to_string.simps [simp del]

definition int_to_string :: "int \<Rightarrow> string" where
  "int_to_string i =
     (if i < 0 then CHR ''-'' # nat_to_string (nat (- i)) else nat_to_string (nat i))"

lemma of_char_digit_char [simp]: "d < 10 \<Longrightarrow> (of_char (digit_char d) :: nat) = 48 + d"
  by (simp add: digit_char_def)

lemma of_char_digit_char_int [simp]: "d < 10 \<Longrightarrow> (of_char (digit_char d) :: int) = 48 + int d"
  using of_char_digit_char [of d] by (metis of_nat_of_char of_nat_add of_nat_numeral)

lemma is_digit_digit_char [simp]: "d < 10 \<Longrightarrow> is_digit (digit_char d)"
  by (simp add: is_digit_def)

lemma not_digit_crlf [simp]: "\<not> is_digit cr" "\<not> is_digit lf"
  by (simp_all add: is_digit_def)

lemma nat_to_string_digits: "c \<in> set (nat_to_string n) \<Longrightarrow> is_digit c"
proof (induction n rule: nat_to_string.induct)
  case (1 n)
  then show ?case
    by (cases "n < 10") (auto simp: nat_to_string.simps [of n])
qed

lemma nat_to_string_no_cr [simp]: "cr \<notin> set (nat_to_string n)"
  using nat_to_string_digits not_digit_crlf by blast

lemma nat_to_string_not_Nil [simp]: "nat_to_string n \<noteq> []"
  by (subst nat_to_string.simps) simp

lemma length_nat_to_string: "n < 10 ^ k \<Longrightarrow> 0 < k \<Longrightarrow> length (nat_to_string n) \<le> k"
proof (induction n arbitrary: k rule: nat_to_string.induct)
  case (1 n)
  show ?case
  proof (cases "n < 10")
    case True
    with "1.prems" show ?thesis by (simp add: nat_to_string.simps [of n])
  next
    case False
    with "1.prems" obtain j where j: "k = Suc j" "0 < j"
      by (cases k; cases "k - 1") auto
    with "1.prems" have "n div 10 < 10 ^ j"
      by (simp add: less_mult_imp_div_less mult.commute)
    with "1.IH" False j show ?thesis
      by (simp add: nat_to_string.simps [of n])
  qed
qed

text \<open>The value a string of decimal digits denotes.\<close>

definition dec_value :: "string \<Rightarrow> int" where
  "dec_value ds = foldl (\<lambda>v c. v * 10 + (of_char c - 48)) 0 ds"

lemma dec_value_nat_to_string: "dec_value (nat_to_string n) = int n"
proof (induction n rule: nat_to_string.induct)
  case (1 n)
  show ?case
  proof (cases "n < 10")
    case True
    then show ?thesis by (simp add: nat_to_string.simps [of n] dec_value_def)
  next
    case False
    with "1.IH" have "dec_value (nat_to_string (n div 10)) = int (n div 10)" by simp
    with False show ?thesis
      by (simp add: nat_to_string.simps [of n] dec_value_def) presburger
  qed
qed

subsection \<open>Sums over a list of threads\<close>

lemma sum_list_map_update:
  fixes f :: "'a \<Rightarrow> 'b :: comm_monoid_add"
  assumes "i < length xs"
  shows "sum_list (map f (xs[i := x])) + f (xs ! i) = sum_list (map f xs) + f x"
  using assms by (induction xs arbitrary: i) (auto simp: ac_simps split: nat.splits)

subsection \<open>Systems that run dry\<close>

text \<open>
  Steps that keep an invariant and make a measure smaller: every run is finite, and it can be
  continued to a state where no step is left.
\<close>

locale draining =
  fixes ok :: "'s \<Rightarrow> bool" and step :: "'s \<Rightarrow> 's \<Rightarrow> bool" and weight :: "'s \<Rightarrow> nat"
  assumes step_ok: "ok s \<Longrightarrow> step s s' \<Longrightarrow> ok s'"
    and step_less: "ok s \<Longrightarrow> step s s' \<Longrightarrow> weight s' < weight s"
begin

lemma run_bound: "(step ^^ n) s s' \<Longrightarrow> ok s \<Longrightarrow> ok s' \<and> n + weight s' \<le> weight s"
proof (induction n arbitrary: s')
  case (Suc n)
  then obtain s1 where "(step ^^ n) s s1" "step s1 s'" by auto
  with Suc.IH [of s1] Suc.prems(2) step_ok [of s1 s'] step_less [of s1 s'] show ?case by fastforce
qed simp

lemma run_ends: "ok s \<Longrightarrow> \<exists>s'. step\<^sup>*\<^sup>* s s' \<and> ok s' \<and> (\<nexists>s''. step s' s'')"
proof (induction "weight s" arbitrary: s rule: less_induct)
  case less
  show ?case
  proof (cases "\<exists>s1. step s s1")
    case True
    then obtain s1 where s1: "step s s1" by blast
    from less.hyps [OF step_less [OF less.prems s1] step_ok [OF less.prems s1]] obtain s'
      where "step\<^sup>*\<^sup>* s1 s'" "ok s'" "\<nexists>s''. step s' s''" by blast
    with s1 show ?thesis by (meson converse_rtranclp_into_rtranclp)
  qed (use less.prems in blast)
qed

end

end
