(* ===== verification/Resp_Parser.thy ===== *)
theory Resp_Parser
  imports KV_Prelude
begin

section \<open>The incremental RESP2 parser\<close>

text \<open>
  Models \<^verbatim>\<open>src/src/protocol/parser.cpp\<close> with its headers \<^verbatim>\<open>parser.hpp\<close> and
  \<^verbatim>\<open>command.hpp\<close>: the data types, then one definition per function, in the order of the
  source. The \<^verbatim>\<open>for\<close> loops are recursive functions over what is left to read; indexing
  and \<^verbatim>\<open>substr\<close> are \<^const>\<open>nth\<close>, \<^const>\<open>take\<close> and \<^const>\<open>drop\<close>, guarded as in the
  source. After the definitions: bounds on what a parse consumes, stability of a finished
  parse under later input, the integer grammar, what a parsed command satisfies, and the
  branches of the error paths.
\<close>

subsection \<open>Commands and parse results\<close>

datatype CommandType = kPing | kSet | kGet | kDel | kExists | kExpire | kTtl

record Command =
  cmd_type :: CommandType
  cmd_key :: string
  cmd_value :: string
  cmd_seconds :: int

datatype ProtocolErrorCategory =
    kMalformedFrame
  | kFieldTooLarge
  | kWrongArity
  | kUnknownCommand
  | kInvalidInteger

record ProtocolError =
  pe_category :: ProtocolErrorCategory
  pe_message :: string
  pe_recoverable :: bool
  pe_consumed_bytes :: nat

datatype ParseResult =
    ParsedCommand Command nat
  | NeedMoreData
  | ParseError ProtocolError

subsection \<open>Limits\<close>

definition kMaxKeyLength :: nat where [kv_consts]:
  "kMaxKeyLength = 512"

definition kMaxValueLength :: nat where [kv_consts]:
  "kMaxValueLength = 1024 * 1024"

definition kMaxBulkStringLength :: nat where [kv_consts]:
  "kMaxBulkStringLength = kMaxValueLength"

definition kMaxArrayElements :: nat where [kv_consts]:
  "kMaxArrayElements = 3"

definition kMaxHeaderLineLength :: nat where [kv_consts]:
  "kMaxHeaderLineLength = 20"

subsection \<open>Header lines and integers\<close>

datatype LineStatus = kFound | kNeedMoreData | kTooLong

record LineResult =
  lr_status :: LineStatus
  lr_content :: string
  lr_consumed :: nat

definition read_line :: "string \<Rightarrow> nat \<Rightarrow> LineResult" where
  "read_line input max_length =
     (case find_crlf input of
        Some pos \<Rightarrow>
          if pos > max_length
          then \<lparr>lr_status = kTooLong, lr_content = [], lr_consumed = 0\<rparr>
          else \<lparr>lr_status = kFound, lr_content = take pos input, lr_consumed = pos + 2\<rparr>
      | None \<Rightarrow>
          if length input > max_length
          then \<lparr>lr_status = kTooLong, lr_content = [], lr_consumed = 0\<rparr>
          else \<lparr>lr_status = kNeedMoreData, lr_content = [], lr_consumed = 0\<rparr>)"

text \<open>
  The loop of \<^verbatim>\<open>parse_nonnegative_integer\<close>, from the accumulated \<open>value\<close>. Bytes above 127
  are negative where \<^verbatim>\<open>char\<close> is signed and large where it is not; both ways they fail the
  digit test, as they do here.
\<close>

fun parse_digits :: "int \<Rightarrow> string \<Rightarrow> int option" where
  "parse_digits value [] = Some value"
| "parse_digits value (c # text) =
     (if (of_char c :: int) < 48 \<or> (of_char c :: int) > 57 then None
      else let digit = (of_char c :: int) - 48 in
        if value > (int64_max - digit) div 10 then None
        else parse_digits (value * 10 + digit) text)"

definition parse_nonnegative_integer :: "string \<Rightarrow> int option" where
  "parse_nonnegative_integer text = (if text = [] then None else parse_digits 0 text)"

definition upper_char :: "char \<Rightarrow> char" where
  "upper_char c =
     (if 97 \<le> (of_char c :: nat) \<and> (of_char c :: nat) \<le> 122
      then char_of ((of_char c :: nat) - 97 + 65) else c)"

definition to_upper_ascii :: "string \<Rightarrow> string" where
  "to_upper_ascii text = map upper_char text"

subsection \<open>Phase 1: framing\<close>

datatype FrameResult =
    FrameArgs "string list" nat
  | FrameNeedMoreData
  | FrameError ProtocolError

definition malformed :: "string \<Rightarrow> ProtocolError" where
  "malformed message =
     \<lparr>pe_category = kMalformedFrame, pe_message = message,
      pe_recoverable = False, pe_consumed_bytes = 0\<rparr>"

text \<open>
  One round of the loop over the bulk strings of a frame, at offset \<open>consumed\<close>: either the
  frame's result is decided (\<open>Inl\<close>), or the body read and the offset after it (\<open>Inr\<close>).
\<close>

definition read_bulk_string :: "string \<Rightarrow> nat \<Rightarrow> FrameResult + string \<times> nat" where
  "read_bulk_string input consumed =
     (if consumed \<ge> length input then Inl FrameNeedMoreData
      else if input ! consumed \<noteq> CHR ''$''
      then Inl (FrameError (malformed ''expected bulk string ('$')''))
      else let bulk_header = read_line (drop (consumed + 1) input) kMaxHeaderLineLength in
        if lr_status bulk_header = kNeedMoreData then Inl FrameNeedMoreData
        else if lr_status bulk_header = kTooLong
        then Inl (FrameError (malformed ''bulk string length header too long''))
        else case parse_nonnegative_integer (lr_content bulk_header) of
            None \<Rightarrow> Inl (FrameError (malformed ''invalid bulk string length''))
          | Some bulk_len \<Rightarrow>
              if nat bulk_len > kMaxBulkStringLength
              then Inl (FrameError
                \<lparr>pe_category = kFieldTooLarge,
                 pe_message = ''bulk string exceeds the maximum field size'',
                 pe_recoverable = False, pe_consumed_bytes = 0\<rparr>)
              else let start = consumed + (1 + lr_consumed bulk_header); body_len = nat bulk_len in
                if length input < start + body_len + 2 then Inl FrameNeedMoreData
                else if input ! (start + body_len) \<noteq> cr \<or> input ! (start + body_len + 1) \<noteq> lf
                then Inl (FrameError (malformed ''bulk string missing terminator''))
                else Inr (take body_len (drop start input), start + (body_len + 2)))"

fun read_bulk_strings :: "string \<Rightarrow> nat \<Rightarrow> nat \<Rightarrow> string list \<Rightarrow> FrameResult" where
  "read_bulk_strings input 0 consumed args = FrameArgs args consumed"
| "read_bulk_strings input (Suc remaining) consumed args =
     (case read_bulk_string input consumed of
        Inl r \<Rightarrow> r
      | Inr (body, consumed') \<Rightarrow>
          read_bulk_strings input remaining consumed' (args @ [body]))"

definition read_multibulk_frame :: "string \<Rightarrow> FrameResult" where
  "read_multibulk_frame input =
     (if input = [] then FrameNeedMoreData
      else if hd input \<noteq> CHR ''*''
      then FrameError (malformed ''expected RESP array ('*')'')
      else let array_header = read_line (drop 1 input) kMaxHeaderLineLength in
        if lr_status array_header = kNeedMoreData then FrameNeedMoreData
        else if lr_status array_header = kTooLong
        then FrameError (malformed ''array length header too long'')
        else case parse_nonnegative_integer (lr_content array_header) of
            None \<Rightarrow> FrameError (malformed ''invalid array length'')
          | Some array_len \<Rightarrow>
              if nat array_len > kMaxArrayElements
              then FrameError (malformed ''too many command arguments'')
              else read_bulk_strings input (nat array_len) (1 + lr_consumed array_header) [])"

subsection \<open>Phase 2: command validation\<close>

record SemanticError =
  se_category :: ProtocolErrorCategory
  se_message :: string

abbreviation quote :: char where "quote \<equiv> CHR 0x27"

definition arity_error :: "string \<Rightarrow> SemanticError" where
  "arity_error name =
     \<lparr>se_category = kWrongArity,
      se_message = ''ERR wrong number of arguments for '' @ quote # name @ quote # '' command''\<rparr>"

definition check_key_length :: "string \<Rightarrow> SemanticError option" where
  "check_key_length key =
     (if length key > kMaxKeyLength
      then Some \<lparr>se_category = kFieldTooLarge, se_message = ''ERR key exceeds maximum size''\<rparr>
      else None)"

text \<open>The default-initialised fields of a \<^typ>\<open>Command\<close> are empty strings and zero seconds.\<close>

definition build_command :: "string list \<Rightarrow> SemanticError + Command" where
  "build_command args =
     (if args = []
      then Inl \<lparr>se_category = kUnknownCommand,
                se_message = ''ERR unknown command '' @ [quote, quote]\<rparr>
      else let name = to_upper_ascii (args ! 0) in
      if name = ''PING'' then
        if length args \<noteq> 1 then Inl (arity_error name)
        else Inr \<lparr>cmd_type = kPing, cmd_key = [], cmd_value = [], cmd_seconds = 0\<rparr>
      else if name = ''SET'' then
        if length args \<noteq> 3 then Inl (arity_error name)
        else case check_key_length (args ! 1) of
            Some err \<Rightarrow> Inl err
          | None \<Rightarrow>
              if length (args ! 2) > kMaxValueLength
              then Inl \<lparr>se_category = kFieldTooLarge, se_message = ''ERR value exceeds maximum size''\<rparr>
              else Inr \<lparr>cmd_type = kSet, cmd_key = args ! 1, cmd_value = args ! 2, cmd_seconds = 0\<rparr>
      else if name = ''GET'' then
        if length args \<noteq> 2 then Inl (arity_error name)
        else case check_key_length (args ! 1) of
            Some err \<Rightarrow> Inl err
          | None \<Rightarrow> Inr \<lparr>cmd_type = kGet, cmd_key = args ! 1, cmd_value = [], cmd_seconds = 0\<rparr>
      else if name = ''DEL'' then
        if length args \<noteq> 2 then Inl (arity_error name)
        else case check_key_length (args ! 1) of
            Some err \<Rightarrow> Inl err
          | None \<Rightarrow> Inr \<lparr>cmd_type = kDel, cmd_key = args ! 1, cmd_value = [], cmd_seconds = 0\<rparr>
      else if name = ''EXISTS'' then
        if length args \<noteq> 2 then Inl (arity_error name)
        else case check_key_length (args ! 1) of
            Some err \<Rightarrow> Inl err
          | None \<Rightarrow> Inr \<lparr>cmd_type = kExists, cmd_key = args ! 1, cmd_value = [], cmd_seconds = 0\<rparr>
      else if name = ''EXPIRE'' then
        if length args \<noteq> 3 then Inl (arity_error name)
        else case check_key_length (args ! 1) of
            Some err \<Rightarrow> Inl err
          | None \<Rightarrow>
              (case parse_nonnegative_integer (args ! 2) of
                 None \<Rightarrow> Inl \<lparr>se_category = kInvalidInteger,
                              se_message = ''ERR value is not an integer or out of range''\<rparr>
               | Some seconds \<Rightarrow>
                   Inr \<lparr>cmd_type = kExpire, cmd_key = args ! 1, cmd_value = [], cmd_seconds = seconds\<rparr>)
      else if name = ''TTL'' then
        if length args \<noteq> 2 then Inl (arity_error name)
        else case check_key_length (args ! 1) of
            Some err \<Rightarrow> Inl err
          | None \<Rightarrow> Inr \<lparr>cmd_type = kTtl, cmd_key = args ! 1, cmd_value = [], cmd_seconds = 0\<rparr>
      else Inl \<lparr>se_category = kUnknownCommand,
                se_message = ''ERR unknown command '' @ quote # (args ! 0) @ [quote]\<rparr>)"

definition parse_command :: "string \<Rightarrow> ParseResult" where
  "parse_command input =
     (case read_multibulk_frame input of
        FrameNeedMoreData \<Rightarrow> NeedMoreData
      | FrameError e \<Rightarrow> ParseError e
      | FrameArgs args consumed \<Rightarrow>
          (case build_command args of
             Inl error \<Rightarrow>
               ParseError \<lparr>pe_category = se_category error, pe_message = se_message error,
                           pe_recoverable = True, pe_consumed_bytes = consumed\<rparr>
           | Inr command \<Rightarrow> ParsedCommand command consumed))"

subsection \<open>Header lines\<close>

lemma read_line_append:
  "lr_status (read_line s m) = kFound \<Longrightarrow> read_line (s @ t) m = read_line s m"
  by (auto simp: read_line_def find_crlf_append dest: find_crlf_bound
      split: option.splits if_splits)

lemma read_line_size:
  assumes "lr_status (read_line s m) = kFound"
  shows "lr_consumed (read_line s m) = length (lr_content (read_line s m)) + 2"
    and "lr_consumed (read_line s m) \<le> length s"
    and "length (lr_content (read_line s m)) \<le> m"
  using assms
  by (auto simp: read_line_def dest: find_crlf_bound split: option.splits if_splits)

lemma read_line_NeedMoreData:
  "lr_status (read_line s m) = kNeedMoreData \<Longrightarrow> length s \<le> m"
  by (auto simp: read_line_def split: option.splits if_splits)

lemma read_line_line:
  assumes "cr \<notin> set s" and "length s \<le> m"
  shows "read_line (s @ crlf @ t) m =
    \<lparr>lr_status = kFound, lr_content = s, lr_consumed = length s + 2\<rparr>"
  using assms find_crlf_line [of s t] by (simp add: read_line_def)

lemma read_line_prefix:
  assumes "cr \<notin> set s" and "length s < m"
  shows "lr_status (read_line (take n (s @ [cr])) m) = kNeedMoreData"
proof -
  have "find_crlf (take n (s @ [cr])) = None"
  proof (cases "n \<le> length s")
    case True
    then have "set (take n (s @ [cr])) \<subseteq> set s"
      by (auto dest: in_set_takeD)
    with assms(1) show ?thesis by (blast intro: find_crlf_None)
  next
    case False
    with assms(1) show ?thesis by (simp add: find_crlf_no_cr)
  qed
  with assms(2) show ?thesis by (simp add: read_line_def)
qed

subsection \<open>The integer grammar\<close>

lemma foldl_dec_ge:
  "\<lbrakk>0 \<le> v; \<forall>c\<in>set ds. is_digit c\<rbrakk>
    \<Longrightarrow> v \<le> foldl (\<lambda>v c. v * 10 + ((of_char c :: int) - 48)) v ds"
proof (induction ds arbitrary: v)
  case Nil
  then show ?case by simp
next
  case (Cons c ds)
  let ?v = "v * 10 + ((of_char c :: int) - 48)"
  from Cons.prems have "48 \<le> (of_char c :: int)" by (simp add: is_digit_int)
  with Cons.prems have le: "v \<le> ?v" by linarith
  with Cons.prems have "?v \<le> foldl (\<lambda>v c. v * 10 + ((of_char c :: int) - 48)) ?v ds"
    by (intro Cons.IH) auto
  with le show ?case by simp
qed

lemma parse_digits_eq:
  "0 \<le> v \<Longrightarrow> v \<le> int64_max \<Longrightarrow> parse_digits v ds =
     (let r = foldl (\<lambda>v c. v * 10 + (of_char c - 48)) v ds in
      if (\<forall>c\<in>set ds. is_digit c) \<and> r \<le> int64_max then Some r else None)"
proof (induction ds arbitrary: v)
  case Nil
  then show ?case by simp
next
  case (Cons c ds)
  let ?d = "(of_char c :: int) - 48"
  have digit: "(of_char c :: int) < 48 \<or> (of_char c :: int) > 57 \<longleftrightarrow> \<not> is_digit c"
    by (auto simp: is_digit_int)
  have over: "v > (int64_max - ?d) div 10 \<longleftrightarrow> v * 10 + ?d > int64_max"
    by (subst int_div_less_iff) auto
  have step: "parse_digits v (c # ds) =
    (if \<not> is_digit c \<or> v * 10 + ?d > int64_max then None else parse_digits (v * 10 + ?d) ds)"
    unfolding parse_digits.simps digit Let_def over by simp
  show ?case
  proof (cases "is_digit c")
    case False
    with step show ?thesis by (simp add: Let_def)
  next
    case True
    with Cons.prems have nonneg: "0 \<le> v * 10 + ?d" by (simp add: is_digit_int)
    show ?thesis
    proof (cases "v * 10 + ?d > int64_max")
      case False
      with step True nonneg Cons.IH [of "v * 10 + ?d"] show ?thesis
        by (simp add: Let_def)
    next
      case o: True
      from foldl_dec_ge [OF nonneg] o
      have "\<forall>c\<in>set ds. is_digit c \<Longrightarrow>
        int64_max < foldl (\<lambda>v c. v * 10 + (of_char c - 48)) (v * 10 + ?d) ds"
        by (meson order_less_le_trans)
      with step o True show ?thesis by (auto simp: Let_def)
    qed
  qed
qed

lemma parse_nonnegative_integer_eq:
  "parse_nonnegative_integer ds =
     (if ds \<noteq> [] \<and> (\<forall>c\<in>set ds. is_digit c) \<and> dec_value ds \<le> int64_max
      then Some (dec_value ds) else None)"
  by (simp add: parse_nonnegative_integer_def parse_digits_eq int64_max_def dec_value_def Let_def)

lemma parse_nonnegative_integer_range:
  assumes "parse_nonnegative_integer ds = Some v"
  shows "0 \<le> v" and "v \<le> int64_max" and "ds \<noteq> []"
  using assms foldl_dec_ge [of 0 ds]
  by (auto simp: parse_nonnegative_integer_eq dec_value_def split: if_splits)

lemma parse_nonnegative_integer_to_string:
  "int n \<le> int64_max \<Longrightarrow> parse_nonnegative_integer (nat_to_string n) = Some (int n)"
  by (simp add: parse_nonnegative_integer_eq dec_value_nat_to_string nat_to_string_digits)

subsection \<open>Reading one bulk string\<close>

text \<open>
  A bulk string is read when its header line is found, holds a length within the cap, and
  the body and its terminator are there: the only way the loop's round continues.
\<close>

lemma read_bulk_string_Inr:
  "read_bulk_string input consumed = Inr (body, consumed') \<longleftrightarrow>
     (\<exists>h n. consumed < length input \<and> input ! consumed = CHR ''$'' \<and>
        h = read_line (drop (consumed + 1) input) kMaxHeaderLineLength \<and>
        lr_status h = kFound \<and> parse_nonnegative_integer (lr_content h) = Some (int n) \<and>
        n \<le> kMaxBulkStringLength \<and>
        consumed' = consumed + 1 + lr_consumed h + n + 2 \<and> consumed' \<le> length input \<and>
        input ! (consumed' - 2) = cr \<and> input ! (consumed' - 1) = lf \<and>
        body = take n (drop (consumed + 1 + lr_consumed h) input))"
  (is "?l \<longleftrightarrow> ?r")
proof -
  let ?h = "read_line (drop (consumed + 1) input) kMaxHeaderLineLength"
  have status: "lr_status ?h = kFound \<longleftrightarrow> lr_status ?h \<noteq> kNeedMoreData \<and> lr_status ?h \<noteq> kTooLong"
    by (cases "lr_status ?h") auto
  show ?thesis
  proof (cases "parse_nonnegative_integer (lr_content ?h)")
    case None
    then show ?thesis by (auto simp: read_bulk_string_def Let_def split: if_splits)
  next
    case (Some v)
    with parse_nonnegative_integer_range(1) have v: "v = int n \<longleftrightarrow> n = nat v" for n
      by fastforce
    have "?r \<longleftrightarrow> consumed < length input \<and> input ! consumed = CHR ''$'' \<and> lr_status ?h = kFound \<and>
        nat v \<le> kMaxBulkStringLength \<and>
        consumed' = consumed + 1 + lr_consumed ?h + nat v + 2 \<and> consumed' \<le> length input \<and>
        input ! (consumed' - 2) = cr \<and> input ! (consumed' - 1) = lf \<and>
        body = take (nat v) (drop (consumed + 1 + lr_consumed ?h) input)"
      by (simp add: Some [simplified] v)
    moreover have "?l \<longleftrightarrow> \<dots>"
      using Some status
      by (auto simp: read_bulk_string_def Let_def not_less add.assoc split: if_splits)
    ultimately show ?thesis by simp
  qed
qed

lemma read_bulk_string_append:
  assumes "read_bulk_string input consumed = Inr (body, consumed')"
  shows "read_bulk_string (input @ later) consumed = Inr (body, consumed')"
proof -
  from assms obtain h n where r:
    "consumed < length input" "input ! consumed = CHR ''$''"
    "h = read_line (drop (consumed + 1) input) kMaxHeaderLineLength"
    "lr_status h = kFound" "parse_nonnegative_integer (lr_content h) = Some (int n)"
    "n \<le> kMaxBulkStringLength" "consumed' = consumed + 1 + lr_consumed h + n + 2"
    "consumed' \<le> length input" "input ! (consumed' - 2) = cr" "input ! (consumed' - 1) = lf"
    "body = take n (drop (consumed + 1 + lr_consumed h) input)"
    unfolding read_bulk_string_Inr by blast
  have "read_line (drop (consumed + 1) (input @ later)) kMaxHeaderLineLength = h"
    using r(1,3,4) read_line_append by simp
  with r show ?thesis
    unfolding read_bulk_string_Inr
    by (intro exI [of _ h] exI [of _ n]) (simp add: nth_append)
qed

lemma read_bulk_string_size:
  assumes "read_bulk_string input consumed = Inr (body, consumed')"
  shows "consumed' \<le> length input"
    and "consumed + length body + 4 \<le> consumed'"
    and "consumed' \<le> consumed + length body + 25"
    and "length body \<le> kMaxBulkStringLength"
proof -
  from assms obtain h n where r:
    "consumed < length input"
    "h = read_line (drop (consumed + 1) input) kMaxHeaderLineLength"
    "lr_status h = kFound" "parse_nonnegative_integer (lr_content h) = Some (int n)"
    "n \<le> kMaxBulkStringLength" "consumed' = consumed + 1 + lr_consumed h + n + 2"
    "consumed' \<le> length input" "body = take n (drop (consumed + 1 + lr_consumed h) input)"
    unfolding read_bulk_string_Inr by blast
  have len: "length body = n" using r(6,7,8) by simp
  have h: "lr_consumed h = length (lr_content h) + 2" "length (lr_content h) \<le> 20"
    using read_line_size [OF r(3) [unfolded r(2)]] r(2) by (simp_all add: kMaxHeaderLineLength_def)
  show "consumed' \<le> length input" by (fact r(7))
  show "consumed + length body + 4 \<le> consumed'" using r(6) len h by simp
  show "consumed' \<le> consumed + length body + 25" using r(6) len h by simp
  show "length body \<le> kMaxBulkStringLength" using r(5) len by simp
qed

lemma read_bulk_string_NeedMoreData:
  assumes "read_bulk_string input consumed = Inl FrameNeedMoreData"
  shows "length input < consumed + kMaxBulkStringLength + 25"
proof (cases "consumed < length input")
  case True
  let ?h = "read_line (drop (consumed + 1) input) kMaxHeaderLineLength"
  show ?thesis
  proof (cases "lr_status ?h")
    case kFound
    with read_line_size [OF kFound] assms True show ?thesis
      by (auto simp: read_bulk_string_def Let_def kMaxHeaderLineLength_def malformed_def
          split: if_splits option.splits)
  next
    case kNeedMoreData
    with read_line_NeedMoreData [OF kNeedMoreData] show ?thesis
      by (simp add: kMaxHeaderLineLength_def)
  next
    case kTooLong
    with assms True show ?thesis by (simp add: read_bulk_string_def Let_def split: if_splits)
  qed
qed simp

subsection \<open>Reading a frame\<close>

lemma read_bulk_strings_append:
  "read_bulk_strings input n consumed args = FrameArgs args' consumed' \<Longrightarrow>
   read_bulk_strings (input @ later) n consumed args = FrameArgs args' consumed'"
proof (induction input n consumed args rule: read_bulk_strings.induct)
  case (2 input remaining consumed args)
  show ?case
  proof (cases "read_bulk_string input consumed")
    case (Inl r)
    with "2.prems" show ?thesis
      by (auto simp: read_bulk_string_def Let_def split: if_splits option.splits)
  next
    case (Inr p)
    then obtain body c where "read_bulk_string input consumed = Inr (body, c)" by (cases p) auto
    with "2" read_bulk_string_append show ?thesis by simp
  qed
qed simp

lemma read_bulk_strings_size:
  assumes "read_bulk_strings input n consumed args = FrameArgs args' consumed'"
    and "consumed \<le> length input"
  shows "\<exists>bodies. args' = args @ bodies \<and> length bodies = n \<and>
      (\<forall>b\<in>set bodies. length b \<le> kMaxBulkStringLength) \<and>
      consumed' \<le> length input \<and>
      consumed + sum_list (map length bodies) + 4 * n \<le> consumed' \<and>
      consumed' \<le> consumed + sum_list (map length bodies) + 25 * n"
  using assms
proof (induction input n consumed args rule: read_bulk_strings.induct)
  case (1 input consumed args)
  then show ?case by simp
next
  case (2 input remaining consumed args)
  show ?case
  proof (cases "read_bulk_string input consumed")
    case (Inl r)
    with "2.prems" show ?thesis
      by (auto simp: read_bulk_string_def Let_def split: if_splits option.splits)
  next
    case (Inr p)
    then obtain body c where b: "read_bulk_string input consumed = Inr (body, c)" by (cases p) auto
    note size = read_bulk_string_size [OF b]
    with "2.IH" [OF b refl] "2.prems"(1) b obtain bodies where
      "args' = (args @ [body]) @ bodies" "length bodies = remaining"
      "\<forall>b\<in>set bodies. length b \<le> kMaxBulkStringLength" "consumed' \<le> length input"
      "c + sum_list (map length bodies) + 4 * remaining \<le> consumed'"
      "consumed' \<le> c + sum_list (map length bodies) + 25 * remaining"
      by auto
    with size show ?thesis by (intro exI [of _ "body # bodies"]) auto
  qed
qed

lemma read_bulk_strings_NeedMoreData:
  assumes "read_bulk_strings input n consumed args = FrameNeedMoreData"
    and "consumed \<le> length input"
  shows "length input < consumed + n * (kMaxBulkStringLength + 25)"
  using assms
proof (induction input n consumed args rule: read_bulk_strings.induct)
  case (2 input remaining consumed args)
  show ?case
  proof (cases "read_bulk_string input consumed")
    case (Inl r)
    with "2.prems" have "read_bulk_string input consumed = Inl FrameNeedMoreData" by simp
    from read_bulk_string_NeedMoreData [OF this] show ?thesis by simp
  next
    case (Inr p)
    then obtain body c where b: "read_bulk_string input consumed = Inr (body, c)" by (cases p) auto
    with "2.IH" [OF b refl] "2.prems"(1) read_bulk_string_size [OF b] show ?thesis by auto
  qed
qed simp

lemma read_bulk_strings_error:
  "read_bulk_strings input n consumed args = FrameError e \<Longrightarrow>
     \<not> pe_recoverable e \<and> pe_consumed_bytes e = 0"
proof (induction input n consumed args rule: read_bulk_strings.induct)
  case (2 input remaining consumed args)
  show ?case
  proof (cases "read_bulk_string input consumed")
    case (Inl r)
    with "2.prems" show ?thesis
      by (auto simp: read_bulk_string_def Let_def malformed_def split: if_splits option.splits)
  next
    case (Inr p)
    with "2" show ?thesis by (cases p) auto
  qed
qed simp

text \<open>A frame's array header, as the code after it sees it.\<close>

lemma read_multibulk_frame_cases:
  obtains (empty) "input = []" "read_multibulk_frame input = FrameNeedMoreData"
  | (header) "input \<noteq> []" "length input \<le> 21" "read_multibulk_frame input = FrameNeedMoreData"
  | (error) e where "read_multibulk_frame input = FrameError e" "\<not> pe_recoverable e"
      "pe_consumed_bytes e = 0"
  | (bulks) h n where "h = read_line (drop 1 input) kMaxHeaderLineLength" "input \<noteq> []"
      "hd input = CHR ''*''" "lr_status h = kFound"
      "parse_nonnegative_integer (lr_content h) = Some (int n)" "n \<le> 3"
      "4 \<le> 1 + lr_consumed h" "1 + lr_consumed h \<le> 23" "1 + lr_consumed h \<le> length input"
      "read_multibulk_frame input = read_bulk_strings input n (1 + lr_consumed h) []"
proof -
  define h where "h = read_line (drop 1 input) kMaxHeaderLineLength"
  note unf = read_multibulk_frame_def [of input, unfolded Let_def, folded h_def] malformed_def
  consider "input = []" | "input \<noteq> []" "hd input \<noteq> CHR ''*''"
    | "input \<noteq> []" "hd input = CHR ''*''" by blast
  then show thesis
  proof cases
    case 3
    show thesis
    proof (cases "lr_status h")
      case kNeedMoreData
      from read_line_NeedMoreData [OF this [unfolded h_def]] have "length input \<le> 21"
        by (simp add: kMaxHeaderLineLength_def)
      with 3 kNeedMoreData show thesis by (intro header) (simp_all add: unf)
    next
      case kTooLong
      with 3 show thesis by - (rule error, simp add: unf, simp_all)
    next
      case kFound
      show thesis
      proof (cases "parse_nonnegative_integer (lr_content h)")
        case None
        with 3 kFound show thesis by - (rule error, simp add: unf, simp_all)
      next
        case (Some v)
        note range = parse_nonnegative_integer_range [OF Some]
        note size = read_line_size [OF kFound [unfolded h_def], folded h_def]
        have "length (lr_content h) \<noteq> 0" using range(3) by simp
        then have b4: "4 \<le> 1 + lr_consumed h" using size(1) by linarith
        have b23: "1 + lr_consumed h \<le> 23"
          using size(1,3) unfolding kMaxHeaderLineLength_def by linarith
        have "0 < length input" using 3(1) by simp
        with size(2) have blen: "1 + lr_consumed h \<le> length input"
          unfolding length_drop by linarith
        show thesis
        proof (cases "nat v > kMaxArrayElements")
          case True
          with 3 kFound Some show thesis by - (rule error, simp add: unf, simp_all)
        next
          case False
          show thesis
            by (rule bulks [OF h_def 3 kFound _ _ b4 b23 blen, of "nat v"])
              (use 3 kFound Some range False in \<open>simp_all add: unf kMaxArrayElements_def\<close>)
        qed
      qed
    qed
  next
    case 2
    then show thesis by - (rule error, simp add: unf, simp_all)
  next
    case 1
    then show thesis by (intro empty) (simp_all add: read_multibulk_frame_def)
  qed
qed

lemma read_multibulk_frame_append:
  assumes "read_multibulk_frame input = FrameArgs args consumed"
  shows "read_multibulk_frame (input @ later) = FrameArgs args consumed"
proof (cases input rule: read_multibulk_frame_cases)
  case (bulks h n)
  then have "read_line (drop 1 (input @ later)) kMaxHeaderLineLength = h"
    using read_line_append [of "drop 1 input" kMaxHeaderLineLength later]
    by (cases input) auto
  moreover have "read_bulk_strings (input @ later) n (1 + lr_consumed h) [] = FrameArgs args consumed"
    using read_bulk_strings_append bulks(10) assms by metis
  ultimately show ?thesis
    using bulks by (simp add: read_multibulk_frame_def kMaxArrayElements_def)
qed (use assms in simp_all)

lemma read_multibulk_frame_size:
  assumes "read_multibulk_frame input = FrameArgs args consumed"
  shows "4 \<le> consumed" and "consumed \<le> length input" and "length args \<le> 3"
    and "\<forall>b\<in>set args. length b \<le> kMaxBulkStringLength"
    and "consumed \<le> 98 + sum_list (map length args)"
proof -
  have "4 \<le> consumed \<and> consumed \<le> length input \<and> length args \<le> 3 \<and>
    (\<forall>b\<in>set args. length b \<le> kMaxBulkStringLength) \<and>
    consumed \<le> 98 + sum_list (map length args)"
  proof (cases input rule: read_multibulk_frame_cases)
    case (bulks h n)
    from bulks(10) assms
    have frame: "read_bulk_strings input n (1 + lr_consumed h) [] = FrameArgs args consumed"
      by (rule trans [OF sym])
    from read_bulk_strings_size [OF frame bulks(9)] bulks(6,7,8) show ?thesis by auto
  qed (use assms in simp_all)
  then show "4 \<le> consumed" "consumed \<le> length input" "length args \<le> 3"
    "\<forall>b\<in>set args. length b \<le> kMaxBulkStringLength"
    "consumed \<le> 98 + sum_list (map length args)"
    by blast+
qed

lemma read_multibulk_frame_NeedMoreData:
  assumes "read_multibulk_frame input = FrameNeedMoreData"
  shows "length input < 3145826"
proof (cases input rule: read_multibulk_frame_cases)
  case (bulks h n)
  from read_bulk_strings_NeedMoreData [OF _ bulks(9), of n "[]"] bulks(10) assms
  have "length input < 1 + lr_consumed h + n * (kMaxBulkStringLength + 25)" by simp
  also have "n * (kMaxBulkStringLength + 25) \<le> 3 * (kMaxBulkStringLength + 25)"
    using bulks(6) by (rule mult_le_mono1)
  finally show ?thesis using bulks(8) by (simp add: kMaxBulkStringLength_def kMaxValueLength_def)
qed (use assms in simp_all)

lemma read_multibulk_frame_error:
  assumes "read_multibulk_frame input = FrameError e"
  shows "\<not> pe_recoverable e \<and> pe_consumed_bytes e = 0"
  using assms
  by (cases input rule: read_multibulk_frame_cases) (auto dest: read_bulk_strings_error)

subsection \<open>Building a command\<close>

text \<open>What the rest of the server may rely on about a parsed command.\<close>

definition valid_command :: "Command \<Rightarrow> bool" where
  "valid_command c \<longleftrightarrow>
     length (cmd_key c) \<le> kMaxKeyLength \<and> length (cmd_value c) \<le> kMaxValueLength \<and>
     0 \<le> cmd_seconds c \<and> cmd_seconds c \<le> int64_max \<and>
     (cmd_type c = kPing \<longrightarrow> cmd_key c = []) \<and>
     (cmd_type c \<noteq> kSet \<longrightarrow> cmd_value c = []) \<and>
     (cmd_type c \<noteq> kExpire \<longrightarrow> cmd_seconds c = 0)"

lemma length_to_upper_ascii [simp]: "length (to_upper_ascii s) = length s"
  by (simp add: to_upper_ascii_def)

lemma build_command_Inr:
  assumes "build_command args = Inr c"
  shows "valid_command c" and "args \<noteq> []" and "length (args ! 0) \<le> 6"
    and "2 \<le> length args \<Longrightarrow> length (args ! 1) \<le> kMaxKeyLength"
proof -
  have name: "to_upper_ascii (args ! 0) = s \<Longrightarrow> length (args ! 0) = length s" for s
    using length_to_upper_ascii [of "args ! 0"] by simp
  show "valid_command c" "args \<noteq> []" "length (args ! 0) \<le> 6"
    "2 \<le> length args \<Longrightarrow> length (args ! 1) \<le> kMaxKeyLength"
    using assms
    by (auto simp: build_command_def Let_def valid_command_def check_key_length_def int64_max_def
        dest: parse_nonnegative_integer_range name split: if_splits option.splits)
qed

subsection \<open>Fatal errors and later input\<close>

lemma find_crlf_append_None:
  assumes "find_crlf s = None" and "s \<noteq> [] \<Longrightarrow> last s \<noteq> cr"
  shows "find_crlf (s @ t) = map_option (\<lambda>p. p + length s) (find_crlf t)"
  using assms
proof (induction s rule: find_crlf.induct)
  case 1
  then show ?case by (simp add: option.map_ident)
next
  case (2 c)
  then show ?case by (cases t) (auto simp: option.map_ident)
next
  case (3 c d cs)
  then show ?case by (auto simp: option.map_comp o_def split: if_splits)
qed

lemma read_line_TooLong_append:
  assumes "lr_status (read_line s m) = kTooLong" and "last s \<noteq> cr"
  shows "lr_status (read_line (s @ t) m) = kTooLong"
proof (cases "find_crlf s")
  case None
  with assms(1) have "m < length s" by (auto simp: read_line_def split: if_splits)
  with find_crlf_append_None [OF None] assms(2) show ?thesis
    by (auto simp: read_line_def split: option.splits)
next
  case (Some p)
  with assms(1) show ?thesis
    by (auto simp: read_line_def find_crlf_append split: if_splits)
qed

lemma read_bulk_string_error_append:
  assumes "read_bulk_string input consumed = Inl (FrameError e)" and "last input \<noteq> cr"
  shows "read_bulk_string (input @ later) consumed = Inl (FrameError e)"
proof -
  let ?h = "read_line (drop (consumed + 1) input) kMaxHeaderLineLength"
  let ?h' = "read_line (drop (consumed + 1) (input @ later)) kMaxHeaderLineLength"
  from assms have c: "consumed < length input"
    by (auto simp: read_bulk_string_def split: if_splits)
  then have drop: "drop (consumed + 1) (input @ later) = drop (consumed + 1) input @ later"
    and nth: "(input @ later) ! consumed = input ! consumed"
    by (simp_all add: nth_append)
  show ?thesis
  proof (cases "input ! consumed = CHR ''$''")
    case False
    with assms c nth show ?thesis by (simp add: read_bulk_string_def)
  next
    case dollar: True
    show ?thesis
    proof (cases "lr_status ?h")
      case kNeedMoreData
      with assms c dollar show ?thesis by (simp add: read_bulk_string_def Let_def)
    next
      case kTooLong
      then have "drop (consumed + 1) input \<noteq> []"
        by (auto simp: read_line_def)
      with assms(2) have "last (drop (consumed + 1) input) \<noteq> cr" by simp
      with kTooLong have "lr_status ?h' = kTooLong"
        unfolding drop by (rule read_line_TooLong_append)
      with kTooLong assms c dollar nth show ?thesis
        by (simp add: read_bulk_string_def Let_def)
    next
      case kFound
      then have h': "?h' = ?h" unfolding drop by (rule read_line_append)
      show ?thesis
        using kFound assms(1) c dollar nth
        unfolding read_bulk_string_def Let_def h'
        by (auto simp: nth_append split: if_splits option.splits)
    qed
  qed
qed

lemma read_bulk_strings_error_append:
  "\<lbrakk>read_bulk_strings input n consumed args = FrameError e; last input \<noteq> cr\<rbrakk>
   \<Longrightarrow> read_bulk_strings (input @ later) n consumed args = FrameError e"
proof (induction input n consumed args rule: read_bulk_strings.induct)
  case (2 input remaining consumed args)
  show ?case
  proof (cases "read_bulk_string input consumed")
    case (Inl r)
    with "2.prems" have "read_bulk_string input consumed = Inl (FrameError e)" by simp
    with "2.prems"(2) read_bulk_string_error_append show ?thesis by simp
  next
    case (Inr p)
    then obtain body c where "read_bulk_string input consumed = Inr (body, c)" by (cases p) auto
    with "2" read_bulk_string_append show ?thesis by simp
  qed
qed simp

lemma read_multibulk_frame_error_append:
  assumes "read_multibulk_frame input = FrameError e" and "last input \<noteq> cr"
  shows "read_multibulk_frame (input @ later) = FrameError e"
proof -
  define h where "h = read_line (drop 1 input) kMaxHeaderLineLength"
  define h' where "h' = read_line (drop 1 (input @ later)) kMaxHeaderLineLength"
  note unf = read_multibulk_frame_def [of input, unfolded Let_def, folded h_def]
    read_multibulk_frame_def [of "input @ later", unfolded Let_def, folded h'_def]
  from assms(1) have ne: "input \<noteq> []" by (auto simp: read_multibulk_frame_def)
  then have drop: "drop 1 (input @ later) = drop 1 input @ later" by (cases input) auto
  show ?thesis
  proof (cases "hd input = CHR ''*''")
    case False
    with assms(1) ne show ?thesis by (simp add: unf)
  next
    case star: True
    show ?thesis
    proof (cases "lr_status h")
      case kNeedMoreData
      with assms(1) ne star show ?thesis by (simp add: unf)
    next
      case kTooLong
      then have "drop 1 input \<noteq> []" by (auto simp: h_def read_line_def)
      with assms(2) have "last (drop 1 input) \<noteq> cr" by (cases input) auto
      with kTooLong have "lr_status h' = kTooLong"
        unfolding h_def h'_def drop by (rule read_line_TooLong_append)
      with kTooLong assms(1) ne star show ?thesis by (simp add: unf)
    next
      case kFound
      then have "h' = h" unfolding h_def h'_def drop by (rule read_line_append)
      with kFound assms ne star show ?thesis
        by (auto simp: unf intro: read_bulk_strings_error_append split: option.splits)
    qed
  qed
qed

subsection \<open>Properties of the parser\<close>

text \<open>
  A finished verdict: the frame's length is known, so the caller takes it off its buffer.
\<close>

definition finished :: "ParseResult \<Rightarrow> bool" where
  "finished r = (case r of
      ParsedCommand c n \<Rightarrow> True
    | NeedMoreData \<Rightarrow> False
    | ParseError e \<Rightarrow> pe_recoverable e)"

lemma finished_simps [simp]:
  "finished (ParsedCommand c n)" "\<not> finished NeedMoreData"
  "finished (ParseError e) \<longleftrightarrow> pe_recoverable e"
  by (simp_all add: finished_def)

lemma finished_FrameArgs:
  "finished (parse_command input) \<longleftrightarrow> (\<exists>args n. read_multibulk_frame input = FrameArgs args n)"
  by (auto simp: parse_command_def dest: read_multibulk_frame_error
      split: FrameResult.splits sum.splits)

lemma parse_command_consumes:
  "parse_command input = ParsedCommand c n \<Longrightarrow> 4 \<le> n \<and> n \<le> length input"
  "parse_command input = ParseError e \<Longrightarrow> pe_recoverable e \<Longrightarrow>
    4 \<le> pe_consumed_bytes e \<and> pe_consumed_bytes e \<le> length input"
  by (auto simp: parse_command_def dest: read_multibulk_frame_error read_multibulk_frame_size(1,2)
      split: FrameResult.splits sum.splits)

lemma sum_list_length_3:
  assumes "length xs \<le> 3" and "\<forall>b\<in>set xs. length b \<le> kMaxBulkStringLength"
    and "xs \<noteq> []" "length (xs ! 0) \<le> 6" "2 \<le> length xs \<Longrightarrow> length (xs ! 1) \<le> kMaxKeyLength"
  shows "sum_list (map length xs) \<le> 6 + kMaxKeyLength + kMaxBulkStringLength"
proof -
  from assms(3) obtain a ys where xs: "xs = a # ys" by (cases xs) auto
  show ?thesis
  proof (cases ys)
    case Nil
    with xs assms(4) show ?thesis by simp
  next
    case b: (Cons b zs)
    show ?thesis
    proof (cases zs)
      case Nil
      with xs b assms(4,5) show ?thesis by simp
    next
      case (Cons c ws)
      with xs b assms(1) have "ws = []" by simp
      with xs b Cons assms(2,4,5) show ?thesis by simp
    qed
  qed
qed

text \<open>The PING frame, for the concrete instances below.\<close>

definition ping_frame :: string where
  "ping_frame = ''*1'' @ crlf @ ''$4'' @ crlf @ ''PING'' @ crlf"

lemma parse_ping_frame:
  "parse_command ping_frame =
     ParsedCommand \<lparr>cmd_type = kPing, cmd_key = [], cmd_value = [], cmd_seconds = 0\<rparr> 14"
  by code_simp

text \<open>
  C23. Every verdict of the parser stays within the bytes it was given and within fixed
  limits: a parsed command consumes between 4 bytes and the buffered input, and never more
  than 1049192 bytes (so every valid command fits the 2 MiB input buffer); the parser asks
  for more data only while fewer than 3145826 bytes are buffered; a recoverable error
  consumes a positive part of the input, an unrecoverable one consumes nothing.
\<close>

theorem parse_command_bounds:
  "case parse_command input of
     ParsedCommand c n \<Rightarrow> 4 \<le> n \<and> n \<le> length input \<and> n \<le> 1049192
   | NeedMoreData \<Rightarrow> length input < 3145826
   | ParseError e \<Rightarrow>
       if pe_recoverable e
       then 4 \<le> pe_consumed_bytes e \<and> pe_consumed_bytes e \<le> length input
       else pe_consumed_bytes e = 0"
proof (cases "read_multibulk_frame input")
  case (FrameArgs args n)
  note size = read_multibulk_frame_size [OF FrameArgs]
  show ?thesis
  proof (cases "build_command args")
    case (Inl e)
    with FrameArgs size show ?thesis by (simp add: parse_command_def)
  next
    case (Inr c)
    note built = build_command_Inr [OF Inr]
    from sum_list_length_3 [OF size(3,4) built(2,3,4)] size(5)
    have "n \<le> 1049192" by (simp add: kv_consts)
    with FrameArgs Inr size show ?thesis by (simp add: parse_command_def)
  qed
next
  case FrameNeedMoreData
  with read_multibulk_frame_NeedMoreData show ?thesis by (simp add: parse_command_def)
next
  case (FrameError e)
  with read_multibulk_frame_error show ?thesis by (simp add: parse_command_def)
qed

text \<open>
  C20. A verdict other than "need more data" does not depend on how the bytes arrived: bytes
  that come later do not change it, for every finished verdict, and for every fatal error
  raised on input that does not end in a carriage return.
\<close>

theorem parse_command_stable:
  assumes "finished (parse_command input) \<or> parse_command input \<noteq> NeedMoreData \<and> last input \<noteq> cr"
  shows "parse_command (input @ later) = parse_command input"
proof (cases "read_multibulk_frame input")
  case (FrameArgs args n)
  with read_multibulk_frame_append show ?thesis by (simp add: parse_command_def)
next
  case FrameNeedMoreData
  with assms show ?thesis by (simp add: parse_command_def)
next
  case (FrameError e)
  with assms have "last input \<noteq> cr" by (auto simp: finished_FrameArgs)
  with FrameError read_multibulk_frame_error_append show ?thesis by (simp add: parse_command_def)
qed

theorem parse_command_stable_witness:
  "finished (parse_command ping_frame) \<and>
   parse_command (ping_frame @ ''*1'') = parse_command ping_frame"
  using parse_command_stable [of ping_frame "''*1''"] by (simp add: parse_ping_frame)

text \<open>
  The one exception to that: a header line of exactly 20 bytes is accepted when its
  terminator arrives whole, but is refused as too long, fatally, when the input happens to
  end between the carriage return and the line feed.
\<close>

theorem parse_command_split_header:
  "let header = CHR ''*'' # replicate 19 CHR ''0'' @ ''1'' @ [cr];
       rest = lf # ''$4'' @ crlf @ ''PING'' @ crlf
   in parse_command header = ParseError (malformed ''array length header too long'') \<and>
      parse_command (header @ rest) =
        ParsedCommand \<lparr>cmd_type = kPing, cmd_key = [], cmd_value = [], cmd_seconds = 0\<rparr> 33"
  by code_simp

text \<open>
  C25. Every command the parser hands on is validated: its key and value respect the size
  limits, its seconds are a nonnegative 64-bit integer, and the fields its type does not
  use have their default values.
\<close>

theorem parse_command_valid:
  "parse_command input = ParsedCommand c n \<Longrightarrow> valid_command c"
  by (auto simp: parse_command_def dest: build_command_Inr(1) split: FrameResult.splits sum.splits)

theorem parse_command_valid_witness:
  "parse_command ping_frame =
     ParsedCommand \<lparr>cmd_type = kPing, cmd_key = [], cmd_value = [], cmd_seconds = 0\<rparr> 14 \<and>
   valid_command \<lparr>cmd_type = kPing, cmd_key = [], cmd_value = [], cmd_seconds = 0\<rparr>"
  using parse_command_valid [OF parse_ping_frame] parse_ping_frame by simp

text \<open>
  C26. The length headers and the seconds of EXPIRE are read by the grammar the protocol
  document gives: a nonempty string of decimal digits whose value fits a signed 64-bit
  integer, and nothing else; the overflow test of the loop is exact.
\<close>

theorem parse_nonnegative_integer_grammar:
  "parse_nonnegative_integer s =
     (if s \<noteq> [] \<and> list_all is_digit s \<and> dec_value s \<le> int64_max then Some (dec_value s) else None)"
  by (simp add: parse_nonnegative_integer_eq list_all_iff)

end
