(* ===== verification/Resp_Serializer.thy ===== *)
theory Resp_Serializer
  imports Resp_Parser
begin

section \<open>RESP2 encoders and their round trips\<close>

text \<open>
  Models \<^verbatim>\<open>src/src/protocol/serializer.cpp\<close>, the reply encoders, and \<^verbatim>\<open>encode_command\<close> of the
  benchmark client \<^verbatim>\<open>src/benchmarks/client/kv_bench.cpp\<close>, the encoder of requests.
  The requests are read back by the parser of \<^verbatim>\<open>Resp_Parser\<close>; the replies by
  \<open>decode_reply\<close>, a reader of the five reply types of \<^verbatim>\<open>docs/PROTOCOL.md\<close> that stands for
  any client.
\<close>

subsection \<open>Reply encoders\<close>

definition encode_simple_string :: "string \<Rightarrow> string" where
  "encode_simple_string value = CHR ''+'' # value @ crlf"

definition encode_error :: "string \<Rightarrow> string" where
  "encode_error message = CHR ''-'' # message @ crlf"

definition encode_integer :: "int \<Rightarrow> string" where
  "encode_integer value = '':'' @ int_to_string value @ crlf"

definition encode_bulk_string :: "string \<Rightarrow> string" where
  "encode_bulk_string value = CHR ''$'' # nat_to_string (length value) @ crlf @ value @ crlf"

definition encode_null_bulk_string :: string where
  "encode_null_bulk_string = ''$-1'' @ crlf"

subsection \<open>Request encoder\<close>

fun encode_parts :: "string list \<Rightarrow> string \<Rightarrow> string" where
  "encode_parts [] out = out"
| "encode_parts (part # parts) out =
     encode_parts parts (((out @ ''$'' @ nat_to_string (length part) @ crlf) @ part) @ crlf)"

definition encode_command :: "string list \<Rightarrow> string" where
  "encode_command parts = encode_parts parts (''*'' @ nat_to_string (length parts) @ crlf)"

subsection \<open>The client's view of a reply\<close>

datatype Reply =
    SimpleReply string
  | ErrorReply string
  | IntegerReply int
  | BulkReply string
  | NullReply

definition decode_int :: "string \<Rightarrow> int option" where
  "decode_int line = (case line of
      [] \<Rightarrow> None
    | c # ds \<Rightarrow>
        if c = CHR ''-'' then if ds \<noteq> [] \<and> list_all is_digit ds then Some (- dec_value ds) else None
        else if list_all is_digit line then Some (dec_value line) else None)"

definition decode_bulk :: "int \<Rightarrow> string \<Rightarrow> (Reply \<times> string) option" where
  "decode_bulk n rest =
     (if n = - 1 then Some (NullReply, rest)
      else if n < 0 \<or> length rest < nat n + 2 \<or> take 2 (drop (nat n) rest) \<noteq> crlf then None
      else Some (BulkReply (take (nat n) rest), drop (nat n + 2) rest))"

definition decode_reply :: "string \<Rightarrow> (Reply \<times> string) option" where
  "decode_reply s = (case s of
      [] \<Rightarrow> None
    | t # body \<Rightarrow>
      (case find_crlf body of
         None \<Rightarrow> None
       | Some p \<Rightarrow>
         let line = take p body; rest = drop (p + 2) body in
         if t = CHR ''+'' then Some (SimpleReply line, rest)
         else if t = CHR ''-'' then Some (ErrorReply line, rest)
         else if t = CHR '':'' then map_option (\<lambda>i. (IntegerReply i, rest)) (decode_int line)
         else if t = CHR ''$'' then Option.bind (decode_int line) (\<lambda>n. decode_bulk n rest)
         else None))"

fun encode_reply :: "Reply \<Rightarrow> string" where
  "encode_reply (SimpleReply s) = encode_simple_string s"
| "encode_reply (ErrorReply s) = encode_error s"
| "encode_reply (IntegerReply i) = encode_integer i"
| "encode_reply (BulkReply s) = encode_bulk_string s"
| "encode_reply NullReply = encode_null_bulk_string"

text \<open>What the caller of the line encoders owes them, by \<^verbatim>\<open>serializer.hpp\<close>: no line terminator.\<close>

fun line_safe :: "Reply \<Rightarrow> bool" where
  "line_safe (SimpleReply s) = (cr \<notin> set s)"
| "line_safe (ErrorReply s) = (cr \<notin> set s)"
| "line_safe r = True"

lemma decode_int_nat [simp]: "decode_int (nat_to_string n) = Some (int n)"
proof -
  have "list_all is_digit (nat_to_string n)"
    by (simp add: list_all_iff nat_to_string_digits)
  moreover have "hd (nat_to_string n) \<noteq> CHR ''-''"
    using nat_to_string_digits [of "hd (nat_to_string n)" n] by (auto simp: is_digit_def)
  ultimately show ?thesis
    by (simp add: decode_int_def dec_value_nat_to_string split: list.split)
       (metis list.sel(1) dec_value_nat_to_string)
qed

lemma decode_int_to_string [simp]: "decode_int (int_to_string i) = Some i"
proof (cases "i < 0")
  case True
  have "list_all is_digit (nat_to_string (nat (- i)))"
    by (simp add: list_all_iff nat_to_string_digits)
  with True show ?thesis
    by (simp add: int_to_string_def decode_int_def dec_value_nat_to_string)
qed (simp add: int_to_string_def)

lemma int_to_string_no_cr [simp]: "cr \<notin> set (int_to_string i)"
  by (simp add: int_to_string_def)

lemma decode_line:
  assumes "cr \<notin> set line"
  shows "decode_reply (t # line @ crlf @ rest) =
    (if t = CHR ''+'' then Some (SimpleReply line, rest)
     else if t = CHR ''-'' then Some (ErrorReply line, rest)
     else if t = CHR '':'' then map_option (\<lambda>i. (IntegerReply i, rest)) (decode_int line)
     else if t = CHR ''$'' then Option.bind (decode_int line) (\<lambda>n. decode_bulk n rest)
     else None)"
  using find_crlf_line [OF assms, of rest] by (simp add: decode_reply_def)



subsection \<open>Requests\<close>

lemma encode_parts_eq: "encode_parts parts out = out @ concat (map encode_bulk_string parts)"
  by (induction parts arbitrary: out) (simp_all add: encode_bulk_string_def)

lemma encode_command_eq:
  "encode_command parts =
     CHR ''*'' # nat_to_string (length parts) @ crlf @ concat (map encode_bulk_string parts)"
  by (simp add: encode_command_def encode_parts_eq)

lemma bulk_header_length:
  "length b \<le> kMaxBulkStringLength \<Longrightarrow> length (nat_to_string (length b)) \<le> 7"
  by (rule length_nat_to_string) (simp_all add: kv_consts)

lemma read_bulk_string_encoded:
  assumes "length b \<le> kMaxBulkStringLength"
  shows "read_bulk_string (pre @ encode_bulk_string b @ rest) (length pre) =
     Inr (b, length pre + length (encode_bulk_string b))"
proof -
  let ?d = "nat_to_string (length b)"
  have line: "read_line (?d @ crlf @ b @ crlf @ rest) kMaxHeaderLineLength =
      \<lparr>lr_status = kFound, lr_content = ?d, lr_consumed = length ?d + 2\<rparr>"
    using bulk_header_length [OF assms] by (intro read_line_line) (simp_all add: kv_consts)
  have "parse_nonnegative_integer ?d = Some (int (length b))"
    using assms by (intro parse_nonnegative_integer_to_string) (simp add: kv_consts)
  with assms show ?thesis
    unfolding read_bulk_string_Inr
    by (intro exI [of _ "\<lparr>lr_status = kFound, lr_content = ?d, lr_consumed = length ?d + 2\<rparr>"]
        exI [of _ "length b"])
      (use line in \<open>simp add: encode_bulk_string_def nth_append numeral_3_eq_3\<close>)
qed

lemma read_bulk_string_prefix:
  assumes "length b \<le> kMaxBulkStringLength" and "n < length (encode_bulk_string b)"
  shows "read_bulk_string (pre @ take n (encode_bulk_string b)) (length pre) =
     Inl FrameNeedMoreData"
proof (cases n)
  case 0
  then show ?thesis by (simp add: read_bulk_string_def)
next
  case (Suc m)
  let ?d = "nat_to_string (length b)"
  have d: "length ?d < 20" using bulk_header_length [OF assms(1)] by simp
  have take_n: "take n (encode_bulk_string b) = CHR ''$'' # take m (?d @ crlf @ b @ crlf)"
    by (simp add: Suc encode_bulk_string_def)
  show ?thesis
  proof (cases "m < length ?d + 2")
    case True
    then have "take m (?d @ crlf @ b @ crlf) = take m (?d @ [cr])"
      by (cases "m \<le> length ?d") (auto simp: take_Cons' not_le)
    with read_line_prefix [of ?d 20 m] d show ?thesis
      by (simp add: read_bulk_string_def take_n kMaxHeaderLineLength_def Let_def)
  next
    case False
    have "take m (?d @ crlf @ b @ crlf) = ?d @ crlf @ take (m - (length ?d + 2)) (b @ crlf)"
      using False by (simp add: take_Cons' not_less)
    moreover have "length (take (m - (length ?d + 2)) (b @ crlf)) < length b + 2"
      using assms(2) Suc by (simp add: encode_bulk_string_def)
    ultimately obtain r where r: "take m (?d @ crlf @ b @ crlf) = ?d @ crlf @ r"
      "length r < length b + 2" by blast
    have "read_line (?d @ crlf @ r) 20 =
      \<lparr>lr_status = kFound, lr_content = ?d, lr_consumed = length ?d + 2\<rparr>"
      using d by (intro read_line_line) simp_all
    moreover have "parse_nonnegative_integer ?d = Some (int (length b))"
      using assms(1) by (intro parse_nonnegative_integer_to_string) (simp add: kv_consts)
    ultimately show ?thesis
      using assms(1) r
      by (simp add: read_bulk_string_def take_n kMaxHeaderLineLength_def Let_def)
  qed
qed

lemma read_bulk_strings_encoded:
  assumes "\<forall>b\<in>set bodies. length b \<le> kMaxBulkStringLength"
  shows "read_bulk_strings (pre @ concat (map encode_bulk_string bodies) @ rest)
      (length bodies) (length pre) args =
    FrameArgs (args @ bodies) (length (pre @ concat (map encode_bulk_string bodies)))"
  using assms
proof (induction bodies arbitrary: pre args)
  case (Cons b bodies)
  then have "read_bulk_string (pre @ encode_bulk_string b @ concat (map encode_bulk_string bodies) @ rest)
      (length pre) = Inr (b, length (pre @ encode_bulk_string b))"
    by (simp add: read_bulk_string_encoded)
  with Cons.IH [of "pre @ encode_bulk_string b" "args @ [b]"] Cons.prems show ?case by simp
qed simp

lemma read_bulk_strings_prefix:
  assumes "\<forall>b\<in>set bodies. length b \<le> kMaxBulkStringLength"
    and "n < length (concat (map encode_bulk_string bodies))"
  shows "read_bulk_strings (pre @ take n (concat (map encode_bulk_string bodies)))
      (length bodies) (length pre) args = FrameNeedMoreData"
  using assms
proof (induction bodies arbitrary: pre args n)
  case (Cons b bodies)
  let ?e = "encode_bulk_string b"
  show ?case
  proof (cases "n < length ?e")
    case True
    with read_bulk_string_prefix [of b n pre] Cons.prems show ?thesis by simp
  next
    case False
    let ?rest = "take (n - length ?e) (concat (map encode_bulk_string bodies))"
    have "pre @ take n (concat (map encode_bulk_string (b # bodies))) = (pre @ ?e) @ ?rest"
      using False by simp
    moreover have "read_bulk_string ((pre @ ?e) @ ?rest) (length pre) = Inr (b, length (pre @ ?e))"
      using Cons.prems read_bulk_string_encoded [of b pre ?rest] by simp
    moreover have "read_bulk_strings ((pre @ ?e) @ ?rest) (length bodies) (length (pre @ ?e)) (args @ [b]) =
        FrameNeedMoreData"
      using False Cons.prems by (intro Cons.IH) auto
    ultimately show ?thesis by simp
  qed
qed simp

lemma array_header_length: "n \<le> 3 \<Longrightarrow> length (nat_to_string n) = 1"
  by (simp add: nat_to_string.simps [of n])

lemma read_multibulk_frame_header:
  assumes "n \<le> 3"
  shows "read_multibulk_frame (CHR ''*'' # nat_to_string n @ crlf @ rest) =
     read_bulk_strings (CHR ''*'' # nat_to_string n @ crlf @ rest) n
       (length (CHR ''*'' # nat_to_string n @ crlf)) []"
proof -
  let ?d = "nat_to_string n"
  have "read_line (?d @ crlf @ rest) kMaxHeaderLineLength =
      \<lparr>lr_status = kFound, lr_content = ?d, lr_consumed = length ?d + 2\<rparr>"
    using array_header_length [OF assms] by (intro read_line_line) (simp_all add: kv_consts)
  moreover have "parse_nonnegative_integer ?d = Some (int n)"
    using assms by (intro parse_nonnegative_integer_to_string) (simp add: kv_consts)
  ultimately show ?thesis
    using assms by (simp add: read_multibulk_frame_def kMaxArrayElements_def)
qed

lemma read_multibulk_frame_encoded:
  assumes "length parts \<le> 3" and "\<forall>b\<in>set parts. length b \<le> kMaxBulkStringLength"
  shows "read_multibulk_frame (encode_command parts @ rest) =
     FrameArgs parts (length (encode_command parts))"
proof -
  let ?pre = "CHR ''*'' # nat_to_string (length parts) @ crlf"
  have "encode_command parts @ rest = ?pre @ concat (map encode_bulk_string parts) @ rest"
    by (simp add: encode_command_eq)
  with read_multibulk_frame_header [OF assms(1)] read_bulk_strings_encoded [OF assms(2), of ?pre rest "[]"]
  show ?thesis by (simp add: encode_command_eq)
qed

text \<open>
  A request a client encodes is framed as sent, whatever it is followed by, and every
  strict prefix of it, at every split point, is answered with "need more data": for every
  request of at most three fields, each within the field size limit.
\<close>

theorem encode_command_framed:
  assumes "length parts \<le> 3" and "\<forall>b\<in>set parts. length b \<le> kMaxBulkStringLength"
  shows "read_multibulk_frame (encode_command parts @ rest) =
      FrameArgs parts (length (encode_command parts)) \<and>
    (\<forall>n < length (encode_command parts).
      parse_command (take n (encode_command parts)) = NeedMoreData)"
proof (intro conjI allI impI)
  show "read_multibulk_frame (encode_command parts @ rest) =
      FrameArgs parts (length (encode_command parts))"
    by (rule read_multibulk_frame_encoded [OF assms])
next
  fix n
  assume n: "n < length (encode_command parts)"
  let ?d = "nat_to_string (length parts)"
  let ?pre = "CHR ''*'' # ?d @ crlf"
  let ?bulks = "concat (map encode_bulk_string parts)"
  have d: "length ?d = 1" using assms(1) by (rule array_header_length)
  have enc: "encode_command parts = ?pre @ ?bulks" by (simp add: encode_command_eq)
  have "read_multibulk_frame (take n (encode_command parts)) = FrameNeedMoreData"
  proof (cases "n < length ?pre")
    case True
    show ?thesis
    proof (cases n)
      case 0
      then show ?thesis by (simp add: read_multibulk_frame_def)
    next
      case (Suc m)
      with True have "take n (encode_command parts) = CHR ''*'' # take m (?d @ [cr])"
        unfolding enc by (cases "m \<le> length ?d") (auto simp: take_Cons')
      with read_line_prefix [of ?d 20 m] d show ?thesis
        by (simp add: read_multibulk_frame_def kMaxHeaderLineLength_def)
    qed
  next
    case False
    let ?more = "take (n - length ?pre) ?bulks"
    have split: "take n (encode_command parts) = ?pre @ ?more"
      unfolding enc using False by (simp only: take_append take_all not_less)
    have "read_bulk_strings (?pre @ ?more) (length parts) (length ?pre) [] = FrameNeedMoreData"
      using False n enc by (intro read_bulk_strings_prefix [OF assms(2)]) simp
    with read_multibulk_frame_header [OF assms(1), of ?more] show ?thesis
      unfolding split by simp
  qed
  then show "parse_command (take n (encode_command parts)) = NeedMoreData"
    by (simp add: parse_command_def)
qed

theorem encode_command_framed_witness:
  "length [''GET'', ''name''] \<le> 3 \<and>
   list_all (\<lambda>b. length b \<le> kMaxBulkStringLength) [''GET'', ''name''] \<and>
   read_multibulk_frame (encode_command [''GET'', ''name''] @ ''*1'') =
     FrameArgs [''GET'', ''name''] (length (encode_command [''GET'', ''name''])) \<and>
   7 < length (encode_command [''GET'', ''name'']) \<and>
   parse_command (take 7 (encode_command [''GET'', ''name''])) = NeedMoreData"
proof -
  have h: "length [''GET'', ''name''] \<le> 3"
    "\<forall>b\<in>set [''GET'', ''name'']. length b \<le> kMaxBulkStringLength"
    by (simp_all add: kv_consts)
  have n: "7 < length (encode_command [''GET'', ''name''])" by code_simp
  show ?thesis using encode_command_framed [OF h, of "''*1''"] h n
    by (simp only: list_all_iff simp_thms)
qed

text \<open>The request for a command, as a client writes it.\<close>

fun command_args :: "Command \<Rightarrow> string list" where
  "command_args c = (case cmd_type c of
      kPing \<Rightarrow> [''PING'']
    | kSet \<Rightarrow> [''SET'', cmd_key c, cmd_value c]
    | kGet \<Rightarrow> [''GET'', cmd_key c]
    | kDel \<Rightarrow> [''DEL'', cmd_key c]
    | kExists \<Rightarrow> [''EXISTS'', cmd_key c]
    | kExpire \<Rightarrow> [''EXPIRE'', cmd_key c, nat_to_string (nat (cmd_seconds c))]
    | kTtl \<Rightarrow> [''TTL'', cmd_key c])"

lemma to_upper_names [simp]:
  "to_upper_ascii ''PING'' = ''PING''" "to_upper_ascii ''SET'' = ''SET''"
  "to_upper_ascii ''GET'' = ''GET''" "to_upper_ascii ''DEL'' = ''DEL''"
  "to_upper_ascii ''EXISTS'' = ''EXISTS''" "to_upper_ascii ''EXPIRE'' = ''EXPIRE''"
  "to_upper_ascii ''TTL'' = ''TTL''"
  by code_simp+

lemma build_command_args: "valid_command c \<Longrightarrow> build_command (command_args c) = Inr c"
  by (cases c; cases "cmd_type c")
    (auto simp: build_command_def valid_command_def check_key_length_def
      parse_nonnegative_integer_to_string)

lemma parse_encoded_command:
  assumes "valid_command c"
  shows "parse_command (encode_command (command_args c) @ rest) =
    ParsedCommand c (length (encode_command (command_args c)))"
proof -
  have "nat (cmd_seconds c) < 10 ^ 19"
    using assms unfolding valid_command_def int64_max_def by (simp add: nat_less_iff)
  then have "length (nat_to_string (nat (cmd_seconds c))) \<le> 19"
    by (rule length_nat_to_string) simp
  with assms have "length (command_args c) \<le> 3"
    "\<forall>b\<in>set (command_args c). length b \<le> kMaxBulkStringLength"
    by (auto simp: valid_command_def kv_consts split: CommandType.splits)
  from read_multibulk_frame_encoded [OF this] build_command_args [OF assms]
  show ?thesis by (simp add: parse_command_def)
qed

text \<open>
  C21. Printing and parsing a command are inverse: the request for any validated command,
  followed by anything, parses to that command and consumes exactly the request, for all
  seven command types.
\<close>

theorem command_roundtrip:
  assumes "valid_command c"
  shows "parse_command (encode_command (command_args c) @ rest) =
    ParsedCommand c (length (encode_command (command_args c)))"
  using assms by (rule parse_encoded_command)

theorem command_roundtrip_witness:
  "valid_command \<lparr>cmd_type = kExpire, cmd_key = ''k'', cmd_value = [], cmd_seconds = 10\<rparr> \<and>
   parse_command (encode_command
       (command_args \<lparr>cmd_type = kExpire, cmd_key = ''k'', cmd_value = [], cmd_seconds = 10\<rparr>) @ ''*'') =
     ParsedCommand \<lparr>cmd_type = kExpire, cmd_key = ''k'', cmd_value = [], cmd_seconds = 10\<rparr>
       (length (encode_command
         (command_args \<lparr>cmd_type = kExpire, cmd_key = ''k'', cmd_value = [], cmd_seconds = 10\<rparr>)))"
proof -
  have h: "valid_command \<lparr>cmd_type = kExpire, cmd_key = ''k'', cmd_value = [], cmd_seconds = 10\<rparr>"
    by code_simp
  show ?thesis using command_roundtrip [OF h, of "''*''"] h by blast
qed


end
