(* ===== verification/Expiration_Queue.thy ===== *)
theory Expiration_Queue
  imports KV_Prelude
begin

section \<open>The priority queue of expiration candidates\<close>

text \<open>
  The sources use \<^verbatim>\<open>std::priority_queue\<close> with the comparator \<^verbatim>\<open>ExpirationCandidateOrder\<close>
  (\<^verbatim>\<open>src/src/storage/shard.hpp\<close>): a queue whose \<^verbatim>\<open>top\<close> has the least deadline. The order
  of candidates with equal deadlines is not specified by the library, and nothing here
  depends on it: the store's proofs use the laws of the locale \<open>min_queue\<close> only. The model
  that is evaluated is a list sorted by deadline, shown to satisfy these laws.
\<close>

subsection \<open>The interface\<close>

locale min_queue =
  fixes push :: "'a \<Rightarrow> 'q \<Rightarrow> 'q"
    and top :: "'q \<Rightarrow> 'a"
    and pop :: "'q \<Rightarrow> 'q"
    and is_empty :: "'q \<Rightarrow> bool"
    and prio :: "'a \<Rightarrow> int"
    and elems :: "'q \<Rightarrow> 'a multiset"
    and invar :: "'q \<Rightarrow> bool"
  assumes elems_push: "invar q \<Longrightarrow> elems (push x q) = add_mset x (elems q)"
    and invar_push: "invar q \<Longrightarrow> invar (push x q)"
    and is_empty_iff: "invar q \<Longrightarrow> is_empty q \<longleftrightarrow> elems q = {#}"
    and top_in: "invar q \<Longrightarrow> \<not> is_empty q \<Longrightarrow> top q \<in># elems q"
    and top_least: "invar q \<Longrightarrow> x \<in># elems q \<Longrightarrow> prio (top q) \<le> prio x"
    and elems_pop: "invar q \<Longrightarrow> \<not> is_empty q \<Longrightarrow> elems (pop q) = elems q - {#top q#}"
    and invar_pop: "invar q \<Longrightarrow> \<not> is_empty q \<Longrightarrow> invar (pop q)"
begin

text \<open>If the top is not due, nothing is: the early exit of the sweep loses no candidate.\<close>

lemma none_due:
  assumes "invar q" and "t < prio (top q)" and "x \<in># elems q"
  shows "t < prio x"
  using assms top_least by fastforce

lemma size_pop:
  assumes "invar q" and "\<not> is_empty q"
  shows "size (elems q) = Suc (size (elems (pop q)))"
  using assms top_in elems_pop by (metis insert_DiffM size_add_mset)

lemma elems_top_pop:
  assumes "invar q" and "\<not> is_empty q"
  shows "elems q = add_mset (top q) (elems (pop q))"
  using assms top_in elems_pop by (metis insert_DiffM)

end

subsection \<open>Candidates, and the queue as a sorted list\<close>

record ExpirationCandidate =
  ec_deadline :: int
  ec_generation :: u64
  ec_key :: string

text \<open>\<^verbatim>\<open>ExpirationCandidateOrder::operator()\<close>: \<open>a\<close> comes out after \<open>b\<close>.\<close>

definition candidate_order :: "ExpirationCandidate \<Rightarrow> ExpirationCandidate \<Rightarrow> bool" where
  "candidate_order a b \<longleftrightarrow> ec_deadline a > ec_deadline b"

fun pq_push :: "ExpirationCandidate \<Rightarrow> ExpirationCandidate list \<Rightarrow> ExpirationCandidate list" where
  "pq_push c [] = [c]"
| "pq_push c (x # q) = (if candidate_order x c then c # x # q else x # pq_push c q)"

definition pq_top :: "ExpirationCandidate list \<Rightarrow> ExpirationCandidate" where
  "pq_top q = hd q"

definition pq_pop :: "ExpirationCandidate list \<Rightarrow> ExpirationCandidate list" where
  "pq_pop q = tl q"

definition pq_empty :: "ExpirationCandidate list \<Rightarrow> bool" where
  "pq_empty q \<longleftrightarrow> q = []"

definition pq_sorted :: "ExpirationCandidate list \<Rightarrow> bool" where
  "pq_sorted q \<longleftrightarrow> sorted (map ec_deadline q)"

lemma mset_pq_push: "mset (pq_push c q) = add_mset c (mset q)"
  by (induction q) auto

lemma set_pq_push: "set (pq_push c q) = insert c (set q)"
  using mset_pq_push [of c q] by (metis set_mset_add_mset_insert set_mset_mset)

lemma pq_sorted_push: "pq_sorted q \<Longrightarrow> pq_sorted (pq_push c q)"
  by (induction q) (auto simp: pq_sorted_def set_pq_push candidate_order_def)

interpretation pq: min_queue pq_push pq_top pq_pop pq_empty ec_deadline mset pq_sorted
proof unfold_locales
  fix q :: "ExpirationCandidate list" and x
  assume "pq_sorted q" "x \<in># mset q"
  then show "ec_deadline (pq_top q) \<le> ec_deadline x"
    by (cases q) (auto simp: pq_sorted_def pq_top_def)
next
  fix q :: "ExpirationCandidate list"
  assume "pq_sorted q" "\<not> pq_empty q"
  then show "mset (pq_pop q) = mset q - {#pq_top q#}" "pq_sorted (pq_pop q)"
    "pq_top q \<in># mset q"
    by (cases q; auto simp: pq_sorted_def pq_top_def pq_pop_def pq_empty_def)+
qed (simp_all add: mset_pq_push pq_sorted_push pq_empty_def)

end
