(* ===== verification/Store.thy ===== *)
theory Store
  imports Expiration_Queue
begin

unbundle bit_operations_syntax

section \<open>The sharded store\<close>

text \<open>
  Models \<^verbatim>\<open>src/src/storage/shard.hpp\<close> and \<^verbatim>\<open>store.cpp\<close> with their headers. A shard is a record of what its mutex guards; the body of each critical section
  is a function on it. The clock is injected in the source, so every operation that reads
  it takes the reading, \<open>now\<close>, in nanoseconds of the steady clock. \<^verbatim>\<open>std::hash\<close> is the
  parameter \<open>hash\<close>. The operations here run one at a time; \<^verbatim>\<open>Store_Concurrency\<close> interleaves
  the critical sections of several threads.
\<close>

subsection \<open>Entries and shards\<close>

record Entry =
  en_value :: string
  en_deadline :: "int option"
  en_generation :: u64

definition is_expired :: "Entry \<Rightarrow> int \<Rightarrow> bool" where
  "is_expired entry now = (case en_deadline entry of None \<Rightarrow> False | Some d \<Rightarrow> d \<le> now)"

record Shard =
  sh_entries :: "string \<rightharpoonup> Entry"
  sh_next_generation :: u64
  sh_heap :: "ExpirationCandidate list"

definition empty_shard :: Shard where
  "empty_shard = \<lparr>sh_entries = Map.empty, sh_next_generation = 0, sh_heap = []\<rparr>"

subsection \<open>Critical sections on one shard\<close>

definition shard_set :: "Shard \<Rightarrow> string \<Rightarrow> string \<Rightarrow> Shard" where
  "shard_set sh key value =
     (let g = sh_next_generation sh + 1 in
      sh\<lparr>sh_entries := (sh_entries sh)
           (key \<mapsto> \<lparr>en_value = value, en_deadline = None, en_generation = g\<rparr>),
         sh_next_generation := g\<rparr>)"

text \<open>
  \<^verbatim>\<open>read_live\<close>: the section under the shared lock decides between a live entry, a missing
  one, and an expired one; only the last goes on to the section under the exclusive lock,
  which looks the key up again before it erases.
\<close>

datatype SharedRead = LiveEntry Entry | MissingEntry | ExpiredEntry

definition read_live_shared :: "Shard \<Rightarrow> int \<Rightarrow> string \<Rightarrow> SharedRead" where
  "read_live_shared sh now key =
     (case sh_entries sh key of
        None \<Rightarrow> MissingEntry
      | Some e \<Rightarrow> if \<not> is_expired e now then LiveEntry e else ExpiredEntry)"

definition read_live_exclusive :: "Shard \<Rightarrow> int \<Rightarrow> string \<Rightarrow> Shard" where
  "read_live_exclusive sh now key =
     (case sh_entries sh key of
        None \<Rightarrow> sh
      | Some e \<Rightarrow>
          if is_expired e now then sh\<lparr>sh_entries := (sh_entries sh)(key := None)\<rparr> else sh)"

text \<open>The entry passed to \<^verbatim>\<open>on_live\<close>, or \<^const>\<open>None\<close> when \<^verbatim>\<open>on_missing\<close> is called.\<close>

definition read_live :: "Shard \<Rightarrow> int \<Rightarrow> string \<Rightarrow> Entry option \<times> Shard" where
  "read_live sh now key =
     (case read_live_shared sh now key of
        LiveEntry e \<Rightarrow> (Some e, sh)
      | MissingEntry \<Rightarrow> (None, sh)
      | ExpiredEntry \<Rightarrow> (None, read_live_exclusive sh now key))"

definition shard_del :: "Shard \<Rightarrow> int \<Rightarrow> string \<Rightarrow> bool \<times> Shard" where
  "shard_del sh now key =
     (case sh_entries sh key of
        None \<Rightarrow> (False, sh)
      | Some e \<Rightarrow> (\<not> is_expired e now, sh\<lparr>sh_entries := (sh_entries sh)(key := None)\<rparr>))"

text \<open>
  \<^verbatim>\<open>now + ttl_seconds\<close> in 64-bit nanoseconds: the conversion of the seconds and the addition
  are both signed, so both are undefined outside the range.
\<close>

definition ns_per_s :: int where [kv_consts]:
  "ns_per_s = 1000000000"

definition deadline_after :: "int \<Rightarrow> int \<Rightarrow> ub + int" where
  "deadline_after now ttl_seconds =
     (case checked_int64 (ttl_seconds * ns_per_s) of
        Inl u \<Rightarrow> Inl u
      | Inr ns \<Rightarrow> checked_int64 (now + ns))"

definition shard_expire :: "Shard \<Rightarrow> int \<Rightarrow> string \<Rightarrow> int \<Rightarrow> ub + bool \<times> Shard" where
  "shard_expire sh now key ttl_seconds =
     (case sh_entries sh key of
        None \<Rightarrow> Inr (False, sh)
      | Some e \<Rightarrow>
          if is_expired e now
          then Inr (False, sh\<lparr>sh_entries := (sh_entries sh)(key := None)\<rparr>)
          else (case deadline_after now ttl_seconds of
              Inl u \<Rightarrow> Inl u
            | Inr deadline \<Rightarrow>
                let g = sh_next_generation sh + 1 in
                Inr (True,
                  sh\<lparr>sh_entries := (sh_entries sh)
                       (key \<mapsto> e\<lparr>en_deadline := Some deadline, en_generation := g\<rparr>),
                     sh_next_generation := g,
                     sh_heap := pq_push
                       \<lparr>ec_deadline = deadline, ec_generation = g, ec_key = key\<rparr> (sh_heap sh)\<rparr>)))"

text \<open>
  The sweep of one shard, with \<open>max_items_per_shard - processed\<close> rounds left. A candidate is
  acted on only if it matches the entry's generation and deadline.
\<close>

definition candidate_matches :: "Shard \<Rightarrow> ExpirationCandidate \<Rightarrow> bool" where
  "candidate_matches sh c =
     (case sh_entries sh (ec_key c) of
        None \<Rightarrow> False
      | Some e \<Rightarrow> en_generation e = ec_generation c \<and> en_deadline e = Some (ec_deadline c))"

fun sweep_shard :: "nat \<Rightarrow> int \<Rightarrow> Shard \<Rightarrow> nat \<Rightarrow> Shard \<times> nat" where
  "sweep_shard 0 now sh removed = (sh, removed)"
| "sweep_shard (Suc budget) now sh removed =
     (if pq_empty (sh_heap sh) then (sh, removed)
      else let candidate = pq_top (sh_heap sh) in
        if ec_deadline candidate > now then (sh, removed)
        else if candidate_matches sh candidate
        then sweep_shard budget now
               (sh\<lparr>sh_entries := (sh_entries sh)(ec_key candidate := None),
                   sh_heap := pq_pop (sh_heap sh)\<rparr>) (Suc removed)
        else sweep_shard budget now (sh\<lparr>sh_heap := pq_pop (sh_heap sh)\<rparr>) removed)"

subsection \<open>The store\<close>

text \<open>
  \<^verbatim>\<open>std::bit_ceil\<close>: the least power of two not below the argument; undefined when it does
  not fit the type. \<open>pow2_from p n\<close> doubles \<open>p\<close> until it reaches \<open>n\<close>.
\<close>

function pow2_from :: "nat \<Rightarrow> nat \<Rightarrow> nat" where
  "pow2_from p n = (if p = 0 \<or> n \<le> p then p else pow2_from (2 * p) n)"
  by pat_completeness auto
termination
  by (relation "measure (\<lambda>(p, n). n - p)") auto

declare pow2_from.simps [simp del]

definition bit_ceil :: "u64 \<Rightarrow> fault + u64" where
  "bit_ceil x =
     (if unat x > 2 ^ 63 then Inl (UB Bit_ceil_unrepresentable)
      else Inr (word_of_nat (pow2_from 1 (unat x))))"

definition normalize_shard_count :: "u64 \<Rightarrow> fault + u64" where
  "normalize_shard_count requested =
     (if requested = 0
      then Inl (Exn (Invalid_argument ''Store: shard_count must be greater than zero''))
      else bit_ceil requested)"

record Store =
  st_shard_count :: u64
  st_shards :: "Shard list"
  st_active_expirations :: u64

definition make_store :: "u64 \<Rightarrow> fault + Store" where
  "make_store shard_count =
     (case normalize_shard_count shard_count of
        Inl f \<Rightarrow> Inl f
      | Inr n \<Rightarrow> Inr \<lparr>st_shard_count = n, st_shards = replicate (unat n) empty_shard,
                     st_active_expirations = 0\<rparr>)"

definition shard_index :: "(string \<Rightarrow> u64) \<Rightarrow> Store \<Rightarrow> string \<Rightarrow> nat" where
  "shard_index hash st key = unat (hash key AND (st_shard_count st - 1))"

definition shard_for :: "(string \<Rightarrow> u64) \<Rightarrow> Store \<Rightarrow> string \<Rightarrow> Shard" where
  "shard_for hash st key = st_shards st ! shard_index hash st key"

definition put_shard :: "(string \<Rightarrow> u64) \<Rightarrow> Store \<Rightarrow> string \<Rightarrow> Shard \<Rightarrow> Store" where
  "put_shard hash st key sh = st\<lparr>st_shards := (st_shards st)[shard_index hash st key := sh]\<rparr>"

definition store_set :: "(string \<Rightarrow> u64) \<Rightarrow> Store \<Rightarrow> string \<Rightarrow> string \<Rightarrow> Store" where
  "store_set hash st key value =
     put_shard hash st key (shard_set (shard_for hash st key) key value)"

definition store_get :: "(string \<Rightarrow> u64) \<Rightarrow> Store \<Rightarrow> int \<Rightarrow> string \<Rightarrow> string option \<times> Store" where
  "store_get hash st now key =
     (case read_live (shard_for hash st key) now key of
        (live, sh) \<Rightarrow> (map_option en_value live, put_shard hash st key sh))"

definition store_exists :: "(string \<Rightarrow> u64) \<Rightarrow> Store \<Rightarrow> int \<Rightarrow> string \<Rightarrow> bool \<times> Store" where
  "store_exists hash st now key =
     (case read_live (shard_for hash st key) now key of
        (live, sh) \<Rightarrow> (live \<noteq> None, put_shard hash st key sh))"

datatype TtlStatus = kMissing | kNoTtl | kHasTtl

record TtlResult =
  tr_status :: TtlStatus
  tr_remaining :: "int option"

text \<open>\<^verbatim>\<open>duration_cast<seconds>(deadline - now)\<close>: a signed subtraction, then a truncating division.\<close>

definition ttl_of :: "Entry option \<Rightarrow> int \<Rightarrow> ub + TtlResult" where
  "ttl_of live now =
     (case live of
        None \<Rightarrow> Inr \<lparr>tr_status = kMissing, tr_remaining = None\<rparr>
      | Some e \<Rightarrow>
          (case en_deadline e of
             None \<Rightarrow> Inr \<lparr>tr_status = kNoTtl, tr_remaining = None\<rparr>
           | Some d \<Rightarrow>
               (case checked_int64 (d - now) of
                  Inl u \<Rightarrow> Inl u
                | Inr ns \<Rightarrow>
                    Inr \<lparr>tr_status = kHasTtl, tr_remaining = Some (cpp_quot ns ns_per_s)\<rparr>)))"

definition store_ttl :: "(string \<Rightarrow> u64) \<Rightarrow> Store \<Rightarrow> int \<Rightarrow> string \<Rightarrow> ub + TtlResult \<times> Store" where
  "store_ttl hash st now key =
     (case read_live (shard_for hash st key) now key of
        (live, sh) \<Rightarrow>
          (case ttl_of live now of
             Inl u \<Rightarrow> Inl u
           | Inr result \<Rightarrow> Inr (result, put_shard hash st key sh)))"

definition store_del :: "(string \<Rightarrow> u64) \<Rightarrow> Store \<Rightarrow> int \<Rightarrow> string \<Rightarrow> bool \<times> Store" where
  "store_del hash st now key =
     (case shard_del (shard_for hash st key) now key of
        (was_live, sh) \<Rightarrow> (was_live, put_shard hash st key sh))"

definition store_expire ::
  "(string \<Rightarrow> u64) \<Rightarrow> Store \<Rightarrow> int \<Rightarrow> string \<Rightarrow> int \<Rightarrow> ub + bool \<times> Store" where
  "store_expire hash st now key ttl_seconds =
     (case shard_expire (shard_for hash st key) now key ttl_seconds of
        Inl u \<Rightarrow> Inl u
      | Inr (ok, sh) \<Rightarrow> Inr (ok, put_shard hash st key sh))"

text \<open>\<^verbatim>\<open>sweep_expired\<close> visits every shard in turn with one reading of the clock.\<close>

fun sweep_shards :: "nat \<Rightarrow> int \<Rightarrow> Shard list \<Rightarrow> nat \<Rightarrow> Shard list \<times> nat" where
  "sweep_shards max_items now [] total_removed = ([], total_removed)"
| "sweep_shards max_items now (sh # shs) total_removed =
     (case sweep_shard max_items now sh total_removed of
        (sh', total_removed') \<Rightarrow>
          (case sweep_shards max_items now shs total_removed' of
             (shs', removed) \<Rightarrow> (sh' # shs', removed)))"

definition sweep_expired :: "Store \<Rightarrow> int \<Rightarrow> nat \<Rightarrow> nat \<times> Store" where
  "sweep_expired st now max_items_per_shard =
     (case sweep_shards max_items_per_shard now (st_shards st) 0 of
        (shards, total_removed) \<Rightarrow>
          (total_removed,
           st\<lparr>st_shards := shards,
              st_active_expirations :=
                (if total_removed > 0
                 then st_active_expirations st + word_of_nat total_removed
                 else st_active_expirations st)\<rparr>))"

subsection \<open>What a shard holds at a time\<close>

type_synonym kv_view = "string \<Rightarrow> (string \<times> int option) option"

text \<open>The live keys of a shard at a time, with their value and deadline.\<close>

definition entry_view :: "Entry option \<Rightarrow> int \<Rightarrow> (string \<times> int option) option" where
  "entry_view e now = (case e of
      None \<Rightarrow> None
    | Some e \<Rightarrow> if is_expired e now then None else Some (en_value e, en_deadline e))"

definition shard_view :: "Shard \<Rightarrow> int \<Rightarrow> kv_view" where
  "shard_view sh now key = entry_view (sh_entries sh key) now"

lemma entry_view_simps [simp]:
  "entry_view None now = None"
  "entry_view (Some e) now = (if is_expired e now then None else Some (en_value e, en_deadline e))"
  by (simp_all add: entry_view_def)

lemma is_expired_simps [simp]:
  "\<not> is_expired \<lparr>en_value = v, en_deadline = None, en_generation = g\<rparr> now"
  "is_expired (e\<lparr>en_deadline := Some d, en_generation := g\<rparr>) now \<longleftrightarrow> d \<le> now"
  by (simp_all add: is_expired_def)

lemma is_expired_mono: "is_expired e now \<Longrightarrow> now \<le> t \<Longrightarrow> is_expired e t"
  by (auto simp: is_expired_def split: option.splits)

lemma deadline_after_Inr:
  "deadline_after now s = Inr d \<longleftrightarrow>
     in_int64 (s * ns_per_s) \<and> in_int64 (now + s * ns_per_s) \<and> d = now + s * ns_per_s"
  by (auto simp: deadline_after_def split: sum.splits)

lemma deadline_after_Inl:
  "deadline_after now s = Inl u \<longleftrightarrow>
     \<not> (in_int64 (s * ns_per_s) \<and> in_int64 (now + s * ns_per_s)) \<and> u = Signed_overflow"
  by (auto simp: deadline_after_def checked_int64_def)

subsection \<open>The critical sections seen through the view\<close>

lemma shard_view_set:
  "shard_view (shard_set sh key v) t = (shard_view sh t)(key \<mapsto> (v, None))"
  by (auto simp: shard_view_def shard_set_def Let_def fun_eq_iff)

lemma read_live_entry:
  "fst (read_live sh now key) =
     (case sh_entries sh key of None \<Rightarrow> None | Some e \<Rightarrow> if is_expired e now then None else Some e)"
  by (auto simp: read_live_def read_live_shared_def split: option.splits)

lemma read_live_exclusive_view:
  "now \<le> t \<Longrightarrow> shard_view (read_live_exclusive sh now key) t = shard_view sh t"
  by (auto simp: shard_view_def read_live_exclusive_def fun_eq_iff dest: is_expired_mono split: option.splits)

lemma read_live_view:
  "now \<le> t \<Longrightarrow> shard_view (snd (read_live sh now key)) t = shard_view sh t"
  by (simp add: read_live_def read_live_exclusive_view split: SharedRead.split)

lemma shard_del_result: "fst (shard_del sh now key) \<longleftrightarrow> shard_view sh now key \<noteq> None"
  by (auto simp: shard_del_def shard_view_def split: option.splits)

lemma shard_del_view:
  "shard_view (snd (shard_del sh now key)) t = (shard_view sh t)(key := None)"
  by (auto simp: shard_view_def shard_del_def fun_eq_iff split: option.splits)

lemma shard_expire_cases:
  assumes "shard_expire sh now key s = Inr (ok, sh')"
  obtains (dead) "\<not> ok" "shard_view sh now key = None"
      "\<And>t. now \<le> t \<Longrightarrow> shard_view sh' t = shard_view sh t"
  | (live) v d where "ok" "shard_view sh now key = Some (v, d)"
      "\<And>t. shard_view sh' t = (shard_view sh t)
         (key := if now + s * ns_per_s \<le> t then None else Some (v, Some (now + s * ns_per_s)))"
proof (cases "sh_entries sh key")
  case None
  with assms show thesis by (intro dead) (auto simp: shard_expire_def shard_view_def)
next
  case (Some e)
  show thesis
  proof (cases "is_expired e now")
    case True
    with Some assms show thesis
      by (intro dead) (auto simp: shard_expire_def shard_view_def fun_eq_iff dest: is_expired_mono)
  next
    case False
    with Some assms show thesis
      by (intro live [of "en_value e" "en_deadline e"])
        (auto simp: shard_expire_def shard_view_def fun_eq_iff Let_def deadline_after_Inr split: sum.splits)
  qed
qed

text \<open>
  The sweep never changes what is live: a candidate that matches its entry and is due names
  an entry whose own deadline has passed.
\<close>

lemma sweep_shard_view:
  "now \<le> t \<Longrightarrow> shard_view (fst (sweep_shard budget now sh removed)) t = shard_view sh t"
proof (induction budget now sh removed rule: sweep_shard.induct)
  case (2 budget now sh removed)
  let ?c = "pq_top (sh_heap sh)"
  let ?pop = "sh\<lparr>sh_heap := pq_pop (sh_heap sh)\<rparr>"
  let ?del = "sh\<lparr>sh_entries := (sh_entries sh)(ec_key ?c := None), sh_heap := pq_pop (sh_heap sh)\<rparr>"
  have pop: "shard_view ?pop t = shard_view sh t" by (simp add: shard_view_def fun_eq_iff)
  have del: "shard_view ?del t = shard_view sh t"
    if "candidate_matches sh ?c" "ec_deadline ?c \<le> now"
    using that "2.prems"
    by (auto simp: shard_view_def candidate_matches_def is_expired_def fun_eq_iff split: option.splits)
  from "2" pop del show ?case by (auto simp: Let_def not_less)
qed simp

subsection \<open>The invariant of a shard\<close>

text \<open>
  The candidates are in the order the sweep relies on; every entry with a deadline has its
  own candidate, with the entry's deadline and generation, still in the queue, so the sweep
  can reach it; and the shard holds only the keys that hash to it (\<open>mine\<close>).
\<close>

definition entry_candidate :: "string \<Rightarrow> Entry \<Rightarrow> int \<Rightarrow> ExpirationCandidate" where
  "entry_candidate key e d =
     \<lparr>ec_deadline = d, ec_generation = en_generation e, ec_key = key\<rparr>"

definition shard_ok :: "(string \<Rightarrow> bool) \<Rightarrow> Shard \<Rightarrow> bool" where
  "shard_ok mine sh \<longleftrightarrow>
     pq_sorted (sh_heap sh) \<and>
     (\<forall>key e d. sh_entries sh key = Some e \<and> en_deadline e = Some d \<longrightarrow>
        entry_candidate key e d \<in> set (sh_heap sh)) \<and>
     (\<forall>key. sh_entries sh key \<noteq> None \<longrightarrow> mine key)"

lemma shard_ok_empty: "shard_ok mine empty_shard"
  by (simp add: shard_ok_def empty_shard_def pq_sorted_def)

lemma shard_ok_set: "shard_ok mine sh \<Longrightarrow> mine key \<Longrightarrow> shard_ok mine (shard_set sh key v)"
  by (auto simp: shard_ok_def shard_set_def Let_def)

lemma shard_ok_erase:
  "shard_ok mine sh \<Longrightarrow> shard_ok mine (sh\<lparr>sh_entries := (sh_entries sh)(key := None)\<rparr>)"
  by (auto simp: shard_ok_def)

lemma shard_ok_read_live_exclusive:
  "shard_ok mine sh \<Longrightarrow> shard_ok mine (read_live_exclusive sh now key)"
  by (simp add: read_live_exclusive_def shard_ok_erase split: option.split)

lemma shard_ok_read_live: "shard_ok mine sh \<Longrightarrow> shard_ok mine (snd (read_live sh now key))"
  by (simp add: read_live_def shard_ok_read_live_exclusive split: SharedRead.split)

lemma shard_ok_del: "shard_ok mine sh \<Longrightarrow> shard_ok mine (snd (shard_del sh now key))"
  by (simp add: shard_del_def shard_ok_erase split: option.split)

lemma shard_ok_expire:
  assumes "shard_ok mine sh" and "mine key" and "shard_expire sh now key s = Inr (ok, sh')"
  shows "shard_ok mine sh'"
proof (cases "sh_entries sh key")
  case None
  with assms show ?thesis by (simp add: shard_expire_def)
next
  case (Some e)
  show ?thesis
  proof (cases "is_expired e now")
    case True
    with Some assms show ?thesis by (auto simp: shard_expire_def shard_ok_erase)
  next
    case False
    with Some assms show ?thesis
      by (auto simp: shard_expire_def Let_def shard_ok_def set_pq_push pq_sorted_push
          entry_candidate_def split: sum.splits if_splits)
  qed
qed

lemma candidate_matches_entry:
  assumes "sh_entries sh key = Some e" and "en_deadline e = Some d"
    and "entry_candidate key e d = c"
  shows "candidate_matches sh c"
  using assms by (auto simp: candidate_matches_def entry_candidate_def)

lemma shard_ok_pop:
  assumes "shard_ok mine sh" and "\<not> pq_empty (sh_heap sh)"
    and "\<not> candidate_matches sh (pq_top (sh_heap sh))"
  shows "shard_ok mine (sh\<lparr>sh_heap := pq_pop (sh_heap sh)\<rparr>)"
proof -
  let ?h = "sh_heap sh"
  from assms(1) have sorted: "pq_sorted ?h" by (simp add: shard_ok_def)
  have "c \<in> set (pq_pop ?h)" if "c \<in> set ?h" "c \<noteq> pq_top ?h" for c
    using pq.elems_top_pop [OF sorted assms(2)] that
    by (metis insert_iff set_mset_add_mset_insert set_mset_mset)
  moreover have "entry_candidate key e d \<noteq> pq_top ?h"
    if "sh_entries sh key = Some e" "en_deadline e = Some d" for key e d
    using candidate_matches_entry [OF that] assms(3) by blast
  ultimately show ?thesis
    using assms(1,2) pq.invar_pop [OF sorted] by (auto simp: shard_ok_def)
qed

lemma shard_ok_sweep:
  "shard_ok mine sh \<Longrightarrow> shard_ok mine (fst (sweep_shard budget now sh removed))"
proof (induction budget now sh removed rule: sweep_shard.induct)
  case (2 budget now sh removed)
  let ?c = "pq_top (sh_heap sh)"
  have "shard_ok mine (sh\<lparr>sh_entries := (sh_entries sh)(ec_key ?c := None), sh_heap := pq_pop (sh_heap sh)\<rparr>)"
    if "\<not> pq_empty (sh_heap sh)"
  proof -
    let ?e = "sh\<lparr>sh_entries := (sh_entries sh)(ec_key ?c := None)\<rparr>"
    have "shard_ok mine ?e" using "2.prems" by (rule shard_ok_erase)
    moreover have "\<not> candidate_matches ?e (pq_top (sh_heap ?e))"
      by (simp add: candidate_matches_def)
    ultimately show ?thesis using shard_ok_pop [of mine ?e] that by simp
  qed
  with "2" shard_ok_pop show ?case by (auto simp: Let_def)
qed simp

text \<open>A sweep with a budget for the whole queue leaves no expired entry behind.\<close>

lemma sweep_shard_complete:
  assumes "shard_ok mine sh" and "length (sh_heap sh) \<le> budget"
    and "sh_entries (fst (sweep_shard budget now sh removed)) key = Some e"
  shows "\<not> is_expired e now"
  using assms
proof (induction budget now sh removed rule: sweep_shard.induct)
  case (1 now sh removed)
  then show ?case by (auto simp: shard_ok_def is_expired_def split: option.splits)
next
  case (2 budget now sh removed)
  let ?h = "sh_heap sh" and ?c = "pq_top (sh_heap sh)"
  from "2.prems"(1) have sorted: "pq_sorted ?h" by (simp add: shard_ok_def)
  consider (empty) "pq_empty ?h" | (early) "\<not> pq_empty ?h" "now < ec_deadline ?c"
    | (round) "\<not> pq_empty ?h" "\<not> now < ec_deadline ?c" by blast
  then show ?case
  proof cases
    case empty
    with "2.prems" show ?thesis
      by (auto simp: shard_ok_def is_expired_def pq_empty_def split: option.splits)
  next
    case early
    then have "now < d" if "entry_candidate key e d \<in> set ?h" for d
      using pq.none_due [OF sorted, of now "entry_candidate key e d"] that
      by (simp add: entry_candidate_def)
    with early "2.prems" show ?thesis
      by (fastforce simp: shard_ok_def is_expired_def Let_def split: option.splits)
  next
    case round
    have len: "length (pq_pop ?h) \<le> budget"
      using "2.prems"(2) round(1) by (cases ?h) (simp_all add: pq_pop_def pq_empty_def)
    show ?thesis
    proof (cases "candidate_matches sh ?c")
      case True
      let ?sh = "sh\<lparr>sh_entries := (sh_entries sh)(ec_key ?c := None), sh_heap := pq_pop ?h\<rparr>"
      have "shard_ok mine ?sh"
        using shard_ok_sweep [OF "2.prems"(1), of 1 now 0] round True by (simp add: Let_def)
      with "2.IH"(1) True round len "2.prems" show ?thesis by (simp add: Let_def)
    next
      case False
      with "2.IH"(2) round len "2.prems" shard_ok_pop [OF "2.prems"(1)] show ?thesis
        by (simp add: Let_def)
    qed
  qed
qed

subsection \<open>Shard selection\<close>

lemma pow2_from_bounds:
  "\<lbrakk>0 < p; p < 2 * n\<rbrakk> \<Longrightarrow> n \<le> pow2_from p n \<and> pow2_from p n < 2 * n \<and> (\<exists>k. pow2_from p n = p * 2 ^ k)"
proof (induction p n rule: pow2_from.induct)
  case (1 p n)
  show ?case
  proof (cases "n \<le> p")
    case True
    then have "pow2_from p n = p" by (simp add: pow2_from.simps)
    with True "1.prems" show ?thesis by (auto intro: exI [of _ 0])
  next
    case False
    with "1" have IH: "n \<le> pow2_from (2 * p) n \<and> pow2_from (2 * p) n < 2 * n"
      "\<exists>k. pow2_from (2 * p) n = 2 * p * 2 ^ k" by simp_all
    then obtain k where "pow2_from (2 * p) n = p * 2 ^ Suc k" by (auto simp: ac_simps)
    moreover have "pow2_from p n = pow2_from (2 * p) n"
      using False "1.prems" by (subst pow2_from.simps) simp
    ultimately show ?thesis using IH(1) by metis
  qed
qed

lemma normalize_shard_count_Inr:
  assumes "normalize_shard_count requested = Inr n"
  shows "\<exists>k < 64. unat n = 2 ^ k" and "unat requested \<le> unat n" and "unat n < 2 * unat requested"
proof -
  let ?p = "pow2_from 1 (unat requested)"
  from assms have r: "unat requested \<noteq> 0" "unat requested \<le> 2 ^ 63" and n: "n = word_of_nat ?p"
    by (auto simp: normalize_shard_count_def bit_ceil_def unat_eq_0 split: if_splits)
  from pow2_from_bounds [of 1 "unat requested"] r(1) obtain k where
    p: "unat requested \<le> ?p" "?p < 2 * unat requested" "?p = 2 ^ k" by auto
  from p(2,3) r(2) have "(2::nat) ^ k < 2 ^ 64" by simp
  then have k: "k < 64" by (simp only: power_strict_increasing_iff)
  with p(3) n have un: "unat n = ?p" by (simp add: unat_pow2)
  show "\<exists>k < 64. unat n = 2 ^ k" using un p(3) k by metis
  show "unat requested \<le> unat n" "unat n < 2 * unat requested" using un p by simp_all
qed

lemma shard_index_mod:
  assumes "unat (st_shard_count st) = 2 ^ k"
  shows "shard_index hash st key = unat (hash key) mod unat (st_shard_count st)"
proof -
  have "st_shard_count st = 2 ^ k"
    using u64_of_unat [OF assms] by simp
  then have "hash key AND (st_shard_count st - 1) = take_bit k (hash key)"
    by (simp add: take_bit_eq_mask mask_eq_exp_minus_1)
  then show ?thesis
    using assms by (simp add: shard_index_def unat_take_bit_u64)
qed

subsection \<open>The invariant and the view of the store\<close>

definition wf_store :: "(string \<Rightarrow> u64) \<Rightarrow> Store \<Rightarrow> bool" where
  "wf_store hash st \<longleftrightarrow>
     (\<exists>k. unat (st_shard_count st) = 2 ^ k) \<and>
     length (st_shards st) = unat (st_shard_count st) \<and>
     (\<forall>i < length (st_shards st). shard_ok (\<lambda>key. shard_index hash st key = i) (st_shards st ! i))"

definition live_view :: "(string \<Rightarrow> u64) \<Rightarrow> Store \<Rightarrow> int \<Rightarrow> kv_view" where
  "live_view hash st now key = shard_view (shard_for hash st key) now key"

lemma shard_index_bound: "wf_store hash st \<Longrightarrow> shard_index hash st key < length (st_shards st)"
  by (auto simp: wf_store_def shard_index_mod)

lemma shard_for_ok:
  "wf_store hash st \<Longrightarrow>
   shard_ok (\<lambda>k. shard_index hash st k = shard_index hash st key) (shard_for hash st key)"
  using shard_index_bound by (simp add: wf_store_def shard_for_def)

lemma put_shard_simps [simp]:
  "st_shard_count (put_shard hash st key sh) = st_shard_count st"
  "shard_index hash (put_shard hash st key sh) k = shard_index hash st k"
  "st_active_expirations (put_shard hash st key sh) = st_active_expirations st"
  by (simp_all add: put_shard_def shard_index_def)

lemma put_shard_wf:
  assumes "wf_store hash st"
    and "shard_ok (\<lambda>k. shard_index hash st k = shard_index hash st key) sh"
  shows "wf_store hash (put_shard hash st key sh)"
  using assms shard_index_bound [OF assms(1), of key] unfolding wf_store_def
  by (auto simp: put_shard_def nth_list_update shard_index_def)

lemma put_shard_view:
  assumes "wf_store hash st"
  shows "live_view hash (put_shard hash st key sh) t k =
    (if shard_index hash st k = shard_index hash st key then shard_view sh t k
     else live_view hash st t k)"
  using shard_index_bound [OF assms]
  by (simp add: live_view_def shard_for_def nth_list_update put_shard_def shard_index_def)

text \<open>An update of one key inside its shard is an update of that key in the store.\<close>

lemma put_shard_update:
  assumes "wf_store hash st"
    and "shard_view sh t = (shard_view (shard_for hash st key) t)(key := x)"
  shows "live_view hash (put_shard hash st key sh) t = (live_view hash st t)(key := x)"
proof
  fix k
  show "live_view hash (put_shard hash st key sh) t k = ((live_view hash st t)(key := x)) k"
    unfolding put_shard_view [OF assms(1)]
    using assms(2) by (simp add: live_view_def shard_for_def)
qed

lemma put_shard_same:
  assumes "wf_store hash st"
    and "shard_view sh t = shard_view (shard_for hash st key) t"
  shows "live_view hash (put_shard hash st key sh) t = live_view hash st t"
  using put_shard_update [OF assms(1), of sh t key "shard_view (shard_for hash st key) t key"] assms(2)
  by (simp add: live_view_def fun_eq_iff)

lemma make_store_wf:
  assumes "make_store n = Inr st"
  shows "wf_store hash st" and "live_view hash st now = Map.empty"
proof -
  from assms obtain m where m: "normalize_shard_count n = Inr m"
    and st: "st = \<lparr>st_shard_count = m, st_shards = replicate (unat m) empty_shard,
      st_active_expirations = 0\<rparr>"
    by (auto simp: make_store_def split: sum.splits)
  from normalize_shard_count_Inr(1) [OF m] show wf: "wf_store hash st"
    by (auto simp: wf_store_def st shard_ok_empty)
  then have "shard_for hash st key = empty_shard" for key
    using shard_index_bound [OF wf] by (simp add: shard_for_def st)
  then show "live_view hash st now = Map.empty"
    by (simp add: live_view_def fun_eq_iff shard_view_def empty_shard_def)
qed

text \<open>The running total of a sweep is only an accumulator.\<close>

lemma sweep_shard_acc:
  "sweep_shard m now sh r = (fst (sweep_shard m now sh 0), r + snd (sweep_shard m now sh 0))"
proof (induction m arbitrary: sh r)
  case (Suc m)
  let ?c = "pq_top (sh_heap sh)"
  let ?del = "sh\<lparr>sh_entries := (sh_entries sh)(ec_key ?c := None), sh_heap := pq_pop (sh_heap sh)\<rparr>"
  show ?case
    using Suc.IH [of ?del "Suc r"] Suc.IH [of ?del "Suc 0"]
      Suc.IH [of "sh\<lparr>sh_heap := pq_pop (sh_heap sh)\<rparr>" r]
    by (simp add: Let_def)
qed simp

lemma sweep_shards_eq:
  "sweep_shards m now shs r =
     (map (\<lambda>sh. fst (sweep_shard m now sh 0)) shs,
      r + sum_list (map (\<lambda>sh. snd (sweep_shard m now sh 0)) shs))"
proof (induction shs arbitrary: r)
  case (Cons sh shs)
  show ?case
    using Cons.IH [of "r + snd (sweep_shard m now sh 0)"]
    by (subst sweep_shards.simps, subst sweep_shard_acc) simp
qed simp

lemma sweep_expired_shards:
  "st_shards (snd (sweep_expired st now m)) = map (\<lambda>sh. fst (sweep_shard m now sh 0)) (st_shards st)"
  "st_shard_count (snd (sweep_expired st now m)) = st_shard_count st"
  "shard_index hash (snd (sweep_expired st now m)) key = shard_index hash st key"
  "fst (sweep_expired st now m) = sum_list (map (\<lambda>sh. snd (sweep_shard m now sh 0)) (st_shards st))"
  by (simp_all add: sweep_expired_def sweep_shards_eq shard_index_def)

lemma sweep_expired_shard_for:
  "wf_store hash st \<Longrightarrow>
   shard_for hash (snd (sweep_expired st now m)) key = fst (sweep_shard m now (shard_for hash st key) 0)"
  using shard_index_bound by (simp add: shard_for_def sweep_expired_shards)

lemma sweep_expired_wf: "wf_store hash st \<Longrightarrow> wf_store hash (snd (sweep_expired st now m))"
  unfolding wf_store_def by (auto simp: sweep_expired_shards shard_ok_sweep)

lemma sweep_expired_view:
  "wf_store hash st \<Longrightarrow> now \<le> t \<Longrightarrow>
   live_view hash (snd (sweep_expired st now m)) t = live_view hash st t"
  by (simp add: live_view_def fun_eq_iff sweep_expired_shard_for sweep_shard_view)

end
