(* ===== verification/Store_Contract.thy ===== *)
theory Store_Contract
  imports Store
begin

section \<open>The contract of the store and what its clients may rely on\<close>

text \<open>
  The locale \<open>kv_contract\<close> states what \<^verbatim>\<open>src/include/kvstore/storage/store.hpp\<close> promises of
  each operation, over the live keys at a time (\<open>view\<close>), and derives what a client sees of
  sequences of operations. The interpretation \<open>store\<close> shows that the operations of
  \<^verbatim>\<open>Store\<close> keep these promises, for every hash function; the properties at the end are
  the contract's consequences for the code.
\<close>

subsection \<open>The contract\<close>

text \<open>The passage of time: keys whose deadline has come are gone.\<close>

definition purge :: "int \<Rightarrow> kv_view \<Rightarrow> kv_view" where
  "purge t m key = (case m key of
      Some (v, Some d) \<Rightarrow> if d \<le> t then None else Some (v, Some d)
    | other \<Rightarrow> other)"

text \<open>The TTL state of a key by \<^verbatim>\<open>SPEC.md\<close>: remaining whole seconds, rounded down.\<close>

definition spec_ttl :: "int \<Rightarrow> (string \<times> int option) option \<Rightarrow> TtlResult" where
  "spec_ttl now e = (case e of
      None \<Rightarrow> \<lparr>tr_status = kMissing, tr_remaining = None\<rparr>
    | Some (v, None) \<Rightarrow> \<lparr>tr_status = kNoTtl, tr_remaining = None\<rparr>
    | Some (v, Some d) \<Rightarrow>
        \<lparr>tr_status = kHasTtl, tr_remaining = Some ((d - now) div ns_per_s)\<rparr>)"

locale kv_contract =
  fixes inv :: "'s \<Rightarrow> bool"
    and view :: "'s \<Rightarrow> int \<Rightarrow> kv_view"
    and set_op :: "'s \<Rightarrow> string \<Rightarrow> string \<Rightarrow> 's"
    and get_op :: "'s \<Rightarrow> int \<Rightarrow> string \<Rightarrow> string option \<times> 's"
    and exists_op :: "'s \<Rightarrow> int \<Rightarrow> string \<Rightarrow> bool \<times> 's"
    and del_op :: "'s \<Rightarrow> int \<Rightarrow> string \<Rightarrow> bool \<times> 's"
    and expire_op :: "'s \<Rightarrow> int \<Rightarrow> string \<Rightarrow> int \<Rightarrow> ub + bool \<times> 's"
    and ttl_op :: "'s \<Rightarrow> int \<Rightarrow> string \<Rightarrow> ub + TtlResult \<times> 's"
    and sweep_op :: "'s \<Rightarrow> int \<Rightarrow> nat \<Rightarrow> nat \<times> 's"
  assumes view_later: "now \<le> t \<Longrightarrow> view s t = purge t (view s now)"
    and set_inv: "inv s \<Longrightarrow> inv (set_op s k v)"
    and set_view: "inv s \<Longrightarrow> view (set_op s k v) t = (view s t)(k \<mapsto> (v, None))"
    and get_inv: "inv s \<Longrightarrow> inv (snd (get_op s now k))"
    and get_result: "inv s \<Longrightarrow> fst (get_op s now k) = map_option fst (view s now k)"
    and get_view: "inv s \<Longrightarrow> now \<le> t \<Longrightarrow> view (snd (get_op s now k)) t = view s t"
    and exists_inv: "inv s \<Longrightarrow> inv (snd (exists_op s now k))"
    and exists_result: "inv s \<Longrightarrow> fst (exists_op s now k) \<longleftrightarrow> view s now k \<noteq> None"
    and exists_view: "inv s \<Longrightarrow> now \<le> t \<Longrightarrow> view (snd (exists_op s now k)) t = view s t"
    and del_inv: "inv s \<Longrightarrow> inv (snd (del_op s now k))"
    and del_result: "inv s \<Longrightarrow> fst (del_op s now k) \<longleftrightarrow> view s now k \<noteq> None"
    and del_view: "inv s \<Longrightarrow> view (snd (del_op s now k)) t = (view s t)(k := None)"
    and expire_inv: "inv s \<Longrightarrow> expire_op s now k n = Inr (ok, s') \<Longrightarrow> inv s'"
    and expire_result:
      "inv s \<Longrightarrow> expire_op s now k n = Inr (ok, s') \<Longrightarrow> ok \<longleftrightarrow> view s now k \<noteq> None"
    and expire_view: "inv s \<Longrightarrow> expire_op s now k n = Inr (ok, s') \<Longrightarrow> now \<le> t \<Longrightarrow>
      view s' t = (if ok then (view s t)
        (k := if now + n * ns_per_s \<le> t then None
              else Some (fst (the (view s now k)), Some (now + n * ns_per_s)))
        else view s t)"
    and expire_defined: "inv s \<Longrightarrow> (\<exists>r. expire_op s now k n = Inr r) \<longleftrightarrow>
      view s now k = None \<or> in_int64 (n * ns_per_s) \<and> in_int64 (now + n * ns_per_s)"
    and ttl_inv: "inv s \<Longrightarrow> ttl_op s now k = Inr (r, s') \<Longrightarrow> inv s'"
    and ttl_result: "inv s \<Longrightarrow> ttl_op s now k = Inr (r, s') \<Longrightarrow> r = spec_ttl now (view s now k)"
    and ttl_view: "inv s \<Longrightarrow> ttl_op s now k = Inr (r, s') \<Longrightarrow> now \<le> t \<Longrightarrow> view s' t = view s t"
    and ttl_defined: "inv s \<Longrightarrow> (\<exists>r. ttl_op s now k = Inr r) \<longleftrightarrow>
      (\<forall>v d. view s now k = Some (v, Some d) \<longrightarrow> in_int64 (d - now))"
    and sweep_inv: "inv s \<Longrightarrow> inv (snd (sweep_op s now m))"
    and sweep_view: "inv s \<Longrightarrow> now \<le> t \<Longrightarrow> view (snd (sweep_op s now m)) t = view s t"
begin

text \<open>A value is read back after it is set, at any later time, and has no expiration.\<close>

lemma get_set: "inv s \<Longrightarrow> fst (get_op (set_op s k v) t k) = Some v"
  by (simp add: get_result set_inv set_view)

lemma ttl_set:
  assumes "inv s"
  shows "\<exists>s'. ttl_op (set_op s k v) t k = Inr (\<lparr>tr_status = kNoTtl, tr_remaining = None\<rparr>, s')"
proof -
  have inv: "inv (set_op s k v)" using assms by (rule set_inv)
  with ttl_defined [OF inv, of t k] obtain r s' where r: "ttl_op (set_op s k v) t k = Inr (r, s')"
    using assms by (auto simp: set_view)
  with ttl_result [OF inv r] show ?thesis using assms by (auto simp: set_view spec_ttl_def)
qed

text \<open>Operations on other keys are not disturbed.\<close>

lemma get_set_other: "inv s \<Longrightarrow> k' \<noteq> k \<Longrightarrow> fst (get_op (set_op s k v) t k') = fst (get_op s t k')"
  by (simp add: get_result set_inv set_view)

lemma get_del_other:
  "inv s \<Longrightarrow> k' \<noteq> k \<Longrightarrow> fst (get_op (snd (del_op s now k)) t k') = fst (get_op s t k')"
  by (simp add: get_result del_inv del_view)

text \<open>A deleted key is missing until it is set again.\<close>

lemma get_del: "inv s \<Longrightarrow> fst (get_op (snd (del_op s now k)) t k) = None"
  by (simp add: get_result del_inv del_view)

text \<open>After an expiration is set, the key is readable exactly until the deadline.\<close>

lemma view_fst:
  assumes "now \<le> t" and "view s t k = Some x"
  shows "\<exists>y. view s now k = Some y \<and> fst y = fst x"
  using assms view_later [OF assms(1), of s]
  by (auto simp: purge_def split: option.splits if_splits)

lemma get_expire:
  assumes "inv s" and "expire_op s now k n = Inr (True, s')" and "now \<le> t"
  shows "fst (get_op s' t k) = (if t < now + n * ns_per_s then fst (get_op s now k) else None)"
proof -
  have "view s now k \<noteq> None" using expire_result [OF assms(1,2)] by simp
  then obtain x where "view s now k = Some x" by blast
  with expire_view [OF assms] show ?thesis
    using assms(1) expire_inv [OF assms(1,2)] by (auto simp: get_result)
qed

text \<open>Expiration in the background is not observable.\<close>

lemma get_sweep:
  "inv s \<Longrightarrow> now \<le> t \<Longrightarrow> fst (get_op (snd (sweep_op s now m)) t k) = fst (get_op s t k)"
  by (simp add: get_result sweep_inv sweep_view)

text \<open>A missing and an expired key cannot be told apart.\<close>

lemma missing:
  assumes "inv s" and "view s now k = None"
  shows "fst (get_op s now k) = None" and "\<not> fst (exists_op s now k)" and "\<not> fst (del_op s now k)"
    and "\<exists>s'. expire_op s now k n = Inr (False, s')"
    and "\<exists>s'. ttl_op s now k = Inr (\<lparr>tr_status = kMissing, tr_remaining = None\<rparr>, s')"
proof -
  show "fst (get_op s now k) = None" "\<not> fst (exists_op s now k)" "\<not> fst (del_op s now k)"
    using assms by (simp_all add: get_result exists_result del_result)
  from expire_defined [OF assms(1), of now k n] assms(2) obtain ok s'
    where e: "expire_op s now k n = Inr (ok, s')" by auto
  with expire_result [OF assms(1) e] assms(2) show "\<exists>s'. expire_op s now k n = Inr (False, s')" by auto
  from ttl_defined [OF assms(1), of now k] assms(2) obtain r s''
    where t: "ttl_op s now k = Inr (r, s'')" by auto
  with ttl_result [OF assms(1) t] assms(2)
  show "\<exists>s'. ttl_op s now k = Inr (\<lparr>tr_status = kMissing, tr_remaining = None\<rparr>, s')"
    by (auto simp: spec_ttl_def)
qed

end

subsection \<open>The store keeps the contract\<close>

lemma live_view_later: "now \<le> t \<Longrightarrow> live_view hash st t = purge t (live_view hash st now)"
  by (auto simp: live_view_def purge_def shard_view_def entry_view_def is_expired_def fun_eq_iff
      split: option.split)

lemma store_set_correct:
  assumes "wf_store hash st"
  shows "wf_store hash (store_set hash st k v)"
    and "live_view hash (store_set hash st k v) t = (live_view hash st t)(k \<mapsto> (v, None))"
proof -
  show "wf_store hash (store_set hash st k v)"
    unfolding store_set_def
    by (intro put_shard_wf assms shard_ok_set shard_for_ok) simp
  show "live_view hash (store_set hash st k v) t = (live_view hash st t)(k \<mapsto> (v, None))"
    unfolding store_set_def by (intro put_shard_update assms shard_view_set)
qed

text \<open>The three operations on top of \<^const>\<open>read_live\<close> share its effect on the store.\<close>

lemma read_live_correct:
  assumes "wf_store hash st"
  shows "wf_store hash (put_shard hash st k (snd (read_live (shard_for hash st k) now k)))"
    and "now \<le> t \<Longrightarrow>
      live_view hash (put_shard hash st k (snd (read_live (shard_for hash st k) now k))) t = live_view hash st t"
proof -
  show "wf_store hash (put_shard hash st k (snd (read_live (shard_for hash st k) now k)))"
    by (intro put_shard_wf assms shard_ok_read_live shard_for_ok)
  show "live_view hash (put_shard hash st k (snd (read_live (shard_for hash st k) now k))) t = live_view hash st t"
    if "now \<le> t" using that by (intro put_shard_same assms read_live_view)
qed

lemma read_live_result:
  "map_option (\<lambda>e. (en_value e, en_deadline e)) (fst (read_live (shard_for hash st k) now k)) =
     live_view hash st now k"
  by (simp add: read_live_entry live_view_def shard_view_def split: option.split)

lemma store_get_correct:
  assumes "wf_store hash st"
  shows "wf_store hash (snd (store_get hash st now k))"
    and "fst (store_get hash st now k) = map_option fst (live_view hash st now k)"
    and "now \<le> t \<Longrightarrow> live_view hash (snd (store_get hash st now k)) t = live_view hash st t"
  using read_live_correct [OF assms]
  by (simp_all add: store_get_def split_beta read_live_result [symmetric] option.map_comp o_def)

lemma store_exists_correct:
  assumes "wf_store hash st"
  shows "wf_store hash (snd (store_exists hash st now k))"
    and "fst (store_exists hash st now k) \<longleftrightarrow> live_view hash st now k \<noteq> None"
    and "now \<le> t \<Longrightarrow> live_view hash (snd (store_exists hash st now k)) t = live_view hash st t"
  using read_live_correct [OF assms]
  by (simp_all add: store_exists_def split_beta read_live_result [symmetric])

lemma store_ttl_correct:
  assumes "wf_store hash st" and "store_ttl hash st now k = Inr (r, st')"
  shows "wf_store hash st'"
    and "now \<le> t \<Longrightarrow> live_view hash st' t = live_view hash st t"
    and "r = spec_ttl now (live_view hash st now k)"
proof -
  let ?e = "fst (read_live (shard_for hash st k) now k)"
  from assms(2) have r: "ttl_of ?e now = Inr r"
    and st': "st' = put_shard hash st k (snd (read_live (shard_for hash st k) now k))"
    by (auto simp: store_ttl_def split_beta split: sum.splits)
  show "wf_store hash st'" "now \<le> t \<Longrightarrow> live_view hash st' t = live_view hash st t"
    using read_live_correct [OF assms(1)] by (simp_all add: st')
  have live: "\<not> is_expired e now" if "?e = Some e" for e
    using that by (auto simp: read_live_entry split: option.splits if_splits)
  have "cpp_quot (d - now) ns_per_s = (d - now) div ns_per_s"
    if "?e = Some e" "en_deadline e = Some d" for e d
    using live [OF that(1)] that(2)
    by (intro cpp_quot_nonneg) (simp_all add: is_expired_def ns_per_s_def)
  with r show "r = spec_ttl now (live_view hash st now k)"
    by (auto simp: ttl_of_def spec_ttl_def read_live_result [symmetric] split: option.splits sum.splits)
qed

lemma store_ttl_defined:
  "(\<exists>r. store_ttl hash st now k = Inr r) \<longleftrightarrow>
     (\<forall>v d. live_view hash st now k = Some (v, Some d) \<longrightarrow> in_int64 (d - now))"
  by (auto simp: store_ttl_def split_beta ttl_of_def read_live_result [symmetric] split: option.splits sum.splits)

lemma store_del_correct:
  assumes "wf_store hash st"
  shows "wf_store hash (snd (store_del hash st now k))"
    and "fst (store_del hash st now k) \<longleftrightarrow> live_view hash st now k \<noteq> None"
    and "live_view hash (snd (store_del hash st now k)) t = (live_view hash st t)(k := None)"
proof -
  let ?sh = "snd (shard_del (shard_for hash st k) now k)"
  have "wf_store hash (put_shard hash st k ?sh)"
    by (intro put_shard_wf assms shard_ok_del shard_for_ok)
  then show "wf_store hash (snd (store_del hash st now k))"
    by (simp add: store_del_def split_beta)
  show "fst (store_del hash st now k) \<longleftrightarrow> live_view hash st now k \<noteq> None"
    by (simp add: store_del_def split_beta shard_del_result live_view_def)
  have "live_view hash (put_shard hash st k ?sh) t = (live_view hash st t)(k := None)"
    by (intro put_shard_update assms shard_del_view)
  then show "live_view hash (snd (store_del hash st now k)) t = (live_view hash st t)(k := None)"
    by (simp add: store_del_def split_beta)
qed

lemma store_expire_correct:
  assumes "wf_store hash st" and "store_expire hash st now k n = Inr (ok, st')"
  shows "wf_store hash st'"
    and "ok \<longleftrightarrow> live_view hash st now k \<noteq> None"
    and "now \<le> t \<Longrightarrow> live_view hash st' t = (if ok then (live_view hash st t)
        (k := if now + n * ns_per_s \<le> t then None
              else Some (fst (the (live_view hash st now k)), Some (now + n * ns_per_s)))
        else live_view hash st t)"
proof -
  let ?sh = "shard_for hash st k"
  from assms(2) obtain sh where e: "shard_expire ?sh now k n = Inr (ok, sh)"
    and st': "st' = put_shard hash st k sh"
    by (auto simp: store_expire_def split: sum.splits)
  have "shard_ok (\<lambda>key. shard_index hash st key = shard_index hash st k) sh"
    by (rule shard_ok_expire [OF shard_for_ok [OF assms(1)] refl e])
  with assms(1) show "wf_store hash st'" unfolding st' by (rule put_shard_wf)
  have lv: "live_view hash st now k = shard_view ?sh now k" by (simp add: live_view_def)
  from e have "(ok \<longleftrightarrow> live_view hash st now k \<noteq> None) \<and>
    (now \<le> t \<longrightarrow> live_view hash st' t = (if ok then (live_view hash st t)
        (k := if now + n * ns_per_s \<le> t then None
              else Some (fst (the (live_view hash st now k)), Some (now + n * ns_per_s)))
        else live_view hash st t))"
  proof (cases rule: shard_expire_cases)
    case dead
    with put_shard_same [OF assms(1), of sh t k] show ?thesis by (simp add: lv st')
  next
    case (live v d)
    with put_shard_update [OF assms(1), of sh t k] show ?thesis by (simp add: lv st')
  qed
  then show "ok \<longleftrightarrow> live_view hash st now k \<noteq> None"
    "now \<le> t \<Longrightarrow> live_view hash st' t = (if ok then (live_view hash st t)
        (k := if now + n * ns_per_s \<le> t then None
              else Some (fst (the (live_view hash st now k)), Some (now + n * ns_per_s)))
        else live_view hash st t)"
    by blast+
qed

lemma store_expire_defined:
  "(\<exists>r. store_expire hash st now k n = Inr r) \<longleftrightarrow>
     live_view hash st now k = None \<or> in_int64 (n * ns_per_s) \<and> in_int64 (now + n * ns_per_s)"
proof -
  have "(\<exists>r. store_expire hash st now k n = Inr r) \<longleftrightarrow>
      (\<exists>r. shard_expire (shard_for hash st k) now k n = Inr r)"
    by (auto simp: store_expire_def split: sum.splits)
  also have "\<dots> \<longleftrightarrow> live_view hash st now k = None \<or> (\<exists>d. deadline_after now n = Inr d)"
    by (auto simp: shard_expire_def live_view_def shard_view_def Let_def split: option.splits sum.splits)
  finally show ?thesis by (simp add: deadline_after_Inr)
qed

interpretation store: kv_contract "wf_store hash" "live_view hash" "store_set hash" "store_get hash"
  "store_exists hash" "store_del hash" "store_expire hash" "store_ttl hash" sweep_expired
  for hash :: "string \<Rightarrow> u64"
  by unfold_locales
    (fact live_view_later store_set_correct store_get_correct store_exists_correct
      store_del_correct store_expire_correct store_expire_defined store_ttl_correct store_ttl_defined
      sweep_expired_wf sweep_expired_view | rule store_expire_defined store_ttl_defined)+

subsection \<open>Reachable stores\<close>

text \<open>The stores a program can come to hold: built by the constructor, then any operations.\<close>

inductive store_step :: "(string \<Rightarrow> u64) \<Rightarrow> Store \<Rightarrow> Store \<Rightarrow> bool" for hash where
  step_set: "store_step hash st (store_set hash st k v)"
| step_get: "store_get hash st now k = (r, st') \<Longrightarrow> store_step hash st st'"
| step_exists: "store_exists hash st now k = (b, st') \<Longrightarrow> store_step hash st st'"
| step_del: "store_del hash st now k = (b, st') \<Longrightarrow> store_step hash st st'"
| step_expire: "store_expire hash st now k n = Inr (b, st') \<Longrightarrow> store_step hash st st'"
| step_ttl: "store_ttl hash st now k = Inr (r, st') \<Longrightarrow> store_step hash st st'"
| step_sweep: "sweep_expired st now m = (removed, st') \<Longrightarrow> store_step hash st st'"

inductive store_reachable :: "(string \<Rightarrow> u64) \<Rightarrow> Store \<Rightarrow> bool" for hash where
  reach_make: "make_store n = Inr st \<Longrightarrow> store_reachable hash st"
| reach_step: "store_reachable hash st \<Longrightarrow> store_step hash st st' \<Longrightarrow> store_reachable hash st'"

lemma store_step_wf: "store_step hash st st' \<Longrightarrow> wf_store hash st \<Longrightarrow> wf_store hash st'"
proof (induction rule: store_step.induct)
  case (step_set st k v)
  then show ?case by (rule store.set_inv)
next
  case (step_get st now k r st')
  then show ?case using store.get_inv [of hash st now k] by simp
next
  case (step_exists st now k b st')
  then show ?case using store.exists_inv [of hash st now k] by simp
next
  case (step_del st now k b st')
  then show ?case using store.del_inv [of hash st now k] by simp
next
  case (step_sweep st now m removed st')
  then show ?case using store.sweep_inv [of hash st now m] by simp
qed (blast intro: store.expire_inv store.ttl_inv)+

lemma store_reachable_wf: "store_reachable hash st \<Longrightarrow> wf_store hash st"
  by (induction rule: store_reachable.induct) (auto intro: make_store_wf store_step_wf)

subsection \<open>Properties of the store\<close>

text \<open>A store of one shard holding one key, for the concrete instances below.\<close>

definition demo_hash :: "string \<Rightarrow> u64" where
  "demo_hash key = word_of_nat (length key)"

definition demo_store :: Store where
  "demo_store = store_set demo_hash
     \<lparr>st_shard_count = 2, st_shards = [empty_shard, empty_shard], st_active_expirations = 0\<rparr> ''k'' ''v''"

lemma make_store_2:
  "make_store 2 =
     Inr \<lparr>st_shard_count = 2, st_shards = [empty_shard, empty_shard], st_active_expirations = 0\<rparr>"
  by (simp add: make_store_def normalize_shard_count_def bit_ceil_def pow2_from.simps)
    (simp add: numeral_2_eq_2)

lemma demo_store_wf: "wf_store demo_hash demo_store"
  unfolding demo_store_def
  by (intro store.set_inv make_store_wf(1) [OF make_store_2])

lemma demo_store_view: "live_view demo_hash demo_store now = [''k'' \<mapsto> (''v'', None)]"
  unfolding demo_store_def
  by (simp add: store.set_view [OF make_store_wf(1) [OF make_store_2]] make_store_wf(2) [OF make_store_2])

text \<open>
  C22. In every store the program can reach, from its construction through any sequence of
  operations at any clock readings, the shard of a key exists (no access to the shard vector
  is out of range), the expiration queues are in order, every key with a deadline is still
  in its shard's queue with its current deadline and generation, and keys are only in the
  shard they hash to.
\<close>

theorem store_reachable_invariant:
  assumes "store_reachable hash st"
  shows "wf_store hash st \<and> shard_index hash st key < length (st_shards st)"
  using store_reachable_wf [OF assms] shard_index_bound by blast

theorem store_reachable_invariant_witness:
  "store_reachable demo_hash demo_store \<and>
   wf_store demo_hash demo_store \<and> shard_index demo_hash demo_store ''k'' < length (st_shards demo_store)"
proof -
  have r: "store_reachable demo_hash demo_store"
    unfolding demo_store_def
    by (rule reach_step [OF reach_make [OF make_store_2] step_set])
  show ?thesis using store_reachable_invariant [OF r, of "''k''"] r by blast
qed

text \<open>
  The shard count is the least power of two not below the requested count, and masking
  the hash with it selects the shard that the specification names, hash modulo shard count.
\<close>

theorem make_store_shards:
  assumes "make_store n = Inr st"
  shows "(\<exists>k. unat (st_shard_count st) = 2 ^ k) \<and>
    unat n \<le> unat (st_shard_count st) \<and> unat (st_shard_count st) < 2 * unat n \<and>
    length (st_shards st) = unat (st_shard_count st) \<and>
    shard_index hash st key = unat (hash key) mod unat (st_shard_count st)"
proof -
  from assms have m: "normalize_shard_count n = Inr (st_shard_count st)"
    and len: "length (st_shards st) = unat (st_shard_count st)"
    by (auto simp: make_store_def split: sum.splits)
  note count = normalize_shard_count_Inr [OF m]
  from count(1) obtain k where "unat (st_shard_count st) = 2 ^ k" by blast
  with count len shard_index_mod [OF this] show ?thesis by blast
qed

theorem make_store_shards_witness:
  "make_store 2 =
     Inr \<lparr>st_shard_count = 2, st_shards = [empty_shard, empty_shard], st_active_expirations = 0\<rparr> \<and>
   shard_index demo_hash
     \<lparr>st_shard_count = 2, st_shards = [empty_shard, empty_shard], st_active_expirations = 0\<rparr> ''k'' =
     unat (demo_hash ''k'') mod 2"
  using make_store_shards [OF make_store_2, of demo_hash "''k''"] make_store_2 by simp

text \<open>
  A value that was set is read back at every later time and has no expiration, whatever
  expiration the key had before; other keys read as they did.
\<close>

theorem store_set_then_read:
  assumes "wf_store hash st"
  shows "fst (store_get hash (store_set hash st k v) t k') =
      (if k' = k then Some v else fst (store_get hash st t k')) \<and>
    (\<exists>st'. store_ttl hash (store_set hash st k v) t k =
      Inr (\<lparr>tr_status = kNoTtl, tr_remaining = None\<rparr>, st'))"
  using store.get_set [OF assms] store.get_set_other [OF assms] store.ttl_set [OF assms] by simp

theorem store_set_then_read_witness:
  "wf_store demo_hash demo_store \<and>
   fst (store_get demo_hash (store_set demo_hash demo_store ''k'' ''w'') 5 ''k'') = Some ''w''"
  using store_set_then_read [OF demo_store_wf, of "''k''" "''w''" 5 "''k''"] demo_store_wf by simp

text \<open>
  C12. An expiration set at a time lasts exactly as long as asked: from then on the key reads
  as its value strictly before the deadline and as missing from the deadline on, immediately
  so for zero seconds.
\<close>

theorem store_expire_then_read:
  assumes "wf_store hash st" and "store_expire hash st now k n = Inr (True, st')" and "now \<le> t"
  shows "fst (store_get hash st' t k) =
    (if t < now + n * ns_per_s then fst (store_get hash st now k) else None)"
  by (rule store.get_expire [OF assms])

lemma demo_expire:
  "\<exists>st'. store_expire demo_hash demo_store 0 ''k'' 10 = Inr (True, st')"
proof -
  have "\<exists>r. store_expire demo_hash demo_store 0 ''k'' 10 = Inr r"
    by (subst store.expire_defined [OF demo_store_wf])
      (simp add: demo_store_view in_int64_def int64_max_def int64_min_def ns_per_s_def)
  then obtain ok st' where e: "store_expire demo_hash demo_store 0 ''k'' 10 = Inr (ok, st')" by auto
  with store.expire_result [OF demo_store_wf e] show ?thesis by (simp add: demo_store_view)
qed

theorem store_expire_then_read_witness:
  "\<exists>st'. store_expire demo_hash demo_store 0 ''k'' 10 = Inr (True, st') \<and>
     fst (store_get demo_hash st' 9999999999 ''k'') = Some ''v'' \<and>
     fst (store_get demo_hash st' 10000000000 ''k'') = None"
proof -
  obtain st' where e: "store_expire demo_hash demo_store 0 ''k'' 10 = Inr (True, st')"
    using demo_expire by blast
  show ?thesis
    using e store_expire_then_read [OF demo_store_wf e, of 9999999999]
      store_expire_then_read [OF demo_store_wf e, of 10000000000]
    by (simp add: ns_per_s_def store.get_result [OF demo_store_wf] demo_store_view)
qed

text \<open>
  A key that is missing or has expired is answered the same way by every command: no
  value, does not exist, nothing deleted, no expiration set (and no undefined arithmetic),
  and the missing state for its TTL.
\<close>

theorem store_expired_is_missing:
  assumes "wf_store hash st" and "live_view hash st now k = None"
  shows "fst (store_get hash st now k) = None \<and> \<not> fst (store_exists hash st now k) \<and>
    \<not> fst (store_del hash st now k) \<and> (\<exists>st'. store_expire hash st now k n = Inr (False, st')) \<and>
    (\<exists>st'. store_ttl hash st now k = Inr (\<lparr>tr_status = kMissing, tr_remaining = None\<rparr>, st'))"
  using store.missing [OF assms] by blast

theorem store_expired_is_missing_witness:
  "wf_store demo_hash demo_store \<and> live_view demo_hash demo_store 7 ''other'' = None \<and>
   fst (store_get demo_hash demo_store 7 ''other'') = None"
proof -
  have h: "live_view demo_hash demo_store 7 ''other'' = None" by (simp add: demo_store_view)
  show ?thesis using store_expired_is_missing [OF demo_store_wf h] demo_store_wf h by blast
qed

text \<open>
  C11. The background sweep is safe and, given the budget, complete: at its clock reading and
  ever after it changes no live key (a stale expiration record never removes a newer value),
  and when the budget covers the queues, no expired entry is left in any shard.
\<close>

theorem sweep_expired_correct:
  assumes "wf_store hash st"
  shows "(\<forall>t \<ge> now. live_view hash (snd (sweep_expired st now m)) t = live_view hash st t) \<and>
    ((\<forall>sh\<in>set (st_shards st). length (sh_heap sh) \<le> m) \<longrightarrow>
      (\<forall>k e. sh_entries (shard_for hash (snd (sweep_expired st now m)) k) k = Some e \<longrightarrow>
        \<not> is_expired e now))"
proof (intro conjI allI impI)
  fix t
  assume "now \<le> t"
  with assms show "live_view hash (snd (sweep_expired st now m)) t = live_view hash st t"
    by (rule store.sweep_view)
next
  fix k e
  assume budget: "\<forall>sh\<in>set (st_shards st). length (sh_heap sh) \<le> m"
    and e: "sh_entries (shard_for hash (snd (sweep_expired st now m)) k) k = Some e"
  have "shard_for hash st k \<in> set (st_shards st)"
    using shard_index_bound [OF assms] by (simp add: shard_for_def)
  with budget have "length (sh_heap (shard_for hash st k)) \<le> m" by blast
  with shard_for_ok [OF assms, of k] e show "\<not> is_expired e now"
    unfolding sweep_expired_shard_for [OF assms] by (blast dest: sweep_shard_complete)
qed

definition demo_expired :: Store where
  "demo_expired = snd (projr (store_expire demo_hash demo_store 0 ''k'' 0))"

lemma demo_expired_Inr: "\<exists>b. store_expire demo_hash demo_store 0 ''k'' 0 = Inr (b, demo_expired)"
proof -
  have "\<exists>r. store_expire demo_hash demo_store 0 ''k'' 0 = Inr r"
    by (subst store.expire_defined [OF demo_store_wf])
      (simp add: in_int64_def int64_max_def int64_min_def)
  then show ?thesis by (auto simp: demo_expired_def)
qed

lemma demo_expired_wf: "wf_store demo_hash demo_expired"
  using demo_expired_Inr store.expire_inv [OF demo_store_wf] by blast

lemma demo_expired_facts:
  "list_all (\<lambda>sh. length (sh_heap sh) \<le> 20) (st_shards demo_expired)"
  "sh_entries (shard_for demo_hash demo_expired ''k'') ''k'' \<noteq> None"
  "case sh_entries (shard_for demo_hash (snd (sweep_expired demo_expired 3 20)) ''k'') ''k'' of
     None \<Rightarrow> True | Some e \<Rightarrow> is_expired e 3"
  by code_simp+

theorem sweep_expired_correct_witness:
  "wf_store demo_hash demo_expired \<and>
   list_all (\<lambda>sh. length (sh_heap sh) \<le> 20) (st_shards demo_expired) \<and>
   sh_entries (shard_for demo_hash demo_expired ''k'') ''k'' \<noteq> None \<and>
   live_view demo_hash (snd (sweep_expired demo_expired 3 20)) 8 = live_view demo_hash demo_expired 8 \<and>
   sh_entries (shard_for demo_hash (snd (sweep_expired demo_expired 3 20)) ''k'') ''k'' = None"
  using sweep_expired_correct [OF demo_expired_wf, of 3 20] demo_expired_wf demo_expired_facts
  by (auto simp: list_all_iff split: option.splits)

text \<open>
  C27. EXPIRE accepts seconds that its arithmetic cannot represent: for a live key, every
  number of seconds above 9223372036, which the parser lets through, makes the conversion to
  nanoseconds overflow a signed 64-bit integer, which is undefined behaviour.
\<close>

theorem store_expire_overflow:
  assumes "live_view hash st now k \<noteq> None" and "9223372036 < n"
  shows "store_expire hash st now k n = Inl Signed_overflow"
proof -
  have "\<not> in_int64 (n * ns_per_s)"
    using assms(2) by (simp add: in_int64_def int64_max_def ns_per_s_def)
  then have "deadline_after now n = Inl Signed_overflow" by (simp add: deadline_after_Inl)
  with assms(1) show ?thesis
    by (auto simp: store_expire_def shard_expire_def live_view_def shard_view_def
        entry_view_def split: option.splits if_splits)
qed

theorem store_expire_overflow_witness:
  "live_view demo_hash demo_store 0 ''k'' \<noteq> None \<and>
   store_expire demo_hash demo_store 0 ''k'' 9223372036854775807 = Inl Signed_overflow"
proof -
  have h: "live_view demo_hash demo_store 0 ''k'' \<noteq> None" by (simp add: demo_store_view)
  show ?thesis using store_expire_overflow [OF h, of 9223372036854775807] h by simp
qed

end
