(* ===== verification/Dispatcher.thy ===== *)
theory Dispatcher
  imports Resp_Serializer Store_Contract
begin

text \<open>
  Command execution, \<^verbatim>\<open>src/src/command/dispatcher.cpp\<close>, and its refinement of the command
  table of \<^verbatim>\<open>SPEC.md\<close>: an abstract key-value map with deadlines (\<open>spec_exec\<close>). The
  refinement is proved here for one command that runs alone; \<^verbatim>\<open>Store_Concurrency\<close> proves it for
  interleaved histories.
\<close>

subsection \<open>The dispatcher\<close>

definition dispatch_ping :: string where
  "dispatch_ping = encode_simple_string ''PONG''"

definition dispatch_set :: "(string \<Rightarrow> u64) \<Rightarrow> Store \<Rightarrow> Command \<Rightarrow> string \<times> Store" where
  "dispatch_set hash st c =
     (encode_simple_string ''OK'', store_set hash st (cmd_key c) (cmd_value c))"

definition dispatch_get :: "(string \<Rightarrow> u64) \<Rightarrow> Store \<Rightarrow> int \<Rightarrow> Command \<Rightarrow> string \<times> Store" where
  "dispatch_get hash st now c =
     (case store_get hash st now (cmd_key c) of
        (None, st') \<Rightarrow> (encode_null_bulk_string, st')
      | (Some v, st') \<Rightarrow> (encode_bulk_string v, st'))"

definition dispatch_del :: "(string \<Rightarrow> u64) \<Rightarrow> Store \<Rightarrow> int \<Rightarrow> Command \<Rightarrow> string \<times> Store" where
  "dispatch_del hash st now c =
     (case store_del hash st now (cmd_key c) of
        (removed, st') \<Rightarrow> (encode_integer (if removed then 1 else 0), st'))"

definition dispatch_exists :: "(string \<Rightarrow> u64) \<Rightarrow> Store \<Rightarrow> int \<Rightarrow> Command \<Rightarrow> string \<times> Store" where
  "dispatch_exists hash st now c =
     (case store_exists hash st now (cmd_key c) of
        (found, st') \<Rightarrow> (encode_integer (if found then 1 else 0), st'))"

definition dispatch_expire ::
  "(string \<Rightarrow> u64) \<Rightarrow> Store \<Rightarrow> int \<Rightarrow> Command \<Rightarrow> ub + string \<times> Store" where
  "dispatch_expire hash st now c =
     (case store_expire hash st now (cmd_key c) (cmd_seconds c) of
        Inl u \<Rightarrow> Inl u
      | Inr (set_ok, st') \<Rightarrow> Inr (encode_integer (if set_ok then 1 else 0), st'))"

definition ttl_reply :: "TtlResult \<Rightarrow> string" where
  "ttl_reply result = (case tr_status result of
      kMissing \<Rightarrow> encode_integer (- 2)
    | kNoTtl \<Rightarrow> encode_integer (- 1)
    | kHasTtl \<Rightarrow> encode_integer (the (tr_remaining result)))"

definition dispatch_ttl ::
  "(string \<Rightarrow> u64) \<Rightarrow> Store \<Rightarrow> int \<Rightarrow> Command \<Rightarrow> ub + string \<times> Store" where
  "dispatch_ttl hash st now c =
     (case store_ttl hash st now (cmd_key c) of
        Inl u \<Rightarrow> Inl u
      | Inr (result, st') \<Rightarrow> Inr (ttl_reply result, st'))"

definition dispatch :: "(string \<Rightarrow> u64) \<Rightarrow> Store \<Rightarrow> int \<Rightarrow> Command \<Rightarrow> ub + string \<times> Store" where
  "dispatch hash st now c = (case cmd_type c of
      kPing \<Rightarrow> Inr (dispatch_ping, st)
    | kSet \<Rightarrow> Inr (dispatch_set hash st c)
    | kGet \<Rightarrow> Inr (dispatch_get hash st now c)
    | kDel \<Rightarrow> Inr (dispatch_del hash st now c)
    | kExists \<Rightarrow> Inr (dispatch_exists hash st now c)
    | kExpire \<Rightarrow> dispatch_expire hash st now c
    | kTtl \<Rightarrow> dispatch_ttl hash st now c)"

subsection \<open>The command table\<close>

text \<open>
  The map holds the keys that are live at the time of the command; a deadline that is not
  after it removes the key.
\<close>

definition spec_exec :: "int \<Rightarrow> kv_view \<Rightarrow> Command \<Rightarrow> Reply \<times> kv_view" where
  "spec_exec now m c = (let key = cmd_key c in
     case cmd_type c of
       kPing \<Rightarrow> (SimpleReply ''PONG'', m)
     | kSet \<Rightarrow> (SimpleReply ''OK'', m(key \<mapsto> (cmd_value c, None)))
     | kGet \<Rightarrow> (case m key of None \<Rightarrow> NullReply | Some (v, d) \<Rightarrow> BulkReply v, m)
     | kDel \<Rightarrow> (IntegerReply (if m key = None then 0 else 1), m(key := None))
     | kExists \<Rightarrow> (IntegerReply (if m key = None then 0 else 1), m)
     | kExpire \<Rightarrow> (case m key of
           None \<Rightarrow> (IntegerReply 0, m)
         | Some (v, d) \<Rightarrow> (IntegerReply 1,
             m(key := if cmd_seconds c \<le> 0 then None
                      else Some (v, Some (now + cmd_seconds c * ns_per_s)))))
     | kTtl \<Rightarrow> (IntegerReply (case m key of
           None \<Rightarrow> - 2
         | Some (v, None) \<Rightarrow> - 1
         | Some (v, Some d) \<Rightarrow> (d - now) div ns_per_s), m))"

text \<open>The commands whose time arithmetic fits the clock's 64-bit representation.\<close>

definition time_in_range :: "int \<Rightarrow> kv_view \<Rightarrow> Command \<Rightarrow> bool" where
  "time_in_range now m c \<longleftrightarrow>
     (case (cmd_type c, m (cmd_key c)) of
        (kExpire, Some e) \<Rightarrow>
          in_int64 (cmd_seconds c * ns_per_s) \<and> in_int64 (now + cmd_seconds c * ns_per_s)
      | (kTtl, Some (v, Some d)) \<Rightarrow> in_int64 (d - now)
      | _ \<Rightarrow> True)"

subsection \<open>Refinement\<close>

lemma dispatch_defined:
  assumes "wf_store hash st"
  shows "(\<exists>r. dispatch hash st now c = Inr r) \<longleftrightarrow> time_in_range now (live_view hash st now) c"
  using store.expire_defined [OF assms, of now "cmd_key c" "cmd_seconds c"]
    store.ttl_defined [OF assms, of now "cmd_key c"]
  by (cases "cmd_type c")
    (auto simp: dispatch_def dispatch_expire_def dispatch_ttl_def time_in_range_def split: option.splits sum.splits)

lemma purge_clear: "purge t (m(k := None)) = (purge t m)(k := None)"
  by (auto simp: purge_def fun_eq_iff)

lemma purge_persistent: "purge t (m(k \<mapsto> (v, None))) = (purge t m)(k \<mapsto> (v, None))"
  by (auto simp: purge_def fun_eq_iff)

lemma purge_deadline:
  "purge t (m(k \<mapsto> (v, Some d))) = (purge t m)(k := if d \<le> t then None else Some (v, Some d))"
  by (auto simp: purge_def fun_eq_iff)

lemmas purge_simps = purge_clear purge_persistent purge_deadline

lemma expire_refines:
  assumes wf: "wf_store hash st" and c: "cmd_type c = kExpire"
    and d: "dispatch hash st now c = Inr (resp, st')" and t: "now \<le> t"
  shows "resp = encode_reply (fst (spec_exec now (live_view hash st now) c)) \<and>
    live_view hash st' t = purge t (snd (spec_exec now (live_view hash st now) c))"
proof -
  let ?m = "live_view hash st now" and ?k = "cmd_key c" and ?n = "cmd_seconds c"
  from d c obtain ok where e: "store_expire hash st now ?k ?n = Inr (ok, st')"
    and resp: "resp = encode_integer (if ok then 1 else 0)"
    by (auto simp: dispatch_def dispatch_expire_def split: sum.splits)
  note ok = store.expire_result [OF wf e] and view = store.expire_view [OF wf e t]
    and later = live_view_later [OF t, of hash st]
  show ?thesis
  proof (cases "?m ?k")
    case None
    with ok view later c show ?thesis by (simp add: spec_exec_def resp)
  next
    case (Some vd)
    then obtain v dl where m: "?m ?k = Some (v, dl)" by (cases vd) auto
    have "now + ?n * ns_per_s \<le> now \<longleftrightarrow> ?n \<le> 0" by (simp add: ns_per_s_def)
    with m ok view later c t show ?thesis
      by (auto simp: spec_exec_def resp purge_simps ns_per_s_def)
  qed
qed

lemma ttl_refines:
  assumes wf: "wf_store hash st" and c: "cmd_type c = kTtl"
    and d: "dispatch hash st now c = Inr (resp, st')" and t: "now \<le> t"
  shows "resp = encode_reply (fst (spec_exec now (live_view hash st now) c)) \<and>
    live_view hash st' t = purge t (snd (spec_exec now (live_view hash st now) c))"
proof -
  from d c obtain r where e: "store_ttl hash st now (cmd_key c) = Inr (r, st')" and resp: "resp = ttl_reply r"
    by (auto simp: dispatch_def dispatch_ttl_def split: sum.splits)
  from store.ttl_result [OF wf e] store.ttl_view [OF wf e t] live_view_later [OF t, of hash st] c
  show ?thesis by (simp add: spec_exec_def resp ttl_reply_def spec_ttl_def split: option.split)
qed

lemma dispatch_wf:
  assumes "wf_store hash st" and "dispatch hash st now c = Inr (resp, st')"
  shows "wf_store hash st'"
  using assms store.set_inv [OF assms(1)] store.get_inv [OF assms(1)] store.del_inv [OF assms(1)]
    store.exists_inv [OF assms(1)] store.expire_inv [OF assms(1)] store.ttl_inv [OF assms(1)]
  by (cases "cmd_type c")
    (auto simp: dispatch_def dispatch_set_def dispatch_get_def dispatch_del_def dispatch_exists_def
      dispatch_expire_def dispatch_ttl_def split_beta split: option.splits sum.splits)

lemma dispatch_refines:
  assumes wf: "wf_store hash st" and d: "dispatch hash st now c = Inr (resp, st')" and t: "now \<le> t"
  shows "resp = encode_reply (fst (spec_exec now (live_view hash st now) c)) \<and>
    live_view hash st' t = purge t (snd (spec_exec now (live_view hash st now) c))"
proof -
  note later = live_view_later [OF t, of hash st]
  show ?thesis
  proof (cases "cmd_type c")
    case kPing
    with d later show ?thesis by (auto simp: dispatch_def dispatch_ping_def spec_exec_def)
  next
    case kSet
    with d later store.set_view [OF wf] show ?thesis
      by (auto simp: dispatch_def dispatch_set_def spec_exec_def purge_simps)
  next
    case kGet
    with d later store.get_result [OF wf, of now "cmd_key c"] store.get_view [OF wf t, of "cmd_key c"]
    show ?thesis
      by (auto simp: dispatch_def dispatch_get_def spec_exec_def split: prod.splits option.splits)
  next
    case kDel
    with d later store.del_result [OF wf, of now "cmd_key c"] store.del_view [OF wf, of now "cmd_key c" t]
    show ?thesis
      by (auto simp: dispatch_def dispatch_del_def spec_exec_def purge_simps Let_def simp del: not_None_eq
        split: prod.splits)
  next
    case kExists
    with d later store.exists_result [OF wf, of now "cmd_key c"] store.exists_view [OF wf t, of "cmd_key c"]
    show ?thesis
      by (auto simp: dispatch_def dispatch_exists_def spec_exec_def Let_def simp del: not_None_eq
        split: prod.splits)
  next
    case kExpire
    show ?thesis by (rule expire_refines [OF wf kExpire d t])
  next
    case kTtl
    show ?thesis by (rule ttl_refines [OF wf kTtl d t])
  qed
qed

subsection \<open>Histories\<close>

text \<open>The abstract map under a sequence of commands with their clock readings.\<close>

fun spec_events :: "kv_view \<Rightarrow> (int \<times> Command) list \<Rightarrow> Reply list" where
  "spec_events m [] = []"
| "spec_events m ((now, c) # es) =
     (case spec_exec now (purge now m) c of (r, m') \<Rightarrow> r # spec_events m' es)"

fun events_in_range :: "kv_view \<Rightarrow> (int \<times> Command) list \<Rightarrow> bool" where
  "events_in_range m [] = True"
| "events_in_range m ((now, c) # es) =
     (time_in_range now (purge now m) c \<and> events_in_range (snd (spec_exec now (purge now m) c)) es)"

definition cmd :: "CommandType \<Rightarrow> string \<Rightarrow> string \<Rightarrow> int \<Rightarrow> Command" where
  "cmd ty key v n = \<lparr>cmd_type = ty, cmd_key = key, cmd_value = v, cmd_seconds = n\<rparr>"

end
