(* ===== verification/Store_Concurrency.thy ===== *)
theory Store_Concurrency
  imports Dispatcher
begin

text \<open>
  The store under several threads. The mutex of a shard makes its critical sections atomic; an
  operation of \<^verbatim>\<open>src/src/storage/store.cpp\<close> is one or more of them. A read that meets an expired
  entry gives up the shared lock and erases the entry under the exclusive lock in a second
  section, with the clock reading of the first; a sweep takes the shards' locks one after the
  other, all with one clock reading. A history is the sequence of critical sections of all
  threads in the order the locks admit them; \<^verbatim>\<open>Store_Lagging\<close> says what its replies are.
\<close>

subsection \<open>Critical sections\<close>

datatype critical_section =
    Command_section Command
  | Erase_section string
  | Sweep_section nat nat

definition read_only :: "Command \<Rightarrow> bool" where
  "read_only c \<longleftrightarrow> cmd_type c = kGet \<or> cmd_type c = kExists \<or> cmd_type c = kTtl"

text \<open>
  The first section of a command: the only one of a command that writes, the one under the
  shared lock of a command that reads, which decides the reply and leaves the store alone.
\<close>

definition command_section ::
  "(string \<Rightarrow> u64) \<Rightarrow> Store \<Rightarrow> int \<Rightarrow> Command \<Rightarrow> ub + string \<times> Store" where
  "command_section hash st now c =
     (if read_only c then map_sum id (\<lambda>(response, st'). (response, st)) (dispatch hash st now c)
      else dispatch hash st now c)"

definition needs_erase :: "(string \<Rightarrow> u64) \<Rightarrow> Store \<Rightarrow> int \<Rightarrow> Command \<Rightarrow> bool" where
  "needs_erase hash st now c \<longleftrightarrow>
     read_only c \<and> read_live_shared (shard_for hash st (cmd_key c)) now (cmd_key c) = ExpiredEntry"

definition erase_section :: "(string \<Rightarrow> u64) \<Rightarrow> Store \<Rightarrow> int \<Rightarrow> string \<Rightarrow> Store" where
  "erase_section hash st now key =
     put_shard hash st key (read_live_exclusive (shard_for hash st key) now key)"

definition sweep_section :: "Store \<Rightarrow> int \<Rightarrow> nat \<Rightarrow> nat \<Rightarrow> Store" where
  "sweep_section st now i max_items =
     st\<lparr>st_shards := (st_shards st)[i := fst (sweep_shard max_items now (st_shards st ! i) 0)]\<rparr>"

fun run_sections ::
  "(string \<Rightarrow> u64) \<Rightarrow> Store \<Rightarrow> (int \<times> critical_section) list \<Rightarrow> ub + string list \<times> Store" where
  "run_sections hash st [] = Inr ([], st)"
| "run_sections hash st ((now, Command_section c) # ss) =
     (case command_section hash st now c of
        Inl u \<Rightarrow> Inl u
      | Inr (response, st') \<Rightarrow> map_sum id (map_prod (Cons response) id) (run_sections hash st' ss))"
| "run_sections hash st ((now, Erase_section key) # ss) = run_sections hash (erase_section hash st now key) ss"
| "run_sections hash st ((now, Sweep_section i max_items) # ss) =
     run_sections hash (sweep_section st now i max_items) ss"

text \<open>The commands of a history, and that none reads the clock before what came earlier.\<close>

fun commands_run :: "(int \<times> critical_section) list \<Rightarrow> (int \<times> Command) list" where
  "commands_run [] = []"
| "commands_run ((now, Command_section c) # ss) = (now, c) # commands_run ss"
| "commands_run ((now, Erase_section key) # ss) = commands_run ss"
| "commands_run ((now, Sweep_section i max_items) # ss) = commands_run ss"

fun clock_in_order :: "(int \<times> critical_section) list \<Rightarrow> bool" where
  "clock_in_order [] = True"
| "clock_in_order ((now, s) # ss) =
     (list_all (\<lambda>e. now \<le> fst e) (commands_run ss) \<and> clock_in_order ss)"

subsection \<open>Histories\<close>

definition log_commands :: "(int \<times> critical_section) list \<Rightarrow> Command list" where
  "log_commands log = map snd (commands_run log)"

lemma commands_run_append [simp]: "commands_run (ss @ ss') = commands_run ss @ commands_run ss'"
  by (induction ss rule: commands_run.induct) simp_all

lemma run_sections_append:
  "run_sections hash st (ss @ ss') = (case run_sections hash st ss of
     Inl u \<Rightarrow> Inl u
   | Inr (replies, st') \<Rightarrow> map_sum id (map_prod ((@) replies) id) (run_sections hash st' ss'))"
proof (induction hash st ss rule: run_sections.induct)
  case (1 hash st)
  show ?case by (cases "run_sections hash st ss'") (auto simp: map_prod_def)
next
  case (2 hash st now c ss)
  then show ?case
    by (cases "command_section hash st now c")
      (auto simp: map_sum_def map_prod_def split: sum.splits prod.splits)
qed simp_all

lemma log_commands_simps [simp]:
  "log_commands [] = []" "log_commands (ss @ ss') = log_commands ss @ log_commands ss'"
  "log_commands ((now, Command_section c) # ss) = c # log_commands ss"
  "log_commands ((now, Erase_section k) # ss) = log_commands ss"
  "log_commands ((now, Sweep_section i m) # ss) = log_commands ss"
  by (simp_all add: log_commands_def)

lemma run_sections_length:
  "run_sections hash st ss = Inr (replies, st') \<Longrightarrow> length replies = length (log_commands ss)"
proof (induction hash st ss arbitrary: replies rule: run_sections.induct)
  case (2 hash st now c ss)
  then show ?case by (auto simp: map_sum_def map_prod_def split: sum.splits prod.splits)
qed auto

subsection \<open>Operations as sections\<close>

lemma put_shard_unchanged: "wf_store hash st \<Longrightarrow> put_shard hash st key (shard_for hash st key) = st"
  by (simp add: put_shard_def shard_for_def)

lemma read_live_sections:
  assumes "wf_store hash st"
  shows "put_shard hash st key (snd (read_live (shard_for hash st key) now key)) =
    (if read_live_shared (shard_for hash st key) now key = ExpiredEntry
     then erase_section hash st now key else st)"
  using put_shard_unchanged [OF assms]
  by (simp add: read_live_def erase_section_def split: SharedRead.split)

text \<open>A command that runs alone is its first section, then the second one if that is called for.\<close>

lemma dispatch_sections:
  assumes "wf_store hash st"
  shows "dispatch hash st now c = map_sum id (\<lambda>(response, st').
    (response, if needs_erase hash st now c then erase_section hash st' now (cmd_key c) else st'))
    (command_section hash st now c)"
  using read_live_sections [OF assms, of "cmd_key c" now]
  by (cases "cmd_type c"; cases "read_live (shard_for hash st (cmd_key c)) now (cmd_key c)")
    (auto simp: command_section_def needs_erase_def read_only_def dispatch_def dispatch_get_def dispatch_exists_def
      dispatch_ttl_def store_get_def store_exists_def store_ttl_def map_sum_def split: option.splits sum.splits)

lemma sweep_sections_map:
  "n \<le> length (st_shards st) \<Longrightarrow>
   fold (\<lambda>i s. sweep_section s now i max_items) [0..<n] st =
     st\<lparr>st_shards := map (\<lambda>sh. fst (sweep_shard max_items now sh 0)) (take n (st_shards st)) @ drop n (st_shards st)\<rparr>"
proof (induction n)
  case (Suc n)
  then show ?case
    by (simp add: sweep_section_def nth_append take_Suc_conv_app_nth list_update_append Cons_nth_drop_Suc [symmetric])
qed simp

text \<open>A sweep is the sections of all shards in turn, followed by the update of the counter.\<close>

lemma sweep_expired_sections:
  "st_shards (snd (sweep_expired st now max_items)) =
   st_shards (fold (\<lambda>i s. sweep_section s now i max_items) [0..<length (st_shards st)] st)"
  by (simp add: sweep_expired_shards sweep_sections_map)

subsection \<open>Refinement\<close>

lemma erase_section_correct:
  assumes "wf_store hash st"
  shows "wf_store hash (erase_section hash st now key)"
    and "now \<le> t \<Longrightarrow> live_view hash (erase_section hash st now key) t = live_view hash st t"
proof -
  show "wf_store hash (erase_section hash st now key)"
    unfolding erase_section_def
    by (intro put_shard_wf [OF assms] shard_ok_read_live_exclusive shard_for_ok [OF assms])
  show "live_view hash (erase_section hash st now key) t = live_view hash st t" if "now \<le> t"
    unfolding erase_section_def by (rule put_shard_same [OF assms read_live_exclusive_view [OF that]])
qed

lemma sweep_section_correct:
  assumes "wf_store hash st"
  shows "wf_store hash (sweep_section st now i max_items)"
    and "now \<le> t \<Longrightarrow> live_view hash (sweep_section st now i max_items) t = live_view hash st t"
proof -
  let ?st = "sweep_section st now i max_items"
  have index: "shard_index hash ?st key = shard_index hash st key" for key
    by (simp add: shard_index_def sweep_section_def)
  have nth: "st_shards ?st ! j =
      (if j = i then fst (sweep_shard max_items now (st_shards st ! i) 0) else st_shards st ! j)"
    if "j < length (st_shards st)" for j
    using that by (simp add: sweep_section_def nth_list_update)
  show "wf_store hash ?st"
    using assms shard_ok_sweep unfolding wf_store_def index
    by (cases "i < length (st_shards st)") (auto simp: sweep_section_def nth_list_update)
  show "live_view hash ?st t = live_view hash st t" if "now \<le> t"
    using nth [OF shard_index_bound [OF assms]] sweep_shard_view [OF that]
    by (simp add: live_view_def shard_for_def index fun_eq_iff)
qed

lemma spec_exec_read_only: "read_only c \<Longrightarrow> snd (spec_exec now m c) = m"
  by (auto simp: spec_exec_def read_only_def Let_def)

lemma command_section_refines:
  assumes wf: "wf_store hash st" and t: "now \<le> t" and d: "command_section hash st now c = Inr (response, st')"
    and s: "spec_exec now (live_view hash st now) c = (r, m')"
  shows "response = encode_reply r \<and> wf_store hash st' \<and> live_view hash st' t = purge t m'"
proof -
  from d obtain st1 where d1: "dispatch hash st now c = Inr (response, st1)"
    and st': "st' = (if read_only c then st else st1)"
    by (auto simp: command_section_def map_sum_def split: if_splits sum.splits)
  note ref = dispatch_refines [OF wf d1 t] and wf1 = dispatch_wf [OF wf d1]
  have "live_view hash st t = purge t m'" if "read_only c"
    using spec_exec_read_only [OF that, of now "live_view hash st now"] s store.view_later [OF t, of hash st]
    by simp
  with ref wf wf1 s st' show ?thesis by auto
qed

lemma command_section_defined:
  assumes "wf_store hash st"
  shows "(\<exists>r. command_section hash st now c = Inr r) \<longleftrightarrow> time_in_range now (live_view hash st now) c"
  using dispatch_defined [OF assms, of now c]
  by (cases "dispatch hash st now c") (auto simp: command_section_def)

end
