(* ===== verification/Store_Lagging.thy ===== *)
theory Store_Lagging
  imports Store_Concurrency
begin

text \<open>
  The store when clock readings are not in the order of the locks. Every operation of
  \<^verbatim>\<open>src/src/storage/store.cpp\<close> reads the clock before it takes the lock of its shard, so a thread
  that is held up in between runs its critical section with a reading that is older than those
  of sections admitted before it. What the store then still guarantees is a map whose entries
  keep their deadlines (\<open>timed_update\<close>), on which each command takes effect at an \<^emph>\<open>effective
  time\<close>: its own reading, or, when the key it names was removed meanwhile because a later
  reading had found it expired, that later reading.
\<close>

subsection \<open>The map with deadlines\<close>

text \<open>
  Unlike the command table, the map forgets nothing as time passes: a key is live at \<open>t\<close> when
  \<^const>\<open>purge\<close> keeps it, and \<open>t\<close> may be earlier than the times of commands before.
\<close>

definition timed_update :: "int \<Rightarrow> kv_view \<Rightarrow> Command \<Rightarrow> kv_view" where
  "timed_update t m c = (let key = cmd_key c in
     case cmd_type c of
       kSet \<Rightarrow> m(key \<mapsto> (cmd_value c, None))
     | kDel \<Rightarrow> m(key := None)
     | kExpire \<Rightarrow> m(key := map_option (\<lambda>(v, d). (v, Some (t + cmd_seconds c * ns_per_s))) (purge t m key))
     | _ \<Rightarrow> m)"

fun timed_events :: "kv_view \<Rightarrow> (int \<times> Command) list \<Rightarrow> Reply list" where
  "timed_events m [] = []"
| "timed_events m ((t, c) # es) = fst (spec_exec t (purge t m) c) # timed_events (timed_update t m c) es"

fun timed_in_range :: "kv_view \<Rightarrow> (int \<times> Command) list \<Rightarrow> bool" where
  "timed_in_range m [] = True"
| "timed_in_range m ((t, c) # es) \<longleftrightarrow>
     time_in_range t (purge t m) c \<and> timed_in_range (timed_update t m c) es"

text \<open>
  The effective times a history allows its commands, \<open>seen\<close> being the readings of the sections
  before it.
\<close>

fun effective :: "int set \<Rightarrow> (int \<times> critical_section) list \<Rightarrow> int list \<Rightarrow> bool" where
  "effective seen [] ts \<longleftrightarrow> ts = []"
| "effective seen ((now, Command_section c) # ss) ts \<longleftrightarrow>
     (case ts of
        [] \<Rightarrow> False
      | t # ts' \<Rightarrow> (t = now \<or> now < t \<and> t \<in> seen) \<and> effective (insert now seen) ss ts')"
| "effective seen ((now, Erase_section key) # ss) ts \<longleftrightarrow> effective (insert now seen) ss ts"
| "effective seen ((now, Sweep_section i max_items) # ss) ts \<longleftrightarrow> effective (insert now seen) ss ts"

lemma effective_length: "effective seen ss ts \<Longrightarrow> length ts = length (log_commands ss)"
  by (induction seen ss ts rule: effective.induct) (auto split: list.splits)

lemma effective_in_order:
  assumes "effective seen ss ts" and "clock_in_order ss" and "\<forall>e\<in>set (commands_run ss). \<forall>t\<in>seen. t \<le> fst e"
  shows "zip ts (log_commands ss) = commands_run ss"
  using assms
proof (induction seen ss ts rule: effective.induct)
  case (2 seen now c ss ts)
  then show ?case by (fastforce simp: list_all_iff split: list.splits)
qed (auto simp: list_all_iff)

subsection \<open>Commands in order\<close>

text \<open>With readings in order, the map with deadlines is the command table.\<close>

lemma purge_key: "purge t m k = purge t' m' k'" if "m k = m' k'" "t = t'"
  using that by (simp add: purge_def)

lemma purge_purge: "t \<le> t' \<Longrightarrow> purge t' (purge t m) = purge t' m"
  by (auto simp: purge_def fun_eq_iff split: option.splits)

lemma timed_update_spec:
  assumes "now \<le> t" and "purge now m = purge now m'"
  shows "purge t (timed_update now m c) = purge t (snd (spec_exec now (purge now m') c))"
proof -
  have p: "purge t m = purge t (purge now m')" using assms by (metis purge_purge)
  have pos: "now + n * ns_per_s \<le> t" if "n \<le> 0" for n
    using assms(1) that by (simp add: ns_per_s_def)
  have gone: "purge t (purge now m') k = None" if "purge now m' k = None" for k
    using that by (simp add: purge_def)
  show ?thesis
    by (cases "cmd_type c"; cases "purge now m' (cmd_key c)")
      (auto simp: timed_update_def spec_exec_def p assms(2) purge_simps pos gone fun_upd_idem split: prod.splits)
qed

lemma timed_events_in_order:
  assumes "sorted (map fst es)" and "\<And>t. t \<in> fst ` set es \<Longrightarrow> purge t m = purge t m'"
  shows "timed_events m es = spec_events m' es \<and> timed_in_range m es = events_in_range m' es"
  using assms
proof (induction es arbitrary: m m')
  case (Cons e es)
  obtain t c where e: "e = (t, c)" by (cases e)
  have here: "purge t m = purge t m'" using Cons.prems(2) [of t] by (simp add: e)
  obtain r m1 where s: "spec_exec t (purge t m') c = (r, m1)" by (cases "spec_exec t (purge t m') c")
  have "purge t' (timed_update t m c) = purge t' m1" if "t' \<in> fst ` set es" for t'
    using timed_update_spec [OF _ here, of t' c] Cons.prems(1) that s by (auto simp: e)
  from Cons.IH [OF _ this] Cons.prems(1) show ?case by (simp add: e here s)
qed simp

lemma clock_in_order_sorted: "clock_in_order ss \<Longrightarrow> sorted (map fst (commands_run ss))"
  by (induction ss rule: commands_run.induct) (auto simp: list_all_iff)

subsection \<open>What is stored\<close>

text \<open>The keys a store holds, expired or not.\<close>

definition stored :: "(string \<Rightarrow> u64) \<Rightarrow> Store \<Rightarrow> kv_view" where
  "stored hash st key = map_option (\<lambda>e. (en_value e, en_deadline e)) (sh_entries (shard_for hash st key) key)"

lemma live_view_stored: "live_view hash st t = purge t (stored hash st)"
  by (auto simp: live_view_def stored_def purge_def shard_view_def is_expired_def fun_eq_iff split: option.split)

lemma stored_put_shard:
  assumes "wf_store hash st" and "\<And>k. k \<noteq> key \<Longrightarrow> sh_entries sh k = sh_entries (shard_for hash st key) k"
  shows "stored hash (put_shard hash st key sh) =
    (stored hash st)(key := map_option (\<lambda>e. (en_value e, en_deadline e)) (sh_entries sh key))"
proof (rule ext)
  fix k
  have "shard_for hash (put_shard hash st key sh) k =
      (if shard_index hash st k = shard_index hash st key then sh else shard_for hash st k)"
    using shard_index_bound [OF assms(1)] by (auto simp: shard_for_def put_shard_def shard_index_def)
  then show "stored hash (put_shard hash st key sh) k =
      ((stored hash st)(key := map_option (\<lambda>e. (en_value e, en_deadline e)) (sh_entries sh key))) k"
    using assms(2) by (auto simp: stored_def shard_for_def)
qed

text \<open>Erasures and sweeps drop only keys that are expired at their reading.\<close>

definition drops :: "int \<Rightarrow> kv_view \<Rightarrow> kv_view \<Rightarrow> bool" where
  "drops now m m' \<longleftrightarrow> (\<forall>k. m' k = m k \<or> m' k = None \<and> purge now m k = None)"

lemma erase_section_drops:
  assumes "wf_store hash st"
  shows "drops now (stored hash st) (stored hash (erase_section hash st now key))"
proof -
  let ?sh = "shard_for hash st key"
  have "stored hash (erase_section hash st now key) = (stored hash st)(key :=
      map_option (\<lambda>e. (en_value e, en_deadline e)) (sh_entries (read_live_exclusive ?sh now key) key))"
    unfolding erase_section_def
    by (intro stored_put_shard [OF assms]) (simp add: read_live_exclusive_def split: option.split)
  then show ?thesis
    by (auto simp: drops_def stored_def purge_def read_live_exclusive_def is_expired_def split: option.splits)
qed

lemma sweep_shard_entries:
  "sh_entries (fst (sweep_shard budget now sh removed)) k = sh_entries sh k \<or>
   sh_entries (fst (sweep_shard budget now sh removed)) k = None \<and>
     (\<exists>e. sh_entries sh k = Some e \<and> is_expired e now)"
proof (induction budget now sh removed rule: sweep_shard.induct)
  case (2 budget now sh removed)
  let ?c = "pq_top (sh_heap sh)"
  have due: "\<exists>e. sh_entries sh (ec_key ?c) = Some e \<and> is_expired e now"
    if "candidate_matches sh ?c" "\<not> now < ec_deadline ?c"
    using that by (auto simp: candidate_matches_def is_expired_def split: option.splits)
  show ?case
  proof (cases "pq_empty (sh_heap sh) \<or> now < ec_deadline ?c")
    case False
    show ?thesis
    proof (cases "candidate_matches sh ?c")
      case True
      with False "2.IH"(1) [OF _ refl _ True] due show ?thesis by (auto simp: Let_def split: if_splits)
    next
      case no: False
      with False "2.IH"(2) [OF _ refl _ no] show ?thesis by (auto simp: Let_def)
    qed
  qed (auto simp: Let_def)
qed simp

lemma sweep_section_drops:
  assumes "wf_store hash st"
  shows "drops now (stored hash st) (stored hash (sweep_section st now i max_items))"
  unfolding drops_def
proof
  fix k
  let ?st = "sweep_section st now i max_items" and ?j = "shard_index hash st k"
  have "shard_for hash ?st k = (if ?j = i then fst (sweep_shard max_items now (shard_for hash st k) 0)
      else shard_for hash st k)"
    using shard_index_bound [OF assms]
    by (auto simp: shard_for_def shard_index_def sweep_section_def nth_list_update)
  then show "stored hash ?st k = stored hash st k \<or>
      stored hash ?st k = None \<and> purge now (stored hash st) k = None"
    using sweep_shard_entries [of max_items now "shard_for hash st k" 0 k]
    by (auto simp: stored_def purge_def is_expired_def split: option.splits if_splits)
qed

text \<open>The section of a command does to the stored keys what the command does to the map.\<close>

lemma command_section_stored:
  assumes wf: "wf_store hash st" and c: "command_section hash st now c = Inr (resp, st')"
  shows "stored hash st' = timed_update now (stored hash st) c"
proof -
  let ?k = "cmd_key c" and ?sh = "shard_for hash st (cmd_key c)"
  note put = stored_put_shard [OF wf, of ?k]
  show ?thesis
  proof (cases "cmd_type c")
    case kSet
    with c put [of "shard_set ?sh ?k (cmd_value c)"] show ?thesis
      by (auto simp: command_section_def read_only_def dispatch_def dispatch_set_def store_set_def
        timed_update_def shard_set_def Let_def)
  next
    case kDel
    obtain b sh where d: "shard_del ?sh now ?k = (b, sh)" by (cases "shard_del ?sh now ?k")
    from kDel c d put [of sh] show ?thesis
      by (auto simp: command_section_def read_only_def dispatch_def dispatch_del_def store_del_def
        timed_update_def shard_del_def split: option.splits)
  next
    case kExpire
    with c obtain ok sh where e: "shard_expire ?sh now ?k (cmd_seconds c) = Inr (ok, sh)"
      and st': "st' = put_shard hash st ?k sh"
      by (auto simp: command_section_def read_only_def dispatch_def dispatch_expire_def store_expire_def
        split: sum.splits)
    have "stored hash st' = (stored hash st)(?k := map_option (\<lambda>e. (en_value e, en_deadline e)) (sh_entries sh ?k))"
      unfolding st' by (rule put)
        (use e in \<open>auto simp: shard_expire_def Let_def split: option.splits if_splits sum.splits\<close>)
    with kExpire e show ?thesis
      by (auto simp: timed_update_def shard_expire_def stored_def purge_def is_expired_def Let_def
        deadline_after_Inr split: option.splits if_splits sum.splits)
  qed (use c in \<open>auto simp: command_section_def read_only_def dispatch_def timed_update_def map_sum_def
    split: sum.splits prod.splits\<close>)
qed

subsection \<open>Refinement without assumptions on the clock\<close>

text \<open>
  The store may lack keys of the map, but only such as were expired at a reading seen before.
\<close>

definition lags :: "int set \<Rightarrow> kv_view \<Rightarrow> kv_view \<Rightarrow> bool" where
  "lags seen m s \<longleftrightarrow> (\<forall>k. s k = m k \<or> s k = None \<and> (\<exists>t\<in>seen. purge t m k = None))"

lemma lags_drops:
  assumes "lags seen m s" and "drops now s s'"
  shows "lags (insert now seen) m s'"
  unfolding lags_def
proof
  fix k
  from assms have "s k = m k \<or> s k = None \<and> (\<exists>t\<in>seen. purge t m k = None)"
    and "s' k = s k \<or> s' k = None \<and> purge now s k = None"
    by (auto simp: lags_def drops_def)
  moreover have "s k = m k \<Longrightarrow> purge now s k = purge now m k" by (simp add: purge_def)
  ultimately show "s' k = m k \<or> s' k = None \<and> (\<exists>t\<in>insert now seen. purge t m k = None)" by auto
qed

text \<open>A reply depends on the key of the command only, and not on the time when the key is missing.\<close>

lemma spec_exec_cong:
  assumes "m (cmd_key c) = m' (cmd_key c)" and "m (cmd_key c) = None \<or> t = t'"
  shows "fst (spec_exec t m c) = fst (spec_exec t' m' c)"
    and "time_in_range t m c = time_in_range t' m' c"
  using assms
  by (cases "cmd_type c"; auto simp: spec_exec_def time_in_range_def Let_def split: option.splits)+

lemma lags_command:
  assumes "lags seen m s"
  obtains t where "t = now \<or> now < t \<and> t \<in> seen"
    and "fst (spec_exec now (purge now s) c) = fst (spec_exec t (purge t m) c)"
    and "time_in_range now (purge now s) c = time_in_range t (purge t m) c"
    and "lags (insert now seen) (timed_update t m c) (timed_update now s c)"
proof -
  let ?k = "cmd_key c"
  obtain t where t: "t = now \<or> now < t \<and> t \<in> seen"
    and k: "purge now s ?k = purge t m ?k" "purge now s ?k = None \<or> t = now"
  proof (cases "s ?k = m ?k")
    case True
    then show thesis by (intro that [of now]) (auto simp: purge_def)
  next
    case False
    with assms obtain t where n: "s ?k = None" "t \<in> seen" "purge t m ?k = None" unfolding lags_def by metis
    show thesis
    proof (cases "now < t")
      case True
      with n show thesis by (intro that [of t]) (auto simp: purge_def)
    next
      case False
      with n have "purge now m ?k = None" by (auto simp: purge_def split: option.splits if_splits)
      with n show thesis by (intro that [of now]) (auto simp: purge_def)
    qed
  qed
  have "lags (insert now seen) (timed_update t m c) (timed_update now s c)"
    unfolding lags_def
  proof
    fix k
    have "s k = m k \<or> s k = None \<and> (\<exists>t\<in>insert now seen. purge t m k = None)"
      using assms by (auto simp: lags_def)
    moreover have "timed_update now s c k = timed_update t m c k"
      if "k = ?k" "cmd_type c \<in> {kSet, kDel, kExpire}"
      using that k by (auto simp: timed_update_def Let_def)
    moreover have "timed_update t m c k = m k" "timed_update now s c k = s k"
      if "\<not> (k = ?k \<and> cmd_type c \<in> {kSet, kDel, kExpire})" for t m
      using that by (cases "cmd_type c"; auto simp: timed_update_def Let_def)+
    ultimately show "timed_update now s c k = timed_update t m c k \<or>
        timed_update now s c k = None \<and> (\<exists>u\<in>insert now seen. purge u (timed_update t m c) k = None)"
      by (cases "k = ?k \<and> cmd_type c \<in> {kSet, kDel, kExpire}") (auto simp: purge_def)
  qed
  with t k spec_exec_cong [of "purge now s" c "purge t m" now t] show thesis by (intro that [of t]) auto
qed

lemma run_sections_lagging:
  assumes "wf_store hash st" and "lags seen m (stored hash st)"
  shows "\<exists>ts. effective seen ss ts \<and>
    (if timed_in_range m (zip ts (log_commands ss))
     then \<exists>st'. run_sections hash st ss = Inr (map encode_reply (timed_events m (zip ts (log_commands ss))), st')
     else \<exists>u. run_sections hash st ss = Inl u)"
  using assms
proof (induction ss arbitrary: st m seen)
  case (Cons e ss)
  obtain now sec where e: "e = (now, sec)" by (cases e)
  show ?case
  proof (cases sec)
    case (Command_section c)
    from lags_command [OF Cons.prems(2), of now c] obtain t
      where t: "t = now \<or> now < t \<and> t \<in> seen"
        and rep: "fst (spec_exec now (live_view hash st now) c) = fst (spec_exec t (purge t m) c)"
        and rng: "time_in_range now (live_view hash st now) c = time_in_range t (purge t m) c"
        and lag: "lags (insert now seen) (timed_update t m c) (timed_update now (stored hash st) c)"
      by (auto simp: live_view_stored)
    show ?thesis
    proof (cases "command_section hash st now c")
      case (Inl u)
      then have "\<not> time_in_range t (purge t m) c"
        using command_section_defined [OF Cons.prems(1), of now c] rng by simp
      moreover obtain ts where "effective (insert now seen) ss ts"
        using Cons.IH [OF Cons.prems(1), of "insert now seen" "stored hash st"] by (auto simp: lags_def)
      ultimately show ?thesis
        using t Inl by (intro exI [of _ "t # ts"]) (auto simp: e Command_section log_commands_def)
    next
      case (Inr r)
      then obtain resp st1 where d: "command_section hash st now c = Inr (resp, st1)" by (cases r) auto
      have ref: "resp = encode_reply (fst (spec_exec t (purge t m) c))" "wf_store hash st1"
        using command_section_refines [OF Cons.prems(1) order_refl d]
        by (cases "spec_exec now (live_view hash st now) c"; simp add: rep [symmetric])+
      have "time_in_range t (purge t m) c"
        using command_section_defined [OF Cons.prems(1), of now c] d rng by simp
      moreover from Cons.IH [OF ref(2), of "insert now seen" "timed_update t m c"]
      obtain ts where "effective (insert now seen) ss ts"
        and "if timed_in_range (timed_update t m c) (zip ts (log_commands ss))
          then \<exists>st'. run_sections hash st1 ss =
            Inr (map encode_reply (timed_events (timed_update t m c) (zip ts (log_commands ss))), st')
          else \<exists>u. run_sections hash st1 ss = Inl u"
        using lag by (auto simp: command_section_stored [OF Cons.prems(1) d])
      ultimately show ?thesis
        using t d ref(1) by (intro exI [of _ "t # ts"]) (auto simp: e Command_section log_commands_def split: if_splits)
    qed
  next
    case (Erase_section key)
    from Cons.IH [OF erase_section_correct(1) [OF Cons.prems(1)]
        lags_drops [OF Cons.prems(2) erase_section_drops [OF Cons.prems(1), of now key]]]
    show ?thesis by (simp only: e Erase_section effective.simps run_sections.simps log_commands_simps)
  next
    case (Sweep_section i k)
    from Cons.IH [OF sweep_section_correct(1) [OF Cons.prems(1)]
        lags_drops [OF Cons.prems(2) sweep_section_drops [OF Cons.prems(1), of now i k]]]
    show ?thesis by (simp only: e Sweep_section effective.simps run_sections.simps log_commands_simps)
  qed
qed (auto simp: log_commands_def)

lemma make_store_stored:
  assumes "make_store n = Inr st"
  shows "stored hash st = Map.empty"
proof
  fix k
  have "shard_for hash st k = empty_shard"
    using assms shard_index_bound [OF make_store_wf(1) [OF assms], of hash k]
    by (auto simp: make_store_def shard_for_def split: sum.splits)
  then show "stored hash st k = None" by (simp add: stored_def empty_shard_def)
qed

lemma run_sections_effective:
  assumes "make_store n = Inr st"
  shows "\<exists>ts. effective {} ss ts \<and>
    (if timed_in_range Map.empty (zip ts (log_commands ss))
     then \<exists>st'. run_sections hash st ss =
       Inr (map encode_reply (timed_events Map.empty (zip ts (log_commands ss))), st')
     else \<exists>u. run_sections hash st ss = Inl u)"
  using make_store_wf(1) [OF assms]
  by (rule run_sections_lagging) (simp add: lags_def make_store_stored [OF assms])

lemma effective_readings:
  assumes "effective {} ss ts" and "clock_in_order ss"
  shows "zip ts (log_commands ss) = commands_run ss"
    and "timed_events Map.empty (commands_run ss) = spec_events Map.empty (commands_run ss)"
    and "timed_in_range Map.empty (commands_run ss) = events_in_range Map.empty (commands_run ss)"
  using effective_in_order [OF assms] timed_events_in_order [OF clock_in_order_sorted [OF assms(2)] refl] by simp_all

lemma run_sections_replies:
  assumes "make_store n = Inr st" and "run_sections hash st ss = Inr (replies, st')"
  shows "\<exists>ts. effective {} ss ts \<and> replies = map encode_reply (timed_events Map.empty (zip ts (log_commands ss)))"
    and "clock_in_order ss \<Longrightarrow> replies = map encode_reply (spec_events Map.empty (commands_run ss))"
proof -
  from run_sections_effective [OF assms(1), of ss hash] assms(2)
  show e: "\<exists>ts. effective {} ss ts \<and> replies = map encode_reply (timed_events Map.empty (zip ts (log_commands ss)))"
    by (auto split: if_splits)
  show "replies = map encode_reply (spec_events Map.empty (commands_run ss))" if "clock_in_order ss"
    using e effective_readings [OF _ that] by auto
qed

text \<open>
  C2. The store is linearizable, whatever the threads do: take any interleaving of the critical
  sections of any number of threads on a new store, where reads of expired keys erase them in a
  second section and sweeps go shard by shard, and with any clock readings, also such that are
  overtaken on the way to the lock. Then there are effective times for the commands, each its own
  reading or a later reading of an earlier section, at which the replies are exactly those of a
  map with deadlines that executes the commands in the order of their first sections, erasures
  and sweeps being invisible; the history is free of undefined behaviour exactly when its EXPIRE
  and TTL arithmetic stays within the clock's 64 bits. When no command reads the clock before a
  section that was admitted earlier, each takes effect at its own reading, and the replies are
  those of the command table of the specification.
\<close>

theorem concurrent_store_linearizable:
  assumes "make_store n = Inr st"
  shows "\<exists>ts. effective {} ss ts \<and>
    (if timed_in_range Map.empty (zip ts (log_commands ss))
     then \<exists>st'. run_sections hash st ss =
       Inr (map encode_reply (timed_events Map.empty (zip ts (log_commands ss))), st')
     else \<exists>u. run_sections hash st ss = Inl u) \<and>
    (clock_in_order ss \<longrightarrow> zip ts (log_commands ss) = commands_run ss \<and>
       timed_events Map.empty (commands_run ss) = spec_events Map.empty (commands_run ss) \<and>
       timed_in_range Map.empty (commands_run ss) = events_in_range Map.empty (commands_run ss))"
  using run_sections_effective [OF assms, of ss hash] effective_readings [of ss] by blast

text \<open>
  Two readers take the time 1. The first goes on, and finds the key; the second is held up. The
  key expires, a third reader finds it expired at 2000000000 and erases it. When the second reader
  gets the lock, with its reading of 1, the key is gone; it is as if it had read the clock at
  2000000000.
\<close>

definition demo_sections :: "(int \<times> critical_section) list" where
  "demo_sections =
    [(0, Command_section (cmd kSet ''k'' ''v'' 0)), (0, Command_section (cmd kExpire ''k'' [] 2)),
     (1, Command_section (cmd kGet ''k'' [] 0)), (2000000000, Command_section (cmd kGet ''k'' [] 0)),
     (2000000000, Erase_section ''k''), (1, Sweep_section 0 20), (1, Command_section (cmd kGet ''k'' [] 0))]"

theorem concurrent_store_linearizable_witness:
  "make_store 2 = Inr \<lparr>st_shard_count = 2, st_shards = [empty_shard, empty_shard], st_active_expirations = 0\<rparr> \<and>
   \<not> clock_in_order demo_sections \<and>
   (\<exists>ts st'. effective {} demo_sections ts \<and> run_sections demo_hash
      \<lparr>st_shard_count = 2, st_shards = [empty_shard, empty_shard], st_active_expirations = 0\<rparr> demo_sections =
      Inr (map encode_reply (timed_events Map.empty (zip ts (log_commands demo_sections))), st'))"
proof -
  let ?st = "\<lparr>st_shard_count = 2, st_shards = [empty_shard, empty_shard], st_active_expirations = 0\<rparr>"
  have "\<not> isl (run_sections demo_hash ?st demo_sections)" and o: "\<not> clock_in_order demo_sections" by code_simp+
  with concurrent_store_linearizable [OF make_store_2, of demo_sections demo_hash] make_store_2 show ?thesis
    by (auto split: if_splits)
qed

end
