(* ===== verification/Clock.thy ===== *)
theory Clock
  imports KV_Prelude
begin

text \<open>
  The time source of the store, \<^verbatim>\<open>src/include/kvstore/storage/clock.hpp\<close> and \<^verbatim>\<open>clock.cpp\<close>. The
  interface \<^verbatim>\<open>Clock\<close> is the locale \<open>steady_source\<close>: a reading of a clock that other threads and time
  itself move on, never backwards. The production clock is backed by \<^verbatim>\<open>std::chrono::steady_clock\<close>,
  which the standard specifies to be steady; its state is the count of nanoseconds.
\<close>

type_synonym TimePoint = int

locale steady_source =
  fixes now :: "'c \<Rightarrow> TimePoint"
    and tick :: "'c \<Rightarrow> int \<Rightarrow> 'c"
  assumes steady: "0 \<le> n \<Longrightarrow> now c \<le> now (tick c n)"
begin

text \<open>What was read before is not later than what is read after the clock has moved.\<close>

lemma past_reading: "t \<le> now c \<Longrightarrow> 0 \<le> n \<Longrightarrow> t \<le> now (tick c n)"
  by (rule order_trans [OF _ steady])

end

record SteadyClock =
  ck_nanoseconds :: int

definition steady_tick :: "SteadyClock \<Rightarrow> int \<Rightarrow> SteadyClock" where
  "steady_tick c n = c\<lparr>ck_nanoseconds := ck_nanoseconds c + n\<rparr>"

definition system_clock_now :: "SteadyClock \<Rightarrow> TimePoint" where
  "system_clock_now c = ck_nanoseconds c"

interpretation system_clock: steady_source system_clock_now steady_tick
  by unfold_locales (simp add: system_clock_now_def steady_tick_def)

end
