(* ===== verification/Store_Threads.thy ===== *)
theory Store_Threads
  imports Store_Lagging Clock
begin

text \<open>
  The threads of the store between the instructions that matter to each other: a call of an
  operation of \<^verbatim>\<open>src/src/storage/store.cpp\<close> reads the clock, waits for the \<^verbatim>\<open>std::shared_mutex\<close> of
  its shard, reads the shard, writes it, and gives the mutex back; a read of an expired key then
  goes on to a second section under the exclusive lock, a sweep to the next shard. Any number of
  threads take such steps in any order while time goes on. The mutexes make the sections atomic,
  so that the store behaves like a history of \<^verbatim>\<open>Store_Concurrency\<close>; nobody waits for ever.
\<close>

subsection \<open>The mutex of a shard\<close>

record SharedMutex =
  sm_writer :: bool
  sm_readers :: nat

definition unlocked :: SharedMutex where
  "unlocked = \<lparr>sm_writer = False, sm_readers = 0\<rparr>"

text \<open>\<^verbatim>\<open>lock\<close> and \<^verbatim>\<open>lock_shared\<close>; \<^const>\<open>None\<close> is a call that blocks.\<close>

definition acquire :: "bool \<Rightarrow> SharedMutex \<Rightarrow> SharedMutex option" where
  "acquire exclusive m =
     (if exclusive
      then if sm_writer m \<or> sm_readers m > 0 then None else Some (m\<lparr>sm_writer := True\<rparr>)
      else if sm_writer m then None else Some (m\<lparr>sm_readers := sm_readers m + 1\<rparr>))"

definition release :: "bool \<Rightarrow> SharedMutex \<Rightarrow> SharedMutex" where
  "release exclusive m = (if exclusive then m\<lparr>sm_writer := False\<rparr> else m\<lparr>sm_readers := sm_readers m - 1\<rparr>)"

subsection \<open>Critical sections on their shard\<close>

fun section_shard :: "(string \<Rightarrow> u64) \<Rightarrow> Store \<Rightarrow> critical_section \<Rightarrow> nat" where
  "section_shard hash st (Command_section c) = shard_index hash st (cmd_key c)"
| "section_shard hash st (Erase_section key) = shard_index hash st key"
| "section_shard hash st (Sweep_section i max_items) = i"

fun section_exclusive :: "critical_section \<Rightarrow> bool" where
  "section_exclusive (Command_section c) = (\<not> read_only c)"
| "section_exclusive (Erase_section key) = True"
| "section_exclusive (Sweep_section i max_items) = True"

definition live_entry :: "Shard \<Rightarrow> int \<Rightarrow> string \<Rightarrow> Entry option" where
  "live_entry sh now key = (case read_live_shared sh now key of LiveEntry e \<Rightarrow> Some e | _ \<Rightarrow> None)"

text \<open>What the holder of the lock computes from the shard: the response, and the shard to write.\<close>

definition command_body :: "int \<Rightarrow> Command \<Rightarrow> Shard \<Rightarrow> ub + string \<times> Shard" where
  "command_body now c sh = (let key = cmd_key c in case cmd_type c of
      kPing \<Rightarrow> Inr (dispatch_ping, sh)
    | kSet \<Rightarrow> Inr (encode_simple_string ''OK'', shard_set sh key (cmd_value c))
    | kGet \<Rightarrow> Inr (case live_entry sh now key of
          None \<Rightarrow> encode_null_bulk_string | Some e \<Rightarrow> encode_bulk_string (en_value e), sh)
    | kDel \<Rightarrow> (case shard_del sh now key of
          (removed, sh') \<Rightarrow> Inr (encode_integer (if removed then 1 else 0), sh'))
    | kExists \<Rightarrow> Inr (encode_integer (if live_entry sh now key \<noteq> None then 1 else 0), sh)
    | kExpire \<Rightarrow> (case shard_expire sh now key (cmd_seconds c) of
          Inl u \<Rightarrow> Inl u
        | Inr (set_ok, sh') \<Rightarrow> Inr (encode_integer (if set_ok then 1 else 0), sh'))
    | kTtl \<Rightarrow> map_sum id (\<lambda>result. (ttl_reply result, sh)) (ttl_of (live_entry sh now key) now))"

text \<open>The same for any section, with the number of entries a sweep has removed.\<close>

fun section_body :: "int \<Rightarrow> critical_section \<Rightarrow> Shard \<Rightarrow> ub + string \<times> nat \<times> Shard" where
  "section_body now (Command_section c) sh = map_sum id (\<lambda>(response, sh'). (response, 0, sh')) (command_body now c sh)"
| "section_body now (Erase_section key) sh = Inr ([], 0, read_live_exclusive sh now key)"
| "section_body now (Sweep_section i max_items) sh =
     (case sweep_shard max_items now sh 0 of (sh', removed) \<Rightarrow> Inr ([], removed, sh'))"

subsection \<open>Threads\<close>

datatype job = Run Command | Sweep nat

text \<open>
  A call in progress, with what it has found out so far: its response and the place of its first
  section in the log, and the entries removed. The time of the call and the length of the log at
  that moment serve to state when things happened.
\<close>

record Call =
  cl_job :: job
  cl_time :: TimePoint
  cl_position :: nat
  cl_answer :: "(nat \<times> string) option"
  cl_removed :: nat

datatype stage =
    At_clock
  | At_lock TimePoint critical_section
  | At_read TimePoint critical_section
  | At_write TimePoint critical_section string nat Shard
  | At_unlock TimePoint critical_section bool
  | At_return

datatype Thread = Idle | Busy Call stage

text \<open>A command that has returned: when it was called, when it took effect and when it returned.\<close>

record Finished =
  fi_command :: Command
  fi_response :: string
  fi_called :: "TimePoint \<times> nat"
  fi_point :: nat
  fi_returned :: "TimePoint \<times> nat"

record Threads =
  tt_store :: Store
  tt_locks :: "SharedMutex list"
  tt_threads :: "Thread list"
  tt_clock :: SteadyClock
  tt_log :: "(int \<times> critical_section) list"
  tt_finished :: "Finished list"

definition start_threads :: "nat \<Rightarrow> Store \<Rightarrow> SteadyClock \<Rightarrow> Threads" where
  "start_threads n st clock = \<lparr>tt_store = st, tt_locks = replicate (length (st_shards st)) unlocked,
     tt_threads = replicate n Idle, tt_clock = clock, tt_log = [], tt_finished = []\<rparr>"

fun first_section :: "job \<Rightarrow> critical_section" where
  "first_section (Run c) = Command_section c"
| "first_section (Sweep max_items) = Sweep_section 0 max_items"

fun after_section :: "nat \<Rightarrow> TimePoint \<Rightarrow> critical_section \<Rightarrow> bool \<Rightarrow> stage" where
  "after_section shards now (Command_section c) expired =
     (if expired then At_lock now (Erase_section (cmd_key c)) else At_return)"
| "after_section shards now (Erase_section key) expired = At_return"
| "after_section shards now (Sweep_section i max_items) expired =
     (if i + 1 < shards then At_lock now (Sweep_section (i + 1) max_items) else At_return)"

text \<open>A section takes effect: it is logged, and a command has its answer.\<close>

definition take_effect :: "TimePoint \<Rightarrow> critical_section \<Rightarrow> string \<Rightarrow> nat \<Rightarrow> Threads \<Rightarrow> Call \<Rightarrow> Call" where
  "take_effect now sec response removed s call = call\<lparr>
     cl_answer := (case sec of Command_section c \<Rightarrow> Some (length (tt_log s), response) | _ \<Rightarrow> cl_answer call),
     cl_removed := cl_removed call + removed\<rparr>"

definition finish :: "Threads \<Rightarrow> Call \<Rightarrow> Threads" where
  "finish s call = (case (cl_job call, cl_answer call) of
      (Run c, Some (point, response)) \<Rightarrow> s\<lparr>tt_finished := tt_finished s @
        [\<lparr>fi_command = c, fi_response = response, fi_called = (cl_time call, cl_position call),
          fi_point = point, fi_returned = (system_clock_now (tt_clock s), length (tt_log s))\<rparr>]\<rparr>
    | (Sweep max_items, _) \<Rightarrow> s\<lparr>tt_store := (tt_store s)\<lparr>st_active_expirations :=
        (if cl_removed call > 0 then st_active_expirations (tt_store s) + word_of_nat (cl_removed call)
         else st_active_expirations (tt_store s))\<rparr>\<rparr>
    | _ \<Rightarrow> s)"

text \<open>
  The next step of a thread; \<^const>\<open>None\<close> when it is idle, blocked, or about to run into undefined
  behaviour. SET does not look at the clock; the reading it takes here is not used. PING does
  not come to the store at all.
\<close>

definition thread_go :: "(string \<Rightarrow> u64) \<Rightarrow> nat \<Rightarrow> Threads \<Rightarrow> Threads option" where
  "thread_go hash i s = (if i \<ge> length (tt_threads s) then None else
     let put = (\<lambda>th s. s\<lparr>tt_threads := (tt_threads s)[i := th]\<rparr>) in
     case tt_threads s ! i of
       Idle \<Rightarrow> None
     | Busy call stage \<Rightarrow> (case stage of
         At_clock \<Rightarrow>
           let now = system_clock_now (tt_clock s) in
           (case cl_job call of
              Run c \<Rightarrow> if cmd_type c = kPing
                then Some (put (Busy (take_effect now (Command_section c) dispatch_ping 0 s call) At_return)
                  (s\<lparr>tt_log := tt_log s @ [(now, Command_section c)]\<rparr>))
                else Some (put (Busy call (At_lock now (first_section (cl_job call)))) s)
            | Sweep max_items \<Rightarrow> Some (put (Busy call (At_lock now (first_section (cl_job call)))) s))
       | At_lock now sec \<Rightarrow>
           let j = section_shard hash (tt_store s) sec in
           (case acquire (section_exclusive sec) (tt_locks s ! j) of
              None \<Rightarrow> None
            | Some m \<Rightarrow> Some (put (Busy call (At_read now sec)) (s\<lparr>tt_locks := (tt_locks s)[j := m]\<rparr>)))
       | At_read now sec \<Rightarrow>
           let sh = st_shards (tt_store s) ! section_shard hash (tt_store s) sec in
           (case section_body now sec sh of
              Inl u \<Rightarrow> None
            | Inr (response, removed, sh') \<Rightarrow>
                if section_exclusive sec then Some (put (Busy call (At_write now sec response removed sh')) s)
                else Some (put (Busy (take_effect now sec response removed s call)
                    (At_unlock now sec (case sec of
                       Command_section c \<Rightarrow> read_live_shared sh now (cmd_key c) = ExpiredEntry | _ \<Rightarrow> False)))
                  (s\<lparr>tt_log := tt_log s @ [(now, sec)]\<rparr>)))
       | At_write now sec response removed sh' \<Rightarrow>
           let j = section_shard hash (tt_store s) sec in
           Some (put (Busy (take_effect now sec response removed s call) (At_unlock now sec False))
             (s\<lparr>tt_store := (tt_store s)\<lparr>st_shards := (st_shards (tt_store s))[j := sh']\<rparr>,
                tt_log := tt_log s @ [(now, sec)]\<rparr>))
       | At_unlock now sec expired \<Rightarrow>
           let j = section_shard hash (tt_store s) sec in
           Some (put (Busy call (after_section (length (st_shards (tt_store s))) now sec expired))
             (s\<lparr>tt_locks := (tt_locks s)[j := release (section_exclusive sec) (tt_locks s ! j)]\<rparr>))
       | At_return \<Rightarrow> Some (put Idle (finish s call))))"

text \<open>A schedule: time goes on, a thread calls an operation, or a thread takes its next step.\<close>

datatype action = Tick int | Begin nat job | Go nat

fun act :: "(string \<Rightarrow> u64) \<Rightarrow> action \<Rightarrow> Threads \<Rightarrow> Threads option" where
  "act hash (Tick n) s = (if 0 \<le> n then Some (s\<lparr>tt_clock := steady_tick (tt_clock s) n\<rparr>) else None)"
| "act hash (Begin i job) s =
     (if i \<ge> length (tt_threads s) then None else
      case tt_threads s ! i of
        Busy call stage \<Rightarrow> None
      | Idle \<Rightarrow> Some (s\<lparr>tt_threads := (tt_threads s)[i := Busy \<lparr>cl_job = job,
          cl_time = system_clock_now (tt_clock s), cl_position = length (tt_log s), cl_answer = None,
          cl_removed = 0\<rparr> At_clock]\<rparr>))"
| "act hash (Go i) s = thread_go hash i s"

fun run_threads :: "(string \<Rightarrow> u64) \<Rightarrow> action list \<Rightarrow> Threads \<Rightarrow> Threads option" where
  "run_threads hash [] s = Some s"
| "run_threads hash (a # as) s = (case act hash a s of None \<Rightarrow> None | Some s' \<Rightarrow> run_threads hash as s')"

subsection \<open>Bodies and sections\<close>

lemma read_live_live_entry: "fst (read_live sh now key) = live_entry sh now key"
  by (simp add: read_live_def live_entry_def split: SharedRead.split)

lemma command_section_body:
  assumes "wf_store hash st"
  shows "command_section hash st now c = map_sum id (\<lambda>(response, sh). (response, put_shard hash st (cmd_key c) sh))
    (command_body now c (shard_for hash st (cmd_key c)))"
  using put_shard_unchanged [OF assms, of "cmd_key c"]
    read_live_live_entry [of "shard_for hash st (cmd_key c)" now "cmd_key c"]
  by (cases "cmd_type c"; cases "read_live (shard_for hash st (cmd_key c)) now (cmd_key c)")
    (auto simp: command_section_def command_body_def read_only_def dispatch_def dispatch_set_def dispatch_get_def
      dispatch_del_def dispatch_exists_def dispatch_expire_def dispatch_ttl_def store_set_def store_get_def
      store_del_def store_exists_def store_expire_def store_ttl_def Let_def map_sum_def
      split: option.splits sum.splits prod.splits)

text \<open>One more section at the end of a history.\<close>

lemma run_section_body:
  assumes "wf_store hash st" and "section_shard hash st sec < length (st_shards st)"
    and "section_body now sec (st_shards st ! section_shard hash st sec) = Inr (response, removed, sh)"
  shows "run_sections hash st [(now, sec)] =
    Inr (case sec of Command_section c \<Rightarrow> [response] | _ \<Rightarrow> [],
         st\<lparr>st_shards := (st_shards st)[section_shard hash st sec := sh]\<rparr>)"
  using assms(3)
  by (cases sec) (auto simp: command_section_body [OF assms(1)] shard_for_def put_shard_def erase_section_def
      sweep_section_def map_sum_def split: sum.splits prod.splits)

lemma shared_section_body:
  assumes "\<not> section_exclusive sec" and "section_body now sec sh = Inr (response, removed, sh')"
  shows "sh' = sh \<and> removed = 0 \<and> (\<exists>c. sec = Command_section c)"
  using assms by (cases sec) (auto simp: command_body_def read_only_def Let_def map_sum_def split: sum.splits)

lemma run_sections_wf:
  assumes "run_sections hash st ss = Inr (replies, st')" and "wf_store hash st"
  shows "wf_store hash st'"
  using assms
proof (induction hash st ss arbitrary: replies rule: run_sections.induct)
  case (2 hash st now c ss)
  then obtain r st1 rs where c: "command_section hash st now c = Inr (r, st1)" "run_sections hash st1 ss = Inr (rs, st')"
    by (auto simp: map_sum_def split: sum.splits)
  from command_section_refines [OF "2.prems"(2) order_refl c(1)] have "wf_store hash st1"
    by (cases "spec_exec now (live_view hash st now) c") simp
  with "2.IH" [OF c(1) refl c(2)] show ?case .
qed (auto simp: erase_section_correct(1) sweep_section_correct(1))

subsection \<open>Locks and their holders\<close>

fun inside :: "Thread \<Rightarrow> critical_section option" where
  "inside (Busy call (At_read now sec)) = Some sec"
| "inside (Busy call (At_write now sec response removed sh)) = Some sec"
| "inside (Busy call (At_unlock now sec expired)) = Some sec"
| "inside th = None"

definition holder :: "(string \<Rightarrow> u64) \<Rightarrow> Store \<Rightarrow> bool \<Rightarrow> nat \<Rightarrow> Thread \<Rightarrow> nat" where
  "holder hash st exclusive j th = (case inside th of
      None \<Rightarrow> 0
    | Some sec \<Rightarrow> if section_exclusive sec = exclusive \<and> section_shard hash st sec = j then 1 else 0)"

definition held :: "(string \<Rightarrow> u64) \<Rightarrow> Threads \<Rightarrow> bool \<Rightarrow> nat \<Rightarrow> nat" where
  "held hash s exclusive j = sum_list (map (holder hash (tt_store s) exclusive j) (tt_threads s))"

definition mutex_ok :: "SharedMutex \<Rightarrow> nat \<Rightarrow> nat \<Rightarrow> bool" where
  "mutex_ok m readers writers \<longleftrightarrow>
     sm_readers m = readers \<and> (if sm_writer m then 1 else 0) = writers \<and> (sm_writer m \<longrightarrow> sm_readers m = 0)"

definition locks_ok :: "(string \<Rightarrow> u64) \<Rightarrow> Threads \<Rightarrow> bool" where
  "locks_ok hash s \<longleftrightarrow> length (tt_locks s) = length (st_shards (tt_store s)) \<and>
     (\<forall>j<length (tt_locks s). mutex_ok (tt_locks s ! j) (held hash s False j) (held hash s True j))"

lemma mutex_ok_acquire:
  "mutex_ok m r w \<Longrightarrow> acquire ex m = Some m' \<Longrightarrow>
   mutex_ok m' (r + (if ex then 0 else 1)) (w + (if ex then 1 else 0))"
  by (auto simp: mutex_ok_def acquire_def split: if_splits)

lemma mutex_ok_release:
  "mutex_ok m (r + (if ex then 0 else 1)) (w + (if ex then 1 else 0)) \<Longrightarrow> mutex_ok (release ex m) r w"
  by (auto simp: mutex_ok_def release_def split: if_splits)

lemma sum_list_two:
  fixes f :: "'a \<Rightarrow> nat"
  assumes "i < length xs" and "k < length xs" and "i \<noteq> k"
  shows "f (xs ! i) + f (xs ! k) \<le> sum_list (map f xs)"
proof -
  have "sum_list (map f xs) = (\<Sum>n<length xs. f (xs ! n))"
    by (simp add: sum_list_sum_nth atLeast0LessThan)
  moreover have "(\<Sum>n\<in>{i, k}. f (xs ! n)) \<le> (\<Sum>n<length xs. f (xs ! n))"
    using assms by (intro sum_mono2) auto
  ultimately show ?thesis using assms(3) by simp
qed

text \<open>Whoever is inside an exclusive section is alone on its shard.\<close>

lemma exclusive_alone:
  assumes ok: "locks_ok hash s" and i: "i < length (tt_threads s)" "inside (tt_threads s ! i) = Some sec"
    and k: "k < length (tt_threads s)" "inside (tt_threads s ! k) = Some sec'" and ik: "i \<noteq> k"
    and x: "section_exclusive sec" and range: "section_shard hash (tt_store s) sec < length (tt_locks s)"
  shows "section_shard hash (tt_store s) sec' \<noteq> section_shard hash (tt_store s) sec"
proof
  let ?j = "section_shard hash (tt_store s) sec"
  let ?h = "\<lambda>ex. holder hash (tt_store s) ex ?j"
  assume same: "section_shard hash (tt_store s) sec' = ?j"
  have one: "?h True (tt_threads s ! i) = 1" using i x by (simp add: holder_def)
  have other: "?h (section_exclusive sec') (tt_threads s ! k) = 1" using k same by (simp add: holder_def)
  have two: "?h ex (tt_threads s ! i) + ?h ex (tt_threads s ! k) \<le> held hash s ex ?j" for ex
    unfolding held_def by (rule sum_list_two [OF i(1) k(1) ik])
  have "mutex_ok (tt_locks s ! ?j) (held hash s False ?j) (held hash s True ?j)"
    using ok range by (simp add: locks_ok_def)
  with two [of True] two [of False] one other show False
    by (cases "section_exclusive sec'") (auto simp: mutex_ok_def split: if_splits)
qed

lemma holder_simps [simp]:
  "holder hash st ex j Idle = 0"
  "holder hash st ex j (Busy call At_clock) = 0"
  "holder hash st ex j (Busy call At_return) = 0"
  "holder hash st ex j (Busy call (At_lock now sec)) = 0"
  by (simp_all add: holder_def)

lemma holder_inside: "inside th = inside th' \<Longrightarrow> holder hash st ex j th = holder hash st ex j th'"
  by (simp add: holder_def)

lemma section_shard_cong [simp]:
  "section_shard hash (st\<lparr>st_shards := x\<rparr>) sec = section_shard hash st sec"
  "section_shard hash (st\<lparr>st_active_expirations := a\<rparr>) sec = section_shard hash st sec"
  by (cases sec; simp add: shard_index_def)+

lemma holder_cong [simp]:
  "holder hash (st\<lparr>st_shards := x\<rparr>) = holder hash st"
  "holder hash (st\<lparr>st_active_expirations := a\<rparr>) = holder hash st"
  by (intro ext; simp add: holder_def split: option.split)+

text \<open>What a step of one thread does to the number of holders.\<close>

lemma held_update:
  assumes "i < length (tt_threads s)" and "tt_threads s' = (tt_threads s)[i := th]"
    and "st_shard_count (tt_store s') = st_shard_count (tt_store s)"
  shows "held hash s' ex j + holder hash (tt_store s) ex j (tt_threads s ! i) =
    held hash s ex j + holder hash (tt_store s) ex j th"
proof -
  have "section_shard hash (tt_store s') sec = section_shard hash (tt_store s) sec" for sec
    using assms(3) by (cases sec) (simp_all add: shard_index_def)
  then have "holder hash (tt_store s') ex j = holder hash (tt_store s) ex j"
    by (intro ext) (simp add: holder_def split: option.split)
  then show ?thesis
    using sum_list_map_update [OF assms(1), of "holder hash (tt_store s) ex j" th] assms(2)
    by (simp add: held_def)
qed

lemma locks_ok_same:
  assumes "locks_ok hash s" and "i < length (tt_threads s)" and "inside th = inside (tt_threads s ! i)"
    and "tt_threads s' = (tt_threads s)[i := th]" and "tt_locks s' = tt_locks s"
    and "st_shard_count (tt_store s') = st_shard_count (tt_store s)"
    and "length (st_shards (tt_store s')) = length (st_shards (tt_store s))"
  shows "locks_ok hash s'"
proof -
  have "held hash s' ex j = held hash s ex j" for ex j
    using held_update [OF assms(2,4,6), of hash ex j] holder_inside [OF assms(3), of hash "tt_store s" ex j] by simp
  with assms(1,5,7) show ?thesis by (simp add: locks_ok_def)
qed

lemma locks_ok_thread:
  "locks_ok hash s \<Longrightarrow> i < length (tt_threads s) \<Longrightarrow> inside th = inside (tt_threads s ! i) \<Longrightarrow>
   locks_ok hash (s\<lparr>tt_threads := (tt_threads s)[i := th]\<rparr>)"
  by (rule locks_ok_same) simp_all

lemma locks_ok_acquire:
  assumes "locks_ok hash s" and i: "i < length (tt_threads s)" "inside (tt_threads s ! i) = None"
    and th: "inside th = Some sec" and j: "section_shard hash (tt_store s) sec = j" "j < length (tt_locks s)"
    and m: "acquire (section_exclusive sec) (tt_locks s ! j) = Some m"
  shows "locks_ok hash (s\<lparr>tt_locks := (tt_locks s)[j := m], tt_threads := (tt_threads s)[i := th]\<rparr>)"
proof -
  let ?s = "s\<lparr>tt_locks := (tt_locks s)[j := m], tt_threads := (tt_threads s)[i := th]\<rparr>"
  have h: "held hash ?s ex k = held hash s ex k + (if section_exclusive sec = ex \<and> j = k then 1 else 0)" for ex k
    using held_update [OF i(1), of ?s th hash ex k] i(2) th j by (simp add: holder_def)
  show ?thesis
    using assms(1) mutex_ok_acquire [OF _ m] j by (auto simp: locks_ok_def h nth_list_update)
qed

lemma locks_ok_release:
  assumes "locks_ok hash s" and i: "i < length (tt_threads s)" "inside (tt_threads s ! i) = Some sec"
    and th: "inside th = None" and j: "section_shard hash (tt_store s) sec = j" "j < length (tt_locks s)"
  shows "locks_ok hash (s\<lparr>tt_locks := (tt_locks s)[j := release (section_exclusive sec) (tt_locks s ! j)],
    tt_threads := (tt_threads s)[i := th]\<rparr>)"
proof -
  let ?s = "s\<lparr>tt_locks := (tt_locks s)[j := release (section_exclusive sec) (tt_locks s ! j)],
    tt_threads := (tt_threads s)[i := th]\<rparr>"
  have h: "held hash s ex k = held hash ?s ex k + (if section_exclusive sec = ex \<and> j = k then 1 else 0)" for ex k
    using held_update [OF i(1), of ?s th hash ex k] i(2) th j by (simp add: holder_def)
  have ok: "mutex_ok (tt_locks s ! k) (held hash s False k) (held hash s True k)" if "k < length (tt_locks s)" for k
    using assms(1) that by (simp add: locks_ok_def)
  have "mutex_ok (tt_locks ?s ! k) (held hash ?s False k) (held hash ?s True k)" if k: "k < length (tt_locks s)" for k
  proof (cases "j = k")
    case True
    have "mutex_ok (release (section_exclusive sec) (tt_locks s ! k)) (held hash ?s False k) (held hash ?s True k)"
      using ok [OF k] True h [of False k] h [of True k]
      by (intro mutex_ok_release) (cases "section_exclusive sec"; simp)
    with True k show ?thesis by simp
  next
    case False
    with ok [OF k] h [of _ k] show ?thesis by simp
  qed
  with assms(1) show ?thesis by (simp add: locks_ok_def)
qed

end
