(* ===== verification/Store_Realtime.thy ===== *)
theory Store_Realtime
  imports Store_Threads
begin

text \<open>
  What the threads of \<^verbatim>\<open>Store_Threads\<close> achieve together: an invariant over all schedules, which
  relates each call in progress to the log of critical sections, and its consequences:
  linearizability in real time, mutual exclusion and freedom from deadlock.
\<close>

subsection \<open>The invariant\<close>

text \<open>The command called at \<open>called\<close> took effect at the place \<open>p\<close> of the log, not before it was called.\<close>

definition took_effect ::
  "(int \<times> critical_section) list \<Rightarrow> string list \<Rightarrow> TimePoint \<times> nat \<Rightarrow> Command \<Rightarrow> string \<Rightarrow> nat \<Rightarrow> bool" where
  "took_effect log replies called c response p \<longleftrightarrow>
     snd called \<le> p \<and> p < length log \<and> snd (log ! p) = Command_section c \<and> fst called \<le> fst (log ! p) \<and>
     replies ! length (log_commands (take p log)) = response"

definition section_ok :: "(string \<Rightarrow> u64) \<Rightarrow> Threads \<Rightarrow> Call \<Rightarrow> TimePoint \<Rightarrow> critical_section \<Rightarrow> bool" where
  "section_ok hash s call now sec \<longleftrightarrow>
     section_shard hash (tt_store s) sec < length (st_shards (tt_store s)) \<and>
     cl_time call \<le> now \<and> now \<le> system_clock_now (tt_clock s) \<and>
     (case sec of
        Command_section c \<Rightarrow> cl_job call = Run c
      | Erase_section key \<Rightarrow> cl_answer call \<noteq> None
      | Sweep_section i max_items \<Rightarrow> cl_job call = Sweep max_items)"

definition answered :: "Call \<Rightarrow> bool" where
  "answered call \<longleftrightarrow> (case cl_job call of Run c \<Rightarrow> cl_answer call \<noteq> None | Sweep max_items \<Rightarrow> True)"

fun stage_ok :: "(string \<Rightarrow> u64) \<Rightarrow> Threads \<Rightarrow> Call \<Rightarrow> stage \<Rightarrow> bool" where
  "stage_ok hash s call At_clock \<longleftrightarrow> True"
| "stage_ok hash s call (At_lock now sec) \<longleftrightarrow> section_ok hash s call now sec"
| "stage_ok hash s call (At_read now sec) \<longleftrightarrow> section_ok hash s call now sec"
| "stage_ok hash s call (At_write now sec response removed sh) \<longleftrightarrow>
     section_ok hash s call now sec \<and> section_exclusive sec \<and>
     section_body now sec (st_shards (tt_store s) ! section_shard hash (tt_store s) sec) = Inr (response, removed, sh)"
| "stage_ok hash s call (At_unlock now sec expired) \<longleftrightarrow> section_ok hash s call now sec \<and> answered call"
| "stage_ok hash s call At_return \<longleftrightarrow> answered call"

definition call_ok :: "Threads \<Rightarrow> string list \<Rightarrow> Call \<Rightarrow> bool" where
  "call_ok s replies call \<longleftrightarrow>
     cl_time call \<le> system_clock_now (tt_clock s) \<and> cl_position call \<le> length (tt_log s) \<and>
     (\<forall>p response. cl_answer call = Some (p, response) \<longrightarrow>
        (\<exists>c. cl_job call = Run c \<and>
           took_effect (tt_log s) replies (cl_time call, cl_position call) c response p))"

fun thread_ok :: "(string \<Rightarrow> u64) \<Rightarrow> Threads \<Rightarrow> string list \<Rightarrow> Thread \<Rightarrow> bool" where
  "thread_ok hash s replies Idle \<longleftrightarrow> True"
| "thread_ok hash s replies (Busy call stage) \<longleftrightarrow> call_ok s replies call \<and> stage_ok hash s call stage"

definition finished_ok :: "Threads \<Rightarrow> string list \<Rightarrow> Finished \<Rightarrow> bool" where
  "finished_ok s replies d \<longleftrightarrow>
     took_effect (tt_log s) replies (fi_called d) (fi_command d) (fi_response d) (fi_point d) \<and>
     fi_point d < snd (fi_returned d) \<and> snd (fi_returned d) \<le> length (tt_log s) \<and>
     (\<forall>e\<in>set (take (snd (fi_returned d)) (tt_log s)). fst e \<le> fst (fi_returned d))"

definition threads_inv :: "(string \<Rightarrow> u64) \<Rightarrow> Store \<Rightarrow> string list \<Rightarrow> Threads \<Rightarrow> bool" where
  "threads_inv hash st replies s \<longleftrightarrow>
     run_sections hash st (tt_log s) =
       Inr (replies, (tt_store s)\<lparr>st_active_expirations := st_active_expirations st\<rparr>) \<and>
     wf_store hash (tt_store s) \<and> locks_ok hash s \<and>
     (\<forall>th\<in>set (tt_threads s). thread_ok hash s replies th) \<and>
     (\<forall>d\<in>set (tt_finished s). finished_ok s replies d) \<and>
     (\<forall>e\<in>set (tt_log s). fst e \<le> system_clock_now (tt_clock s))"

subsection \<open>What other threads leave alone\<close>

text \<open>The log grows at its end, and time goes on.\<close>

definition later :: "Threads \<Rightarrow> string list \<Rightarrow> Threads \<Rightarrow> string list \<Rightarrow> bool" where
  "later s replies s' replies' \<longleftrightarrow>
     (\<exists>l r. tt_log s' = tt_log s @ l \<and> replies' = replies @ r) \<and> length replies = length (log_commands (tt_log s)) \<and>
     system_clock_now (tt_clock s) \<le> system_clock_now (tt_clock s') \<and>
     st_shard_count (tt_store s') = st_shard_count (tt_store s) \<and>
     length (st_shards (tt_store s')) = length (st_shards (tt_store s))"

lemma took_effect_later:
  assumes "took_effect log replies called c response p" and "length replies = length (log_commands log)"
  shows "took_effect (log @ l) (replies @ r) called c response p"
proof -
  have p: "p < length log" "snd (log ! p) = Command_section c" using assms(1) by (auto simp: took_effect_def)
  have "log_commands log = log_commands (take p log) @ log_commands (drop p log)"
    by (metis append_take_drop_id log_commands_simps(2))
  moreover have "log_commands (drop p log) \<noteq> []"
    using p by (cases "log ! p") (simp add: Cons_nth_drop_Suc [symmetric])
  ultimately have "length (log_commands (take p log)) < length replies" using assms(2) by simp
  with assms(1) show ?thesis by (auto simp: took_effect_def nth_append)
qed

lemma call_ok_later: "call_ok s replies call \<Longrightarrow> later s replies s' replies' \<Longrightarrow> call_ok s' replies' call"
  by (fastforce simp: call_ok_def later_def intro: took_effect_later)

lemma finished_ok_later: "finished_ok s replies d \<Longrightarrow> later s replies s' replies' \<Longrightarrow> finished_ok s' replies' d"
  by (auto simp: finished_ok_def later_def intro: took_effect_later)

lemma later_shard: "later s replies s' replies' \<Longrightarrow> section_shard hash (tt_store s') sec = section_shard hash (tt_store s) sec"
  by (cases sec) (simp_all add: later_def shard_index_def)

lemma section_ok_later: "section_ok hash s call now sec \<Longrightarrow> later s replies s' replies' \<Longrightarrow> section_ok hash s' call now sec"
  using later_shard [of s replies s' replies' hash sec] by (auto simp: section_ok_def later_def)

lemma thread_ok_later:
  assumes "thread_ok hash s replies th" and l: "later s replies s' replies'"
    and same: "\<And>sec. inside th = Some sec \<Longrightarrow> st_shards (tt_store s') ! section_shard hash (tt_store s) sec =
      st_shards (tt_store s) ! section_shard hash (tt_store s) sec"
  shows "thread_ok hash s' replies' th"
proof (cases th)
  case (Busy call stage)
  have "stage_ok hash s' call stage"
    using assms(1) section_ok_later [OF _ l] same Busy
    by (cases stage) (auto simp: later_shard [OF l])
  with assms(1) call_ok_later [OF _ l] Busy show ?thesis by simp
qed simp

subsection \<open>Steps keep the invariant\<close>

lemma threads_invD:
  assumes "threads_inv hash st replies s"
  shows "run_sections hash st (tt_log s) =
      Inr (replies, (tt_store s)\<lparr>st_active_expirations := st_active_expirations st\<rparr>)"
    and "wf_store hash (tt_store s)" and "locks_ok hash s"
    and "th \<in> set (tt_threads s) \<Longrightarrow> thread_ok hash s replies th"
    and "length replies = length (log_commands (tt_log s))"
    and "e \<in> set (tt_log s) \<Longrightarrow> fst e \<le> system_clock_now (tt_clock s)"
  using assms run_sections_length [of hash st "tt_log s"] by (auto simp: threads_inv_def)

lemma threads_inv_step:
  assumes inv: "threads_inv hash st replies s" and l: "later s replies s' replies'"
    and i: "i < length (tt_threads s)" "tt_threads s' = (tt_threads s)[i := th]"
    and run: "run_sections hash st (tt_log s') =
      Inr (replies', (tt_store s')\<lparr>st_active_expirations := st_active_expirations st\<rparr>)"
    and inv': "wf_store hash (tt_store s')" "locks_ok hash s'" "thread_ok hash s' replies' th"
    and others: "\<And>k sec. k < length (tt_threads s) \<Longrightarrow> k \<noteq> i \<Longrightarrow> inside (tt_threads s ! k) = Some sec \<Longrightarrow>
      st_shards (tt_store s') ! section_shard hash (tt_store s) sec =
      st_shards (tt_store s) ! section_shard hash (tt_store s) sec"
    and fin: "\<And>d. d \<in> set (tt_finished s') \<Longrightarrow> d \<in> set (tt_finished s) \<or> finished_ok s' replies' d"
    and log: "\<And>e. e \<in> set (tt_log s') \<Longrightarrow> e \<in> set (tt_log s) \<or> fst e \<le> system_clock_now (tt_clock s')"
  shows "threads_inv hash st replies' s'"
proof -
  have "thread_ok hash s' replies' (tt_threads s' ! k)" if k: "k < length (tt_threads s)" for k
  proof (cases "k = i")
    case False
    with thread_ok_later [OF threads_invD(4) [OF inv nth_mem [OF k]] l] others [OF k] i show ?thesis by simp
  qed (use i inv'(3) in simp)
  moreover have "fst e \<le> system_clock_now (tt_clock s')" if "e \<in> set (tt_log s')" for e
    using log [OF that] threads_invD(6) [OF inv, of e] l by (auto simp: later_def)
  moreover have "finished_ok s' replies' d" if "d \<in> set (tt_finished s')" for d
    using fin [OF that] finished_ok_later [OF _ l] inv by (auto simp: threads_inv_def)
  ultimately show ?thesis
    using run inv'(1,2) i by (auto simp: threads_inv_def in_set_conv_nth)
qed

lemma wf_store_counter [simp]: "wf_store hash (st\<lparr>st_active_expirations := a\<rparr>) = wf_store hash st"
  by (simp add: wf_store_def shard_index_def)

text \<open>A section that takes effect is one more section of the history.\<close>

definition section_reply :: "critical_section \<Rightarrow> string \<Rightarrow> string list" where
  "section_reply sec response = (case sec of Command_section c \<Rightarrow> [response] | _ \<Rightarrow> [])"

lemma run_one_more:
  assumes inv: "threads_inv hash st replies s" and j: "section_shard hash (tt_store s) sec < length (st_shards (tt_store s))"
    and body: "section_body now sec (st_shards (tt_store s) ! section_shard hash (tt_store s) sec) = Inr (response, removed, sh)"
    and st': "st' = (tt_store s)\<lparr>st_shards := (st_shards (tt_store s))[section_shard hash (tt_store s) sec := sh]\<rparr>"
  shows "run_sections hash st (tt_log s @ [(now, sec)]) =
      Inr (replies @ section_reply sec response, st'\<lparr>st_active_expirations := st_active_expirations st\<rparr>)"
    and "wf_store hash st'"
proof -
  let ?st = "(tt_store s)\<lparr>st_active_expirations := st_active_expirations st\<rparr>"
  have one: "run_sections hash ?st [(now, sec)] =
      Inr (section_reply sec response, ?st\<lparr>st_shards := (st_shards ?st)[section_shard hash ?st sec := sh]\<rparr>)"
    unfolding section_reply_def
    by (rule run_section_body) (use threads_invD(2) [OF inv] j body in simp_all)
  have eq: "?st\<lparr>st_shards := (st_shards ?st)[section_shard hash ?st sec := sh]\<rparr> =
      st'\<lparr>st_active_expirations := st_active_expirations st\<rparr>" by (simp add: st')
  show "run_sections hash st (tt_log s @ [(now, sec)]) =
      Inr (replies @ section_reply sec response, st'\<lparr>st_active_expirations := st_active_expirations st\<rparr>)"
    using one unfolding run_sections_append threads_invD(1) [OF inv] eq by simp
  show "wf_store hash st'"
    using run_sections_wf [OF one] threads_invD(2) [OF inv] unfolding eq by simp
qed

lemma take_effect_ok:
  assumes c: "call_ok s replies call" and len: "length replies = length (log_commands (tt_log s))"
    and now: "cl_time call \<le> now" "now \<le> system_clock_now (tt_clock s)"
    and job: "\<And>c. sec = Command_section c \<Longrightarrow> cl_job call = Run c"
    and s': "tt_log s' = tt_log s @ [(now, sec)]" "tt_clock s' = tt_clock s"
  shows "call_ok s' (replies @ section_reply sec response) (take_effect now sec response removed s call)"
proof -
  have grow: "took_effect (tt_log s @ l) replies called c r p" if "took_effect (tt_log s) replies called c r p" for l called c r p
    using took_effect_later [OF that len, of l "[]"] by simp
  show ?thesis
  proof (cases sec)
    case (Command_section c)
    have "took_effect (tt_log s') (replies @ [response]) (cl_time call, cl_position call) c response (length (tt_log s))"
      using c len now by (simp add: took_effect_def s' Command_section call_ok_def nth_append)
    with c job s' show ?thesis
      by (simp add: call_ok_def take_effect_def Command_section section_reply_def)
  qed (use c grow s' in \<open>auto simp: call_ok_def take_effect_def section_reply_def\<close>)
qed

lemma take_effect_simps [simp]:
  "cl_job (take_effect now sec response removed s call) = cl_job call"
  "cl_time (take_effect now sec response removed s call) = cl_time call"
  "cl_position (take_effect now sec response removed s call) = cl_position call"
  by (simp_all add: take_effect_def)

lemma laterI:
  assumes "threads_inv hash st replies s" and "tt_log s' = tt_log s @ l" and "replies' = replies @ r"
    and "tt_clock s' = tt_clock s" and "st_shard_count (tt_store s') = st_shard_count (tt_store s)"
    and "length (st_shards (tt_store s')) = length (st_shards (tt_store s))"
  shows "later s replies s' replies'"
  using assms threads_invD(5) [OF assms(1)] by (auto simp: later_def)

text \<open>A step that leaves the store and the log alone.\<close>

lemma threads_inv_quiet:
  assumes inv: "threads_inv hash st replies s" and i: "i < length (tt_threads s)" "tt_threads s' = (tt_threads s)[i := th]"
    and same: "tt_store s' = tt_store s" "tt_log s' = tt_log s" "tt_clock s' = tt_clock s" "tt_finished s' = tt_finished s"
    and ok: "locks_ok hash s'" "thread_ok hash s replies th"
  shows "threads_inv hash st replies s'"
proof -
  have l: "later s replies s' replies" by (rule laterI [OF inv]) (simp_all add: same)
  show ?thesis
    by (rule threads_inv_step [OF inv l i]) (use threads_invD [OF inv] ok thread_ok_later [OF ok(2) l] same in simp_all)
qed

text \<open>A step of a thread by which a section takes effect.\<close>

lemma threads_inv_effect:
  assumes inv: "threads_inv hash st replies s" and i: "i < length (tt_threads s)" "tt_threads s ! i = Busy call stage"
    and sec: "section_ok hash s call now sec"
    and body: "section_body now sec (st_shards (tt_store s) ! section_shard hash (tt_store s) sec) = Inr (response, removed, sh)"
    and alone: "sh \<noteq> st_shards (tt_store s) ! section_shard hash (tt_store s) sec \<Longrightarrow>
      section_exclusive sec \<and> inside (tt_threads s ! i) = Some sec"
    and th: "th = Busy (take_effect now sec response removed s call) stage'" "inside th = inside (tt_threads s ! i)"
      "\<And>s'. section_ok hash s' (take_effect now sec response removed s call) now sec \<Longrightarrow>
        stage_ok hash s' (take_effect now sec response removed s call) stage'"
    and s': "s' = s\<lparr>tt_store := (tt_store s)\<lparr>st_shards := (st_shards (tt_store s))[section_shard hash (tt_store s) sec := sh]\<rparr>,
      tt_log := tt_log s @ [(now, sec)], tt_threads := (tt_threads s)[i := th]\<rparr>"
  shows "threads_inv hash st (replies @ section_reply sec response) s'"
proof -
  let ?j = "section_shard hash (tt_store s) sec" and ?call = "take_effect now sec response removed s call"
  have j: "?j < length (st_shards (tt_store s))" using sec by (simp add: section_ok_def)
  note more = run_one_more [OF inv j body refl]
  have l: "later s replies s' (replies @ section_reply sec response)"
    by (rule laterI [OF inv]) (simp_all add: s')
  have call: "call_ok s replies call" using threads_invD(4) [OF inv nth_mem [OF i(1)]] i(2) by simp
  have "section_ok hash s' ?call now sec"
    using sec by (auto simp: section_ok_def s' take_effect_def split: critical_section.splits)
  moreover have "call_ok s' (replies @ section_reply sec response) ?call"
    using call threads_invD(5) [OF inv] sec
    by (intro take_effect_ok) (auto simp: section_ok_def s')
  ultimately have "thread_ok hash s' (replies @ section_reply sec response) th" using th by simp
  moreover have "st_shards (tt_store s') ! section_shard hash (tt_store s) sec' =
      st_shards (tt_store s) ! section_shard hash (tt_store s) sec'"
    if k: "k < length (tt_threads s)" "k \<noteq> i" "inside (tt_threads s ! k) = Some sec'" for k sec'
  proof (cases "sh = st_shards (tt_store s) ! ?j")
    case False
    with alone exclusive_alone [OF threads_invD(3) [OF inv] i(1) _ k(1,3)] k(2) j threads_invD(3) [OF inv]
    show ?thesis by (auto simp: s' locks_ok_def)
  qed (simp add: s')
  moreover have "locks_ok hash s'"
    by (rule locks_ok_same [OF threads_invD(3) [OF inv] i(1) th(2)]) (simp_all add: s')
  ultimately show ?thesis
    using more sec by (intro threads_inv_step [OF inv l i(1)]) (auto simp: s' section_ok_def)
qed

lemma first_section_ok:
  assumes inv: "threads_inv hash st replies s" and "call_ok s replies call"
  shows "section_ok hash s call (system_clock_now (tt_clock s)) (first_section (cl_job call))"
proof -
  have "0 < length (st_shards (tt_store s))" using threads_invD(2) [OF inv] by (auto simp: wf_store_def)
  with assms(2) shard_index_bound [OF threads_invD(2) [OF inv]] show ?thesis
    by (cases "cl_job call") (simp_all add: section_ok_def call_ok_def)
qed

lemma after_section_ok:
  assumes inv: "threads_inv hash st replies s" and "section_ok hash s call now sec" and "answered call"
  shows "stage_ok hash s call (after_section (length (st_shards (tt_store s))) now sec expired)"
    and "inside (Busy call (after_section (length (st_shards (tt_store s))) now sec expired)) = None"
  using assms(2,3) shard_index_bound [OF threads_invD(2) [OF inv]]
  by (cases sec; auto simp: section_ok_def answered_def)+

lemma ping_body:
  "cmd_type c = kPing \<Longrightarrow> section_body now (Command_section c) sh = Inr (dispatch_ping, 0, sh)"
  by (simp add: command_body_def)

lemma finish_inv:
  assumes inv: "threads_inv hash st replies s" and i: "i < length (tt_threads s)" "tt_threads s ! i = Busy call At_return"
  shows "threads_inv hash st replies ((finish s call)\<lparr>tt_threads := (tt_threads s)[i := Idle]\<rparr>)"
proof -
  let ?s = "(finish s call)\<lparr>tt_threads := (tt_threads s)[i := Idle]\<rparr>"
  have ok: "call_ok s replies call" "answered call" using threads_invD(4) [OF inv nth_mem [OF i(1)]] i(2) by simp_all
  have frame: "tt_log (finish s call) = tt_log s" "tt_clock (finish s call) = tt_clock s"
    "tt_locks (finish s call) = tt_locks s" "tt_threads (finish s call) = tt_threads s"
    "(tt_store (finish s call))\<lparr>st_active_expirations := a\<rparr> = (tt_store s)\<lparr>st_active_expirations := a\<rparr>"
    "st_shards (tt_store (finish s call)) = st_shards (tt_store s)"
    "st_shard_count (tt_store (finish s call)) = st_shard_count (tt_store s)"
    "wf_store hash (tt_store (finish s call)) = wf_store hash (tt_store s)" for a
    by (simp_all add: finish_def split: job.split option.split)
  have l: "later s replies ?s replies" by (rule laterI [OF inv]) (simp_all add: frame)
  have "d \<in> set (tt_finished s) \<or> finished_ok ?s replies d" if "d \<in> set (tt_finished ?s)" for d
    using that ok threads_invD(6) [OF inv]
    by (auto simp: finish_def finished_ok_def call_ok_def took_effect_def frame split: job.splits option.splits)
  moreover have "locks_ok hash ?s"
    by (rule locks_ok_same [OF threads_invD(3) [OF inv] i(1), of Idle]) (simp_all add: i(2) frame)
  ultimately show ?thesis
    using threads_invD(1,2) [OF inv]
    by (intro threads_inv_step [OF inv l i(1), of Idle]) (auto simp: frame)
qed

lemma clock_inv:
  assumes inv: "threads_inv hash st replies s" and i: "i < length (tt_threads s)" "tt_threads s ! i = Busy call At_clock"
    and go: "thread_go hash i s = Some s'"
  shows "\<exists>r. threads_inv hash st (replies @ r) s'"
proof -
  let ?now = "system_clock_now (tt_clock s)"
  have call: "call_ok s replies call" using threads_invD(4) [OF inv nth_mem [OF i(1)]] i(2) by simp
  note first = first_section_ok [OF inv call]
  show ?thesis
  proof (cases "\<exists>c. cl_job call = Run c \<and> cmd_type c = kPing")
    case True
    then obtain c where c: "cl_job call = Run c" "cmd_type c = kPing" by blast
    let ?th = "Busy (take_effect ?now (Command_section c) dispatch_ping 0 s call) At_return"
    have s': "s' = s\<lparr>tt_log := tt_log s @ [(?now, Command_section c)], tt_threads := (tt_threads s)[i := ?th]\<rparr>"
      using go i c by (simp add: thread_go_def Let_def)
    have "threads_inv hash st (replies @ section_reply (Command_section c) dispatch_ping) s'"
      by (rule threads_inv_effect [OF inv i(1,2) first [unfolded c first_section.simps] ping_body [OF c(2)]])
        (auto simp: i s' answered_def take_effect_def split: job.split)
    then show ?thesis by blast
  next
    case False
    then have "s' = s\<lparr>tt_threads := (tt_threads s)[i := Busy call (At_lock ?now (first_section (cl_job call)))]\<rparr>"
      using go i by (auto simp: thread_go_def Let_def split: job.splits if_splits)
    then have "threads_inv hash st replies s'"
      using call first locks_ok_thread [OF threads_invD(3) [OF inv] i(1)] i
      by (intro threads_inv_quiet [OF inv i(1)]) auto
    then show ?thesis by (metis append_Nil2)
  qed
qed

lemma lock_inv:
  assumes inv: "threads_inv hash st replies s" and i: "i < length (tt_threads s)" "tt_threads s ! i = Busy call (At_lock now sec)"
    and go: "thread_go hash i s = Some s'"
  shows "threads_inv hash st replies s'"
proof -
  let ?j = "section_shard hash (tt_store s) sec"
  have ok: "call_ok s replies call" "section_ok hash s call now sec"
    using threads_invD(4) [OF inv nth_mem [OF i(1)]] i(2) by simp_all
  from go i obtain m where m: "acquire (section_exclusive sec) (tt_locks s ! ?j) = Some m"
    and s': "s' = s\<lparr>tt_locks := (tt_locks s)[?j := m], tt_threads := (tt_threads s)[i := Busy call (At_read now sec)]\<rparr>"
    by (auto simp: thread_go_def Let_def split: option.splits)
  have "?j < length (tt_locks s)" using ok threads_invD(3) [OF inv] by (simp add: section_ok_def locks_ok_def)
  then have "locks_ok hash s'"
    unfolding s' by (intro locks_ok_acquire [OF threads_invD(3) [OF inv] i(1) _ _ refl _ m]) (simp_all add: i)
  with ok show ?thesis by (intro threads_inv_quiet [OF inv i(1)]) (auto simp: s')
qed

lemma read_inv:
  assumes inv: "threads_inv hash st replies s" and i: "i < length (tt_threads s)" "tt_threads s ! i = Busy call (At_read now sec)"
    and go: "thread_go hash i s = Some s'"
  shows "\<exists>r. threads_inv hash st (replies @ r) s'"
proof -
  let ?sh = "st_shards (tt_store s) ! section_shard hash (tt_store s) sec"
  have ok: "call_ok s replies call" "section_ok hash s call now sec"
    using threads_invD(4) [OF inv nth_mem [OF i(1)]] i(2) by simp_all
  from go i obtain response removed sh where body: "section_body now sec ?sh = Inr (response, removed, sh)"
    by (auto simp: thread_go_def Let_def split: sum.splits)
  show ?thesis
  proof (cases "section_exclusive sec")
    case True
    then have "s' = s\<lparr>tt_threads := (tt_threads s)[i := Busy call (At_write now sec response removed sh)]\<rparr>"
      using go i body by (simp add: thread_go_def Let_def)
    then have "threads_inv hash st replies s'"
      using ok body True locks_ok_thread [OF threads_invD(3) [OF inv] i(1)] i
      by (intro threads_inv_quiet [OF inv i(1)]) auto
    then show ?thesis by (metis append_Nil2)
  next
    case False
    from shared_section_body [OF False body] obtain c where c: "sec = Command_section c" and sh: "sh = ?sh" by blast
    obtain expired where s': "s' = s\<lparr>tt_log := tt_log s @ [(now, sec)], tt_threads := (tt_threads s)
        [i := Busy (take_effect now sec response removed s call) (At_unlock now sec expired)]\<rparr>"
      using go i body False by (auto simp: thread_go_def Let_def)
    have "threads_inv hash st (replies @ section_reply sec response) s'"
      by (rule threads_inv_effect [OF inv i(1,2) ok(2) body])
        (use sh in \<open>auto simp: i s' c answered_def take_effect_def split: job.split\<close>)
    then show ?thesis by blast
  qed
qed

lemma write_inv:
  assumes inv: "threads_inv hash st replies s" and i: "i < length (tt_threads s)"
      "tt_threads s ! i = Busy call (At_write now sec response removed sh)"
    and go: "thread_go hash i s = Some s'"
  shows "threads_inv hash st (replies @ section_reply sec response) s'"
proof -
  have ok: "section_ok hash s call now sec" "section_exclusive sec"
    "section_body now sec (st_shards (tt_store s) ! section_shard hash (tt_store s) sec) = Inr (response, removed, sh)"
    using threads_invD(4) [OF inv nth_mem [OF i(1)]] i(2) by simp_all
  let ?th = "Busy (take_effect now sec response removed s call) (At_unlock now sec False)"
  have s': "s' = s\<lparr>tt_store := (tt_store s)\<lparr>st_shards := (st_shards (tt_store s))[section_shard hash (tt_store s) sec := sh]\<rparr>,
      tt_log := tt_log s @ [(now, sec)], tt_threads := (tt_threads s)[i := ?th]\<rparr>"
    using go i by (simp add: thread_go_def Let_def)
  have "answered (take_effect now sec response removed s call)"
    using threads_invD(4) [OF inv nth_mem [OF i(1)]] i(2) ok(1)
    by (auto simp: answered_def take_effect_def section_ok_def split: job.split critical_section.splits)
  then show ?thesis
    by (intro threads_inv_effect [OF inv i(1,2) ok(1,3) _ refl _ _ s']) (simp_all add: i ok)
qed

lemma unlock_inv:
  assumes inv: "threads_inv hash st replies s" and i: "i < length (tt_threads s)"
      "tt_threads s ! i = Busy call (At_unlock now sec expired)"
    and go: "thread_go hash i s = Some s'"
  shows "threads_inv hash st replies s'"
proof -
  let ?j = "section_shard hash (tt_store s) sec"
  let ?th = "Busy call (after_section (length (st_shards (tt_store s))) now sec expired)"
  have ok: "call_ok s replies call" "section_ok hash s call now sec" "answered call"
    using threads_invD(4) [OF inv nth_mem [OF i(1)]] i(2) by simp_all
  have s': "s' = s\<lparr>tt_locks := (tt_locks s)[?j := release (section_exclusive sec) (tt_locks s ! ?j)],
      tt_threads := (tt_threads s)[i := ?th]\<rparr>"
    using go i by (simp add: thread_go_def Let_def)
  have "?j < length (tt_locks s)" using ok threads_invD(3) [OF inv] by (simp add: section_ok_def locks_ok_def)
  then have "locks_ok hash s'"
    unfolding s' by (intro locks_ok_release [OF threads_invD(3) [OF inv] i(1) _ _ refl])
      (simp_all add: i after_section_ok [OF inv ok(2,3)])
  with ok after_section_ok [OF inv ok(2,3)] show ?thesis by (intro threads_inv_quiet [OF inv i(1)]) (auto simp: s')
qed

lemma thread_go_inv:
  assumes inv: "threads_inv hash st replies s" and go: "thread_go hash i s = Some s'"
  shows "\<exists>r. threads_inv hash st (replies @ r) s'"
proof -
  from go obtain call stage where i: "i < length (tt_threads s)" "tt_threads s ! i = Busy call stage"
    by (auto simp: thread_go_def Let_def split: if_splits Thread.splits)
  show ?thesis
  proof (cases stage)
    case At_clock
    with clock_inv [OF inv i(1) _ go] i(2) show ?thesis by simp
  next
    case (At_lock now sec)
    with lock_inv [OF inv i(1) _ go] i(2) show ?thesis by (metis append_Nil2)
  next
    case (At_read now sec)
    with read_inv [OF inv i(1) _ go] i(2) show ?thesis by simp
  next
    case (At_write now sec response removed sh)
    with write_inv [OF inv i(1) _ go] i(2) show ?thesis by blast
  next
    case (At_unlock now sec expired)
    with unlock_inv [OF inv i(1) _ go] i(2) show ?thesis by (metis append_Nil2)
  next
    case At_return
    with go i have "s' = (finish s call)\<lparr>tt_threads := (tt_threads s)[i := Idle]\<rparr>"
      by (auto simp: thread_go_def finish_def split: job.splits option.splits)
    with finish_inv [OF inv i(1)] i(2) At_return show ?thesis by (metis append_Nil2)
  qed
qed

lemma act_inv:
  assumes inv: "threads_inv hash st replies s" and a: "act hash a s = Some s'"
  shows "\<exists>r. threads_inv hash st (replies @ r) s'"
proof (cases a)
  case (Tick n)
  then have s': "s' = s\<lparr>tt_clock := steady_tick (tt_clock s) n\<rparr>" and n: "0 \<le> n" using a by (auto split: if_splits)
  have l: "later s replies s' replies"
    using threads_invD(5) [OF inv] system_clock.past_reading [OF order_refl n, of "tt_clock s"] by (simp add: later_def s')
  have "threads_inv hash st replies s'"
    unfolding threads_inv_def
  proof (intro conjI ballI)
    show "locks_ok hash s'" using threads_invD(3) [OF inv] by (simp add: locks_ok_def held_def s')
    show "thread_ok hash s' replies th" if "th \<in> set (tt_threads s')" for th
      using thread_ok_later [OF threads_invD(4) [OF inv] l] that by (simp add: s')
    show "finished_ok s' replies d" if "d \<in> set (tt_finished s')" for d
      using finished_ok_later [OF _ l] inv that by (auto simp: threads_inv_def s')
    show "fst e \<le> system_clock_now (tt_clock s')" if "e \<in> set (tt_log s')" for e
      using threads_invD(6) [OF inv, of e] l that by (auto simp: later_def s')
  qed (use threads_invD(1,2) [OF inv] in \<open>simp_all add: s'\<close>)
  then show ?thesis by (metis append_Nil2)
next
  case (Begin i job)
  let ?call = "\<lparr>cl_job = job, cl_time = system_clock_now (tt_clock s), cl_position = length (tt_log s),
    cl_answer = None, cl_removed = 0\<rparr>"
  have i: "i < length (tt_threads s)" "tt_threads s ! i = Idle"
    and s': "s' = s\<lparr>tt_threads := (tt_threads s)[i := Busy ?call At_clock]\<rparr>"
    using a Begin by (auto split: if_splits Thread.splits)
  have "threads_inv hash st replies s'"
    using locks_ok_thread [OF threads_invD(3) [OF inv] i(1)] i
    by (intro threads_inv_quiet [OF inv i(1)]) (auto simp: s' call_ok_def)
  then show ?thesis by (metis append_Nil2)
next
  case (Go i)
  with a show ?thesis by (simp add: thread_go_inv [OF inv])
qed

lemma run_threads_inv:
  "run_threads hash as s = Some s' \<Longrightarrow> threads_inv hash st replies s \<Longrightarrow> \<exists>replies'. threads_inv hash st replies' s'"
proof (induction as arbitrary: s replies)
  case (Cons a as)
  then obtain s1 where s1: "act hash a s = Some s1" "run_threads hash as s1 = Some s'" by (auto split: option.splits)
  from act_inv [OF Cons.prems(2) s1(1)] Cons.IH [OF s1(2)] show ?case by blast
qed auto

lemma start_threads_inv:
  assumes "make_store m = Inr st"
  shows "threads_inv hash st [] (start_threads n st ck)"
proof -
  have "held hash (start_threads n st ck) ex j = 0" for ex j
    by (simp add: held_def start_threads_def sum_list_replicate)
  then have "locks_ok hash (start_threads n st ck)"
    by (auto simp: locks_ok_def mutex_ok_def start_threads_def unlocked_def)
  with make_store_wf(1) [OF assms, of hash] show ?thesis
    by (simp add: threads_inv_def start_threads_def)
qed

subsection \<open>When a command takes effect\<close>

lemma effective_append:
  "effective seen (ss @ ss') ts \<Longrightarrow>
     \<exists>ts1 ts2. ts = ts1 @ ts2 \<and> effective seen ss ts1 \<and> effective (seen \<union> fst ` set ss) ss' ts2"
proof (induction ss arbitrary: seen ts)
  case (Cons e ss)
  obtain now sec where e: "e = (now, sec)" by (cases e)
  have seen: "insert now seen \<union> fst ` set ss = seen \<union> fst ` set (e # ss)" by (auto simp: e)
  show ?case
  proof (cases sec)
    case (Command_section c)
    with Cons.prems obtain t ts' where t: "ts = t # ts'" "t = now \<or> now < t \<and> t \<in> seen"
      and "effective (insert now seen) (ss @ ss') ts'" by (auto simp: e split: list.splits)
    from Cons.IH [OF this(3)] obtain ts1 ts2 where
      "ts' = ts1 @ ts2" "effective (insert now seen) ss ts1" "effective (seen \<union> fst ` set (e # ss)) ss' ts2"
      unfolding seen by blast
    with t show ?thesis
      by (intro exI [of _ "t # ts1"] exI [of _ ts2]) (simp add: e Command_section)
  qed (use Cons.prems Cons.IH [of "insert now seen" ts, unfolded seen] in \<open>simp_all add: e\<close>)
qed simp

text \<open>
  The effective time of the command at a place of the log is not before its own reading, and is
  a reading of a section up to that place.
\<close>

lemma effective_at:
  assumes e: "effective {} log ts" and p: "p < length log" "snd (log ! p) = Command_section c"
  defines "k \<equiv> length (log_commands (take p log))"
  shows "fst (log ! p) \<le> ts ! k" and "ts ! k \<in> fst ` set (take (Suc p) log)"
proof -
  obtain now where now: "log ! p = (now, Command_section c)" using p(2) by (cases "log ! p") simp
  have "log = take p log @ (now, Command_section c) # drop (Suc p) log"
    using id_take_nth_drop [OF p(1)] now by simp
  with e effective_append [of "{}" "take p log" "(now, Command_section c) # drop (Suc p) log" ts]
  obtain ts1 ts2 where ts: "ts = ts1 @ ts2" and e1: "effective {} (take p log) ts1"
    and e2: "effective (fst ` set (take p log)) ((now, Command_section c) # drop (Suc p) log) ts2"
    by auto
  from e2 obtain t ts3 where t: "ts2 = t # ts3" "t = now \<or> now < t \<and> t \<in> fst ` set (take p log)"
    by (auto split: list.splits)
  have "ts ! k = t" using effective_length [OF e1] by (simp add: ts t(1) k_def nth_append)
  with t(2) now p(1) show "fst (log ! p) \<le> ts ! k" and "ts ! k \<in> fst ` set (take (Suc p) log)"
    by (auto simp: take_Suc_conv_app_nth)
qed

lemma finished_effective:
  assumes "finished_ok s replies d" and "effective {} (tt_log s) ts"
  defines "k \<equiv> length (log_commands (take (fi_point d) (tt_log s)))"
  shows "fst (fi_called d) \<le> ts ! k \<and> ts ! k \<le> fst (fi_returned d)"
proof -
  have p: "fi_point d < length (tt_log s)" "snd (tt_log s ! fi_point d) = Command_section (fi_command d)"
    and called: "fst (fi_called d) \<le> fst (tt_log s ! fi_point d)"
    and ret: "Suc (fi_point d) \<le> snd (fi_returned d)"
      "\<And>e. e \<in> set (take (snd (fi_returned d)) (tt_log s)) \<Longrightarrow> fst e \<le> fst (fi_returned d)"
    using assms(1) by (auto simp: finished_ok_def took_effect_def)
  note at = effective_at [OF assms(2) p, folded k_def]
  from set_take_subset_set_take [OF ret(1), of "tt_log s"] ret(2) at(2)
  have "ts ! k \<le> fst (fi_returned d)" by auto
  with called at(1) show ?thesis by simp
qed

subsection \<open>Linearizability in real time\<close>

text \<open>
  C3. The store is linearizable in real time: in every run of any number of threads that call its
  operations, each command that has returned took effect at one place of the log of critical
  sections, after it was called and before it returned; the contents of the store and all
  responses are those of the sections executed one after the other in the order of the log; and
  the responses are those of the map with deadlines at effective times that each lie between the
  call of the command and its return.
\<close>

theorem store_calls_linearizable:
  assumes "make_store m = Inr st" and "run_threads hash as (start_threads n st ck) = Some s"
  shows "\<exists>replies ts. run_sections hash st (tt_log s) =
      Inr (replies, (tt_store s)\<lparr>st_active_expirations := st_active_expirations st\<rparr>) \<and>
    effective {} (tt_log s) ts \<and>
    replies = map encode_reply (timed_events Map.empty (zip ts (log_commands (tt_log s)))) \<and>
    (\<forall>d\<in>set (tt_finished s). let k = length (log_commands (take (fi_point d) (tt_log s))) in
       snd (fi_called d) \<le> fi_point d \<and> fi_point d < snd (fi_returned d) \<and>
       snd (tt_log s ! fi_point d) = Command_section (fi_command d) \<and> replies ! k = fi_response d \<and>
       fst (fi_called d) \<le> ts ! k \<and> ts ! k \<le> fst (fi_returned d))"
proof -
  from run_threads_inv [OF assms(2) start_threads_inv [OF assms(1)]]
  obtain replies where inv: "threads_inv hash st replies s" by blast
  from run_sections_replies(1) [OF assms(1) threads_invD(1) [OF inv]] obtain ts
    where ts: "effective {} (tt_log s) ts" "replies = map encode_reply (timed_events Map.empty (zip ts (log_commands (tt_log s))))"
    by blast
  have "finished_ok s replies d" if "d \<in> set (tt_finished s)" for d using inv that by (simp add: threads_inv_def)
  with threads_invD(1) [OF inv] ts finished_effective [OF _ ts(1)] show ?thesis
    by (intro exI [of _ replies] exI [of _ ts]) (auto simp: Let_def finished_ok_def took_effect_def)
qed

definition one_shard :: Store where
  "one_shard = \<lparr>st_shard_count = 1, st_shards = [empty_shard], st_active_expirations = 0\<rparr>"

text \<open>
  A thread calls EXPIRE with 5 seconds, reads the clock and is held up for 10 seconds. Another
  thread sets the key. The first goes on; then the second reads the key.
\<close>

definition demo_schedule :: "action list" where
  "demo_schedule =
    [Begin 0 (Run (cmd kExpire ''k'' [] 5)), Go 0, Tick 10000000000, Begin 1 (Run (cmd kSet ''k'' ''v'' 0))] @
    replicate 6 (Go 1) @ replicate 5 (Go 0) @ [Begin 1 (Run (cmd kGet ''k'' [] 0))] @ replicate 9 (Go 1)"

definition demo_threads :: Threads where
  "demo_threads = the (run_threads demo_hash demo_schedule (start_threads 2 one_shard \<lparr>ck_nanoseconds = 0\<rparr>))"

lemma make_store_1: "make_store 1 = Inr one_shard"
  by (simp add: make_store_def normalize_shard_count_def bit_ceil_def pow2_from.simps one_shard_def)

lemma demo_threads_check:
  "case run_threads demo_hash demo_schedule (start_threads 2 one_shard \<lparr>ck_nanoseconds = 0\<rparr>) of
     None \<Rightarrow> False
   | Some s \<Rightarrow> map (\<lambda>d. (fi_command d, fi_response d, fst (fi_called d), fst (fi_returned d))) (tt_finished s) =
       [(cmd kSet ''k'' ''v'' 0, encode_simple_string ''OK'', 10000000000, 10000000000),
        (cmd kExpire ''k'' [] 5, encode_integer 1, 0, 10000000000),
        (cmd kGet ''k'' [] 0, encode_null_bulk_string, 10000000000, 10000000000)]"
  by code_simp

lemma demo_threads_run: "run_threads demo_hash demo_schedule (start_threads 2 one_shard \<lparr>ck_nanoseconds = 0\<rparr>) = Some demo_threads"
  and demo_threads_finished:
    "map (\<lambda>d. (fi_command d, fi_response d, fst (fi_called d), fst (fi_returned d))) (tt_finished demo_threads) =
       [(cmd kSet ''k'' ''v'' 0, encode_simple_string ''OK'', 10000000000, 10000000000),
        (cmd kExpire ''k'' [] 5, encode_integer 1, 0, 10000000000),
        (cmd kGet ''k'' [] 0, encode_null_bulk_string, 10000000000, 10000000000)]"
  using demo_threads_check by (auto simp: demo_threads_def split: option.splits)

theorem store_calls_linearizable_witness:
  "make_store 1 = Inr one_shard \<and> length (tt_finished demo_threads) = 3 \<and>
   (\<exists>replies ts. effective {} (tt_log demo_threads) ts \<and>
     replies = map encode_reply (timed_events Map.empty (zip ts (log_commands (tt_log demo_threads)))) \<and>
     list_all (\<lambda>d. let k = length (log_commands (take (fi_point d) (tt_log demo_threads))) in
       replies ! k = fi_response d \<and> fst (fi_called d) \<le> ts ! k \<and> ts ! k \<le> fst (fi_returned d)) (tt_finished demo_threads))"
proof -
  have "length (tt_finished demo_threads) = 3"
    using arg_cong [OF demo_threads_finished, of length] by simp
  with make_store_1 store_calls_linearizable [OF make_store_1 demo_threads_run] show ?thesis
    by (auto simp: list_all_iff Let_def)
qed

text \<open>
  C40. EXPIRE reads the clock before it waits for the lock, and computes the deadline from that
  reading. A thread that is held up in between can therefore kill a key at once: SET returns;
  EXPIRE with 5 seconds returns 1; GET, called after that and in the same instant in which the
  others return, finds nothing. No order of the three commands that keeps SET before GET gives
  these responses by the command table, at whatever time EXPIRE takes effect before SET, or at
  the time of the others after it.
\<close>

theorem delayed_expire_kills_key:
  "(\<exists>as s. run_threads demo_hash as (start_threads 2 one_shard \<lparr>ck_nanoseconds = 0\<rparr>) = Some s \<and>
     map (\<lambda>d. (fi_command d, fi_response d, fst (fi_called d), fst (fi_returned d))) (tt_finished s) =
       [(cmd kSet ''k'' ''v'' 0, encode_simple_string ''OK'', 10 * ns_per_s, 10 * ns_per_s),
        (cmd kExpire ''k'' [] 5, encode_integer 1, 0, 10 * ns_per_s),
        (cmd kGet ''k'' [] 0, encode_null_bulk_string, 10 * ns_per_s, 10 * ns_per_s)]) \<and>
   spec_events Map.empty [(t, cmd kExpire ''k'' [] 5), (10 * ns_per_s, cmd kSet ''k'' ''v'' 0),
     (10 * ns_per_s, cmd kGet ''k'' [] 0)] \<noteq> [IntegerReply 1, SimpleReply ''OK'', NullReply] \<and>
   spec_events Map.empty [(10 * ns_per_s, cmd kSet ''k'' ''v'' 0), (10 * ns_per_s, cmd kExpire ''k'' [] 5),
     (10 * ns_per_s, cmd kGet ''k'' [] 0)] \<noteq> [SimpleReply ''OK'', IntegerReply 1, NullReply] \<and>
   spec_events Map.empty [(10 * ns_per_s, cmd kSet ''k'' ''v'' 0), (10 * ns_per_s, cmd kGet ''k'' [] 0),
     (10 * ns_per_s, cmd kExpire ''k'' [] 5)] \<noteq> [SimpleReply ''OK'', NullReply, IntegerReply 1]"
  using demo_threads_run demo_threads_finished
  by (intro conjI exI [of _ demo_schedule] exI [of _ demo_threads])
    (simp_all add: spec_exec_def purge_def cmd_def ns_per_s_def Let_def)

subsection \<open>Locking\<close>

lemma nobody_inside:
  assumes "locks_ok hash s" and "\<And>th. th \<in> set (tt_threads s) \<Longrightarrow> inside th = None" and "j < length (tt_locks s)"
  shows "acquire exclusive (tt_locks s ! j) \<noteq> None"
proof -
  have "holder hash (tt_store s) ex j th = 0" if "th \<in> set (tt_threads s)" for ex th
    using assms(2) [OF that] by (simp add: holder_def)
  then have "held hash s ex j = 0" for ex by (simp add: held_def)
  with assms(1,3) show ?thesis by (auto simp: locks_ok_def mutex_ok_def acquire_def split: if_splits)
qed

lemma inside_goes:
  assumes "k < length (tt_threads s)" and "inside (tt_threads s ! k) = Some sec"
  obtains "thread_go hash k s \<noteq> None"
  | call now u where "tt_threads s ! k = Busy call (At_read now sec)"
      "section_body now sec (st_shards (tt_store s) ! section_shard hash (tt_store s) sec) = Inl u"
proof -
  obtain call stage where th: "tt_threads s ! k = Busy call stage" using assms(2) by (cases "tt_threads s ! k") auto
  show thesis
  proof (cases stage)
    case (At_read now sec')
    with assms th that show thesis
      by (cases "section_body now sec (st_shards (tt_store s) ! section_shard hash (tt_store s) sec)")
        (auto simp: thread_go_def Let_def)
  qed (use assms th that in \<open>auto simp: thread_go_def Let_def\<close>)
qed

lemma threads_progress:
  assumes inv: "threads_inv hash st replies s" and th: "th \<in> set (tt_threads s)" "th \<noteq> Idle"
  shows "\<exists>k. thread_go hash k s \<noteq> None \<or> k < length (tt_threads s) \<and> (\<exists>call now sec u.
    tt_threads s ! k = Busy call (At_read now sec) \<and>
    section_body now sec (st_shards (tt_store s) ! section_shard hash (tt_store s) sec) = Inl u)"
proof (cases "\<exists>k<length (tt_threads s). inside (tt_threads s ! k) \<noteq> None")
  case True
  then obtain k sec where k: "k < length (tt_threads s)" "inside (tt_threads s ! k) = Some sec" by auto
  show ?thesis
  proof (rule inside_goes [OF k, of hash])
    show ?thesis if "thread_go hash k s \<noteq> None" using that by blast
    show ?thesis if "tt_threads s ! k = Busy call (At_read now sec)"
      "section_body now sec (st_shards (tt_store s) ! section_shard hash (tt_store s) sec) = Inl u" for call now u
      using that k(1) by (intro exI [of _ k]) simp
  qed
next
  case False
  from th obtain k where k: "k < length (tt_threads s)" "tt_threads s ! k = th" by (auto simp: in_set_conv_nth)
  from th(2) obtain call stage where busy: "th = Busy call stage" by (cases th) auto
  have none: "inside th = None" if "th \<in> set (tt_threads s)" for th using False that by (auto simp: in_set_conv_nth)
  have "thread_go hash k s \<noteq> None"
  proof (cases stage)
    case At_clock
    with k busy show ?thesis by (cases "cl_job call") (simp_all add: thread_go_def Let_def)
  next
    case (At_lock now sec)
    have "section_shard hash (tt_store s) sec < length (tt_locks s)"
      using threads_invD(3) [OF inv] threads_invD(4) [OF inv th(1)] busy At_lock
      by (simp add: section_ok_def locks_ok_def)
    from nobody_inside [OF threads_invD(3) [OF inv] none this, of "section_exclusive sec"] obtain m
      where "acquire (section_exclusive sec) (tt_locks s ! section_shard hash (tt_store s) sec) = Some m" by auto
    with k busy At_lock show ?thesis by (simp add: thread_go_def Let_def)
  next
    case At_return
    with k busy show ?thesis by (simp add: thread_go_def Let_def)
  qed (use none [OF th(1)] busy in simp_all)
  then show ?thesis by blast
qed

text \<open>
  C16. The locks of the store do what they are for: in every run, a thread that is about to write a
  shard is the only one inside a critical section of that shard; and the store never deadlocks:
  while a call is in progress, some thread can take its next step, or is about to run into the
  undefined behaviour of an EXPIRE or TTL that leaves the clock's range.
\<close>

theorem store_locking:
  assumes "make_store m = Inr st" and "run_threads hash as (start_threads n st ck) = Some s"
  shows "(\<forall>i<length (tt_threads s). \<forall>k<length (tt_threads s). \<forall>call now sec response removed sh sec'.
      i \<noteq> k \<and> tt_threads s ! i = Busy call (At_write now sec response removed sh) \<and>
      inside (tt_threads s ! k) = Some sec' \<longrightarrow>
      section_shard hash (tt_store s) sec' \<noteq> section_shard hash (tt_store s) sec) \<and>
    (list_ex (\<lambda>th. th \<noteq> Idle) (tt_threads s) \<longrightarrow>
      (\<exists>k. thread_go hash k s \<noteq> None \<or> k < length (tt_threads s) \<and> (\<exists>call now sec u.
        tt_threads s ! k = Busy call (At_read now sec) \<and>
        section_body now sec (st_shards (tt_store s) ! section_shard hash (tt_store s) sec) = Inl u)))"
proof (intro conjI allI impI)
  from run_threads_inv [OF assms(2) start_threads_inv [OF assms(1)]]
  obtain replies where inv: "threads_inv hash st replies s" by blast
  show "section_shard hash (tt_store s) sec' \<noteq> section_shard hash (tt_store s) sec"
    if i: "i < length (tt_threads s)" and k: "k < length (tt_threads s)"
      and w: "i \<noteq> k \<and> tt_threads s ! i = Busy call (At_write now sec response removed sh) \<and> inside (tt_threads s ! k) = Some sec'"
    for i k call now sec response removed sh sec'
  proof -
    have "section_exclusive sec" "section_shard hash (tt_store s) sec < length (tt_locks s)"
      using threads_invD(4) [OF inv nth_mem [OF i]] threads_invD(3) [OF inv] w
      by (auto simp: section_ok_def locks_ok_def)
    with exclusive_alone [OF threads_invD(3) [OF inv] i _ k] w show ?thesis by simp
  qed
  show "\<exists>k. thread_go hash k s \<noteq> None \<or> k < length (tt_threads s) \<and> (\<exists>call now sec u.
      tt_threads s ! k = Busy call (At_read now sec) \<and>
      section_body now sec (st_shards (tt_store s) ! section_shard hash (tt_store s) sec) = Inl u)"
    if "list_ex (\<lambda>th. th \<noteq> Idle) (tt_threads s)"
    using that threads_progress [OF inv] by (auto simp: list_ex_iff)
qed

text \<open>The same run, halted when EXPIRE is about to write and a GET waits for the lock.\<close>

definition demo_contention :: "action list" where
  "demo_contention = [Begin 1 (Run (cmd kSet ''k'' ''v'' 0))] @ replicate 6 (Go 1) @
    [Begin 0 (Run (cmd kExpire ''k'' [] 5)), Go 0, Go 0, Go 0, Begin 1 (Run (cmd kGet ''k'' [] 0)), Go 1]"

lemma demo_contention_check:
  "case run_threads demo_hash demo_contention (start_threads 2 one_shard \<lparr>ck_nanoseconds = 0\<rparr>) of
     None \<Rightarrow> False
   | Some s \<Rightarrow> (case tt_threads s of
       [Busy call (At_write now sec response removed sh), Busy call' (At_lock now' sec')] \<Rightarrow>
         (case thread_go demo_hash 1 s of None \<Rightarrow> True | Some s' \<Rightarrow> False)
     | _ \<Rightarrow> False)"
  by code_simp

theorem store_locking_witness:
  "\<exists>s. run_threads demo_hash demo_contention (start_threads 2 one_shard \<lparr>ck_nanoseconds = 0\<rparr>) = Some s \<and>
     list_ex (\<lambda>th. th \<noteq> Idle) (tt_threads s) \<and> thread_go demo_hash 1 s = None \<and>
     (\<exists>k. thread_go demo_hash k s \<noteq> None \<or> k < length (tt_threads s) \<and> (\<exists>call now sec u.
        tt_threads s ! k = Busy call (At_read now sec) \<and>
        section_body now sec (st_shards (tt_store s) ! section_shard demo_hash (tt_store s) sec) = Inl u))"
proof -
  from demo_contention_check obtain s where
    s: "run_threads demo_hash demo_contention (start_threads 2 one_shard \<lparr>ck_nanoseconds = 0\<rparr>) = Some s"
    by (auto split: option.splits)
  with demo_contention_check have "list_ex (\<lambda>th. th \<noteq> Idle) (tt_threads s)" "thread_go demo_hash 1 s = None"
    by (auto split: list.splits Thread.splits stage.splits option.splits)
  with s store_locking [OF make_store_1 s] show ?thesis by (intro exI [of _ s]) blast
qed

end
