(* ===== verification/Ttl_Sweeper.thy ===== *)
theory Ttl_Sweeper
  imports Store_Concurrency
begin

text \<open>
  The background sweeper, \<^verbatim>\<open>src/src/storage/ttl_sweeper.cpp\<close>: its thread as steps between the
  test of the stop token and the interruptible wait, and what its bounded passes achieve beside
  the other threads of the store.
\<close>

subsection \<open>The thread\<close>

record TtlSweeperConfig =
  sc_interval_ms :: int
  sc_max_items_per_shard :: nat

definition default_sweeper_config :: TtlSweeperConfig where
  "default_sweeper_config = \<lparr>sc_interval_ms = 100, sc_max_items_per_shard = 20\<rparr>"

text \<open>\<open>Sweeper_testing\<close> is at the head of the loop, \<open>Sweeper_waiting\<close> in \<^verbatim>\<open>wait_for\<close>.\<close>

datatype SweeperThread = Sweeper_testing | Sweeper_waiting | Sweeper_finished

record TtlSweeper =
  ts_config :: TtlSweeperConfig
  ts_thread :: SweeperThread
  ts_stop_requested :: bool

definition make_sweeper :: "TtlSweeperConfig \<Rightarrow> TtlSweeper" where
  "make_sweeper config = \<lparr>ts_config = config, ts_thread = Sweeper_testing, ts_stop_requested = False\<rparr>"

text \<open>
  The thread goes on: \<open>now\<close> is the clock reading of a pass. The wait returns after the interval,
  or at once when a stop is requested.
\<close>

definition sweeper_step :: "int \<Rightarrow> TtlSweeper \<times> Store \<Rightarrow> TtlSweeper \<times> Store" where
  "sweeper_step now = (\<lambda>(sw, st). case ts_thread sw of
      Sweeper_testing \<Rightarrow>
        if ts_stop_requested sw then (sw\<lparr>ts_thread := Sweeper_finished\<rparr>, st)
        else (sw\<lparr>ts_thread := Sweeper_waiting\<rparr>,
              snd (sweep_expired st now (sc_max_items_per_shard (ts_config sw))))
    | Sweeper_waiting \<Rightarrow> (sw\<lparr>ts_thread := Sweeper_testing\<rparr>, st)
    | Sweeper_finished \<Rightarrow> (sw, st))"

text \<open>The destructor requests a stop and joins: it returns once the thread has finished.\<close>

definition stop_sweeper :: "TtlSweeper \<Rightarrow> TtlSweeper" where
  "stop_sweeper sw = sw\<lparr>ts_stop_requested := True\<rparr>"

definition sweeper_joined :: "TtlSweeper \<Rightarrow> bool" where
  "sweeper_joined sw \<longleftrightarrow> ts_thread sw = Sweeper_finished"

text \<open>Two steps after the stop the destructor returns, and the store is not touched any more.\<close>

lemma sweeper_stops:
  "sweeper_joined (fst (sweeper_step t2 (sweeper_step t1 (stop_sweeper sw, st))))"
  "snd (sweeper_step t2 (sweeper_step t1 (stop_sweeper sw, st))) = st"
  by (cases "ts_thread sw"; simp add: sweeper_step_def stop_sweeper_def sweeper_joined_def)+

text \<open>The passes of a sweeper that is not stopped, each with its clock reading.\<close>

fun sweeper_run :: "TtlSweeper \<times> Store \<Rightarrow> int list \<Rightarrow> TtlSweeper \<times> Store" where
  "sweeper_run s [] = s"
| "sweeper_run s (now # nows) = sweeper_run (sweeper_step now (sweeper_step now s)) nows"

lemma sweeper_run_passes:
  assumes "ts_thread sw = Sweeper_testing" and "\<not> ts_stop_requested sw"
  shows "sweeper_run (sw, st) nows =
    (sw, fold (\<lambda>now st. snd (sweep_expired st now (sc_max_items_per_shard (ts_config sw)))) nows st)"
proof -
  have same: "sw\<lparr>ts_thread := Sweeper_testing\<rparr> = sw" using assms(1) by (cases sw) simp
  show ?thesis by (induction nows arbitrary: st) (simp_all add: sweeper_step_def assms same)
qed

subsection \<open>Candidates that are due\<close>

definition due :: "int \<Rightarrow> Shard \<Rightarrow> nat" where
  "due t sh = length (filter (\<lambda>c. ec_deadline c \<le> t) (sh_heap sh))"

lemma due_size: "due t sh = size (filter_mset (\<lambda>c. ec_deadline c \<le> t) (mset (sh_heap sh)))"
  by (simp add: due_def flip: mset_filter)

lemma due_pop:
  assumes "pq_sorted (sh_heap sh)" and "\<not> pq_empty (sh_heap sh)"
  shows "due t (sh\<lparr>sh_heap := pq_pop (sh_heap sh)\<rparr>) =
    (if ec_deadline (pq_top (sh_heap sh)) \<le> t then due t sh - 1 else due t sh)"
  using pq.elems_top_pop [OF assms] by (simp add: due_size)

lemma due_entries [simp]: "due t (sh\<lparr>sh_entries := es\<rparr>) = due t sh"
  by (simp add: due_def)

lemma due_zero:
  assumes "pq_sorted (sh_heap sh)" and "pq_empty (sh_heap sh) \<or> t < ec_deadline (pq_top (sh_heap sh))"
  shows "due t sh = 0"
  using assms(2) pq.none_due [OF assms(1), of t] by (auto simp: due_def pq_empty_def filter_empty_conv not_le)

text \<open>A pass takes the candidates that are due off the queue, as many as its budget allows.\<close>

lemma due_sweep:
  assumes "pq_sorted (sh_heap sh)" and "t \<le> now"
  shows "due t (fst (sweep_shard budget now sh removed)) = due t sh - budget"
  using assms
proof (induction budget now sh removed rule: sweep_shard.induct)
  case (2 budget now sh removed)
  let ?h = "sh_heap sh" and ?c = "pq_top (sh_heap sh)"
  let ?pop = "sh\<lparr>sh_heap := pq_pop ?h\<rparr>" and ?del = "sh\<lparr>sh_entries := (sh_entries sh)(ec_key ?c := None), sh_heap := pq_pop ?h\<rparr>"
  show ?case
  proof (cases "pq_empty ?h \<or> now < ec_deadline ?c")
    case True
    then have "pq_empty ?h \<or> t < ec_deadline ?c" using "2.prems"(2) by auto
    with True due_zero [OF "2.prems"(1), of t] show ?thesis by (auto simp: Let_def)
  next
    case False
    have sorted: "pq_sorted (pq_pop ?h)" using "2.prems"(1) False by (simp add: pq.invar_pop)
    have "due t ?del = due t ?pop" by (simp add: due_def)
    moreover have "due t ?pop = due t sh - 1"
      using due_pop [OF "2.prems"(1), of t] due_zero [OF "2.prems"(1), of t] False by auto
    ultimately show ?thesis using 2 False sorted by (simp add: Let_def)
  qed
qed simp

subsection \<open>The sweep beside other threads\<close>

definition dues :: "int \<Rightarrow> Store \<Rightarrow> nat list" where
  "dues t st = map (due t) (st_shards st)"

lemma dues_put_shard:
  assumes "wf_store hash st" and "due t sh = due t (shard_for hash st key)"
  shows "dues t (put_shard hash st key sh) = dues t st"
  using assms(2) shard_index_bound [OF assms(1), of key]
  by (simp add: dues_def put_shard_def shard_for_def map_update list_update_same_conv)

text \<open>An EXPIRE after \<open>t\<close> schedules nothing that is due at \<open>t\<close>.\<close>

lemma due_expire:
  assumes "shard_expire sh now key n = Inr (ok, sh')" and "t < now" and "0 \<le> n"
  shows "due t sh' = due t sh"
proof -
  have "t < now + n * ns_per_s" using assms(2,3) by (simp add: ns_per_s_def)
  then have push: "due t (sh'\<lparr>sh_heap := pq_push \<lparr>ec_deadline = now + n * ns_per_s, ec_generation = g, ec_key = key\<rparr> (sh_heap sh)\<rparr>) =
      due t sh" for sh' g
    by (simp add: due_size mset_pq_push)
  from assms(1) push show ?thesis
    by (auto simp: shard_expire_def deadline_after_def Let_def due_def split: option.splits if_splits sum.splits)
qed

lemma dues_dispatch:
  assumes wf: "wf_store hash st" and d: "dispatch hash st now c = Inr (r, st')" and "t < now" and "0 \<le> cmd_seconds c"
  shows "dues t st' = dues t st"
proof -
  note put = dues_put_shard [OF wf, where key = "cmd_key c"]
  have ops: "due t (shard_set sh key v) = due t sh" "due t (snd (read_live sh now key)) = due t sh"
    "due t (snd (shard_del sh now key)) = due t sh" for sh key v
    by (auto simp: shard_set_def Let_def due_def read_live_def read_live_exclusive_def shard_del_def
        split: option.split SharedRead.split)
  show ?thesis
  proof (cases "cmd_type c")
    case kExpire
    with d put due_expire [OF _ assms(3,4)] show ?thesis
      by (auto simp: dispatch_def dispatch_expire_def store_expire_def split: sum.splits)
  next
    case kTtl
    with d put ops(2) show ?thesis
      by (auto simp: dispatch_def dispatch_ttl_def store_ttl_def split_beta split: sum.splits)
  qed (use d put ops in \<open>auto simp: dispatch_def dispatch_set_def dispatch_get_def dispatch_del_def
      dispatch_exists_def store_set_def store_get_def store_del_def store_exists_def split_beta split: option.splits prod.splits\<close>)
qed

lemma dues_sweep:
  assumes "wf_store hash st" and "t \<le> now" and "i < length (st_shards st)"
  shows "dues t (sweep_section st now j m) ! i = dues t st ! i - (if j = i then m else 0)"
proof -
  have "pq_sorted (sh_heap (st_shards st ! i))" using assms(1,3) by (simp add: wf_store_def shard_ok_def)
  from due_sweep [OF this assms(2)] assms(3) show ?thesis
    by (simp add: dues_def sweep_section_def nth_list_update)
qed

text \<open>The budget that a history spends on a shard.\<close>

fun swept :: "nat \<Rightarrow> (int \<times> critical_section) list \<Rightarrow> nat" where
  "swept i [] = 0"
| "swept i ((now, Sweep_section j m) # ss) = (if j = i then m else 0) + swept i ss"
| "swept i (s # ss) = swept i ss"

fun after_time :: "int \<Rightarrow> int \<times> critical_section \<Rightarrow> bool" where
  "after_time t (now, Command_section c) \<longleftrightarrow> t < now \<and> 0 \<le> cmd_seconds c"
| "after_time t (now, s) \<longleftrightarrow> t < now"

lemma run_sections_dues:
  assumes "run_sections hash st log = Inr (replies, st')" and "wf_store hash st"
    and "list_all (after_time t) log" and "i < length (st_shards st)"
  shows "wf_store hash st' \<and> length (st_shards st') = length (st_shards st) \<and>
    dues t st' ! i = dues t st ! i - swept i log"
  using assms
proof (induction hash st log arbitrary: replies rule: run_sections.induct)
  case (2 hash st now c ss)
  then obtain resp st1 rs where d: "command_section hash st now c = Inr (resp, st1)"
    and r: "run_sections hash st1 ss = Inr (rs, st')"
    by (auto simp: map_sum_def split: sum.splits)
  from d obtain st2 where d2: "dispatch hash st now c = Inr (resp, st2)" and st1: "st1 = st \<or> st1 = st2"
    by (auto simp: command_section_def map_sum_def split: if_splits sum.splits)
  have same: "wf_store hash st1" "dues t st1 = dues t st"
    using st1 dispatch_wf [OF "2.prems"(2) d2] dues_dispatch [OF "2.prems"(2) d2, of t] "2.prems"(2,3) by auto
  from arg_cong [OF same(2), of length] have len: "length (st_shards st1) = length (st_shards st)"
    by (simp add: dues_def)
  from "2.IH" [OF d refl r same(1)] "2.prems"(3,4) same(2) len show ?case by simp
next
  case (3 hash st now key ss)
  have "due t (read_live_exclusive sh now key) = due t sh" for sh
    by (simp add: read_live_exclusive_def split: option.split)
  then have same: "dues t (erase_section hash st now key) = dues t st"
    unfolding erase_section_def by (intro dues_put_shard [OF "3.prems"(2)]) simp
  from arg_cong [OF same, of length] have "length (st_shards (erase_section hash st now key)) = length (st_shards st)"
    by (simp add: dues_def)
  with "3.IH" [OF _ erase_section_correct(1) [OF "3.prems"(2)]] "3.prems" same show ?case by simp
next
  case (4 hash st now j m ss)
  have "length (st_shards (sweep_section st now j m)) = length (st_shards st)" by (simp add: sweep_section_def)
  with "4.IH" [OF _ sweep_section_correct(1) [OF "4.prems"(2)]] "4.prems" dues_sweep [OF "4.prems"(2), of t now i j m]
  show ?case by simp
qed simp

text \<open>
  C15. Active expiration makes progress whatever else goes on: take any history of critical
  sections after time \<open>t\<close>, commands, lazy erasures and sweeps of any shards interleaved in any
  way, in which the passes over shard \<open>i\<close> have together a budget of at least the number of
  candidates of the shard that were due at \<open>t\<close>. Then no entry of the shard that had expired at
  \<open>t\<close> is left, however small the budget of a single pass is and whatever was stored meanwhile.
\<close>

theorem sweeper_removes_expired:
  assumes "run_sections hash st log = Inr (replies, st')" and "wf_store hash st"
    and "list_all (after_time t) log" and "i < length (st_shards st)" and "dues t st ! i \<le> swept i log"
  shows "\<forall>key e. sh_entries (st_shards st' ! i) key = Some e \<longrightarrow> \<not> is_expired e t"
proof (intro allI impI)
  fix key e
  assume e: "sh_entries (st_shards st' ! i) key = Some e"
  note dues = run_sections_dues [OF assms(1-4)]
  then have wf: "wf_store hash st'" and i: "i < length (st_shards st')" using assms(4) by simp_all
  have none: "due t (st_shards st' ! i) = 0" using dues i assms(5) by (simp add: dues_def)
  show "\<not> is_expired e t"
  proof (cases "en_deadline e")
    case (Some d)
    from wf i have "shard_ok (\<lambda>key. shard_index hash st' key = i) (st_shards st' ! i)" by (simp add: wf_store_def)
    with e Some have "entry_candidate key e d \<in> set (sh_heap (st_shards st' ! i))" by (auto simp: shard_ok_def)
    with none have "\<not> d \<le> t" by (auto simp: due_def filter_empty_conv entry_candidate_def)
    with Some show ?thesis by (simp add: is_expired_def)
  qed (simp add: is_expired_def)
qed

text \<open>Two keys with a deadline of one second, swept by two passes of budget one with a SET between them.\<close>

definition sweep_demo_setup :: "(int \<times> critical_section) list" where
  "sweep_demo_setup = [(0, Command_section (cmd kSet ''a'' ''1'' 0)), (0, Command_section (cmd kExpire ''a'' [] 1)),
     (0, Command_section (cmd kSet ''b'' ''2'' 0)), (0, Command_section (cmd kExpire ''b'' [] 1))]"

definition sweep_demo_log :: "(int \<times> critical_section) list" where
  "sweep_demo_log = [(2000000000, Sweep_section 0 1), (2000000001, Command_section (cmd kSet ''c'' ''3'' 0)),
     (2000000002, Sweep_section 0 1)]"

definition sweep_demo_store :: Store where
  "sweep_demo_store = snd (projr (run_sections (\<lambda>key. 0) (projr (make_store 1)) sweep_demo_setup))"

lemma sweep_demo_check:
  "case run_sections (\<lambda>key. 0) sweep_demo_store sweep_demo_log of
     Inl u \<Rightarrow> False
   | Inr (replies, st') \<Rightarrow> list_all (after_time 1000000000) sweep_demo_log \<and> 0 < length (st_shards sweep_demo_store) \<and>
       dues 1000000000 sweep_demo_store ! 0 = 2 \<and> swept 0 sweep_demo_log = 2"
  by code_simp

lemma sweep_demo_wf: "wf_store (\<lambda>key. 0) sweep_demo_store"
proof -
  have "\<not> isl (make_store 1)" by code_simp
  then have st: "make_store 1 = Inr (projr (make_store 1))" by simp
  have "\<not> isl (run_sections (\<lambda>key. 0) (projr (make_store 1)) sweep_demo_setup)" by code_simp
  then obtain replies st where r: "run_sections (\<lambda>key. 0) (projr (make_store 1)) sweep_demo_setup = Inr (replies, st)"
    by (cases "run_sections (\<lambda>key. 0) (projr (make_store 1)) sweep_demo_setup") auto
  have h: "list_all (after_time (- 1)) sweep_demo_setup" "0 < length (st_shards (projr (make_store 1)))" by code_simp+
  from run_sections_dues [OF r make_store_wf(1) [OF st] h] r show ?thesis by (simp add: sweep_demo_store_def)
qed

theorem sweeper_removes_expired_witness:
  "dues 1000000000 sweep_demo_store ! 0 = 2 \<and>
   (\<exists>replies st'. run_sections (\<lambda>key. 0) sweep_demo_store sweep_demo_log = Inr (replies, st') \<and>
     (case sh_entries (st_shards st' ! 0) ''a'' of None \<Rightarrow> True | Some e \<Rightarrow> \<not> is_expired e 1000000000))"
proof -
  from sweep_demo_check obtain replies st'
    where r: "run_sections (\<lambda>key. 0) sweep_demo_store sweep_demo_log = Inr (replies, st')"
      and h: "list_all (after_time 1000000000) sweep_demo_log" "0 < length (st_shards sweep_demo_store)"
        "dues 1000000000 sweep_demo_store ! 0 = 2" "swept 0 sweep_demo_log = 2"
    by (auto split: sum.splits)
  from sweeper_removes_expired [OF r sweep_demo_wf h(1,2)] h(3,4) r show ?thesis
    by (auto split: option.split)
qed

subsection \<open>Growth of the expiration queue\<close>

text \<open>
  C39. The expiration queue is not bounded by the number of keys: each EXPIRE of a live key adds
  a candidate, and the earlier ones stay until their deadlines, so \<open>n\<close> times EXPIRE of one key
  leaves \<open>n\<close> more candidates while no key was added.
\<close>

theorem expire_candidates_accumulate:
  assumes "wf_store hash st" and "live_view hash st now key \<noteq> None"
    and "0 < s" and "in_int64 (s * ns_per_s)" and "in_int64 (now + s * ns_per_s)"
  shows "\<exists>replies st'. run_sections hash st (replicate n (now, Command_section (cmd kExpire key [] s))) =
      Inr (replies, st') \<and>
    length (sh_heap (shard_for hash st' key)) = length (sh_heap (shard_for hash st key)) + n \<and>
    (\<forall>k. sh_entries (shard_for hash st' k) k = None \<longleftrightarrow> sh_entries (shard_for hash st k) k = None)"
  using assms(1,2)
proof (induction n arbitrary: st)
  case (Suc n)
  let ?c = "cmd kExpire key [] s" and ?sh = "shard_for hash st key"
  from Suc.prems(2) obtain e where e: "sh_entries ?sh key = Some e" "\<not> is_expired e now"
    by (auto simp: live_view_def shard_view_def entry_view_def split: option.splits if_splits)
  let ?g = "sh_next_generation ?sh + 1" and ?d = "now + s * ns_per_s"
  define sh1 where "sh1 = ?sh\<lparr>sh_entries := (sh_entries ?sh)(key \<mapsto> e\<lparr>en_deadline := Some ?d, en_generation := ?g\<rparr>),
    sh_next_generation := ?g, sh_heap := pq_push \<lparr>ec_deadline = ?d, ec_generation = ?g, ec_key = key\<rparr> (sh_heap ?sh)\<rparr>"
  let ?st = "put_shard hash st key sh1"
  have run: "command_section hash st now ?c = Inr (encode_integer 1, ?st)"
    using e assms(4,5)
    by (simp add: command_section_def read_only_def dispatch_def cmd_def dispatch_expire_def store_expire_def
        shard_expire_def deadline_after_def checked_int64_def Let_def sh1_def)
  have wf: "wf_store hash ?st"
    using dispatch_wf [OF Suc.prems(1), of now ?c] run by (simp add: command_section_def read_only_def cmd_def)
  have index: "shard_index hash ?st k = shard_index hash st k" for k by (simp add: shard_index_def put_shard_def)
  have sh: "shard_for hash ?st k = (if shard_index hash st k = shard_index hash st key then sh1 else shard_for hash st k)" for k
    using shard_index_bound [OF Suc.prems(1)] by (simp add: shard_for_def index) (simp add: put_shard_def nth_list_update)
  have keys: "sh_entries (shard_for hash ?st k) k = None \<longleftrightarrow> sh_entries (shard_for hash st k) k = None" for k
  proof (cases "shard_index hash st k = shard_index hash st key")
    case True
    then have "shard_for hash st k = ?sh" by (simp add: shard_for_def)
    with True e show ?thesis unfolding sh by (simp add: sh1_def)
  qed (simp add: sh)
  have heap: "length (sh_heap (shard_for hash ?st key)) = Suc (length (sh_heap ?sh))"
    using arg_cong [OF mset_pq_push, of size] unfolding sh by (simp add: sh1_def)
  have "now < ?d" using assms(3) by (simp add: ns_per_s_def)
  then have "live_view hash ?st now key \<noteq> None"
    unfolding live_view_def shard_view_def sh by (simp add: entry_view_def sh1_def is_expired_def)
  from Suc.IH [OF wf this] obtain replies st' where
    "run_sections hash ?st (replicate n (now, Command_section ?c)) = Inr (replies, st')"
    "length (sh_heap (shard_for hash st' key)) = length (sh_heap (shard_for hash ?st key)) + n"
    "\<forall>k. sh_entries (shard_for hash st' k) k = None \<longleftrightarrow> sh_entries (shard_for hash ?st k) k = None" by blast
  with run heap keys show ?case by (intro exI [of _ "encode_integer 1 # replies"] exI [of _ st']) simp
qed simp

text \<open>At one second before the deadline both keys of the demonstration store are live.\<close>

theorem expire_candidates_accumulate_witness:
  "live_view (\<lambda>key. 0) sweep_demo_store 0 ''a'' \<noteq> None \<and>
   (\<exists>replies st'. run_sections (\<lambda>key. 0) sweep_demo_store (replicate 5 (0, Command_section (cmd kExpire ''a'' [] 60))) =
       Inr (replies, st') \<and>
     length (sh_heap (shard_for (\<lambda>key. 0) st' ''a'')) = 7)"
proof -
  have live: "live_view (\<lambda>key. 0) sweep_demo_store 0 ''a'' \<noteq> None" by code_simp
  have range: "in_int64 (60 * ns_per_s)" "in_int64 (0 + 60 * ns_per_s)" by code_simp+
  have heap: "length (sh_heap (shard_for (\<lambda>key. 0) sweep_demo_store ''a'')) = 2" by code_simp
  from expire_candidates_accumulate [OF sweep_demo_wf live _ range, of 5] live heap show ?thesis by auto
qed

end
