(* ===== verification/Bounded_Queue.thy ===== *)
theory Bounded_Queue
  imports KV_Prelude
begin

text \<open>
  The bounded FIFO queue of \<^verbatim>\<open>src/include/kvstore/worker/bounded_queue.hpp\<close>.

  Each operation is the critical section it runs under the queue's mutex. The result of a
  push names the callback to run after the lock is released. The blocking \<open>push\<close> and
  \<open>pop\<close> return \<open>None\<close> while their wait predicate does not hold, that is, when the calling
  thread blocks; the second half of the theory models the condition variables themselves,
  with the notifications that come after the lock is released, and shows that no wake-up is
  lost.
\<close>

subsection \<open>The queue and its operations\<close>

datatype PushStatus = PushOk | PushFull | PushClosed

datatype PopStatus = PopOk | PopClosed | PopStopped

record ('a, 'cb) BoundedQueue =
  bq_items :: "'a list"
  bq_capacity :: nat
  bq_closed :: bool
  bq_on_push :: "'cb option"

definition make_queue :: "nat \<Rightarrow> fault + ('a, 'cb) BoundedQueue" where
  "make_queue capacity =
     (if capacity = 0
      then Inl (Exn (Invalid_argument ''BoundedQueue: capacity must be greater than zero''))
      else Inr \<lparr>bq_items = [], bq_capacity = capacity, bq_closed = False, bq_on_push = None\<rparr>)"

definition set_on_push :: "('a, 'cb) BoundedQueue \<Rightarrow> 'cb option \<Rightarrow> ('a, 'cb) BoundedQueue" where
  "set_on_push q callback = q\<lparr>bq_on_push := callback\<rparr>"

definition push_ready :: "('a, 'cb) BoundedQueue \<Rightarrow> bool" where
  "push_ready q \<longleftrightarrow> bq_closed q \<or> length (bq_items q) < bq_capacity q"

definition push ::
  "('a, 'cb) BoundedQueue \<Rightarrow> 'a \<Rightarrow> (PushStatus \<times> ('a, 'cb) BoundedQueue \<times> 'cb option) option" where
  "push q item =
     (if \<not> push_ready q then None
      else if bq_closed q then Some (PushClosed, q, None)
      else Some (PushOk, q\<lparr>bq_items := bq_items q @ [item]\<rparr>, bq_on_push q))"

definition try_push ::
  "('a, 'cb) BoundedQueue \<Rightarrow> 'a \<Rightarrow> PushStatus \<times> ('a, 'cb) BoundedQueue \<times> 'cb option" where
  "try_push q item =
     (if bq_closed q then (PushClosed, q, None)
      else if bq_capacity q \<le> length (bq_items q) then (PushFull, q, None)
      else (PushOk, q\<lparr>bq_items := bq_items q @ [item]\<rparr>, bq_on_push q))"

definition pop_ready :: "('a, 'cb) BoundedQueue \<Rightarrow> bool" where
  "pop_ready q \<longleftrightarrow> bq_closed q \<or> bq_items q \<noteq> []"

text \<open>
  The wait with a stop token returns the predicate's value once the predicate holds or stop
  was requested.
\<close>

definition pop ::
  "('a, 'cb) BoundedQueue \<Rightarrow> bool \<Rightarrow> (PopStatus \<times> 'a option \<times> ('a, 'cb) BoundedQueue) option" where
  "pop q stop_requested =
     (if \<not> pop_ready q then (if stop_requested then Some (PopStopped, None, q) else None)
      else (case bq_items q of
          [] \<Rightarrow> Some (PopClosed, None, q)
        | item # rest \<Rightarrow> Some (PopOk, Some item, q\<lparr>bq_items := rest\<rparr>)))"

definition try_pop :: "('a, 'cb) BoundedQueue \<Rightarrow> 'a option \<times> ('a, 'cb) BoundedQueue" where
  "try_pop q = (case bq_items q of
      [] \<Rightarrow> (None, q)
    | item # rest \<Rightarrow> (Some item, q\<lparr>bq_items := rest\<rparr>))"

definition close_queue :: "('a, 'cb) BoundedQueue \<Rightarrow> ('a, 'cb) BoundedQueue" where
  "close_queue q = q\<lparr>bq_closed := True\<rparr>"

definition queue_size :: "('a, 'cb) BoundedQueue \<Rightarrow> nat" where
  "queue_size q = length (bq_items q)"

definition queue_ok :: "('a, 'cb) BoundedQueue \<Rightarrow> bool" where
  "queue_ok q \<longleftrightarrow> length (bq_items q) \<le> bq_capacity q \<and> 0 < bq_capacity q"

subsection \<open>The contract of a bounded FIFO queue\<close>

text \<open>
  What producers and consumers rely on: a critical section \<open>step\<close> takes items in at the back
  and hands items out at the front. Its effect is the list of accepted items, the list of
  items handed out and the new queue; \<open>run_steps\<close> is a history of critical sections in the
  order the mutex admits them.
\<close>

fun run_steps :: "('op \<Rightarrow> 'q \<Rightarrow> 'a list \<times> 'a list \<times> 'q) \<Rightarrow> 'op list \<Rightarrow> 'q \<Rightarrow> 'a list \<times> 'a list \<times> 'q" where
  "run_steps step [] q = ([], [], q)"
| "run_steps step (a # as) q =
     (case step a q of (accepted, handed, q') \<Rightarrow>
        (case run_steps step as q' of (accepted', handed', q'') \<Rightarrow>
           (accepted @ accepted', handed @ handed', q'')))"

locale bounded_fifo =
  fixes inv :: "'q \<Rightarrow> bool"
    and content :: "'q \<Rightarrow> 'a list"
    and limit :: "'q \<Rightarrow> nat"
    and is_closed :: "'q \<Rightarrow> bool"
    and step :: "'op \<Rightarrow> 'q \<Rightarrow> 'a list \<times> 'a list \<times> 'q"
  assumes step_fifo: "step a q = (accepted, handed, q') \<Longrightarrow> content q @ accepted = handed @ content q'"
    and step_inv: "step a q = (accepted, handed, q') \<Longrightarrow> inv q \<Longrightarrow> inv q'"
    and step_limit: "step a q = (accepted, handed, q') \<Longrightarrow> limit q' = limit q"
    and step_closed: "step a q = (accepted, handed, q') \<Longrightarrow> is_closed q \<Longrightarrow> is_closed q' \<and> accepted = []"
    and inv_limit: "inv q \<Longrightarrow> length (content q) \<le> limit q"
begin

lemma run_cons:
  assumes "run_steps step (a # as) q = (accepted, handed, q')"
  obtains ac1 ha1 q1 ac2 ha2 where "step a q = (ac1, ha1, q1)" "run_steps step as q1 = (ac2, ha2, q')"
    "accepted = ac1 @ ac2" "handed = ha1 @ ha2"
  using assms by (auto split: prod.splits)

text \<open>Items leave in the order they were accepted, and none is lost or made up.\<close>

lemma run_fifo: "run_steps step as q = (accepted, handed, q') \<Longrightarrow> content q @ accepted = handed @ content q'"
proof (induction "as" arbitrary: q accepted handed)
  case (Cons a "as")
  from Cons.prems show ?case
  proof (rule run_cons)
    fix ac1 ha1 q1 ac2 ha2
    assume s: "step a q = (ac1, ha1, q1)" and r: "run_steps step as q1 = (ac2, ha2, q')"
      and eqs: "accepted = ac1 @ ac2" "handed = ha1 @ ha2"
    have "content q @ accepted = ha1 @ content q1 @ ac2"
      using step_fifo [OF s] by (simp add: eqs flip: append_assoc)
    also have "content q1 @ ac2 = ha2 @ content q'" by (rule Cons.IH [OF r])
    finally show ?thesis by (simp add: eqs)
  qed
qed simp

lemma run_inv: "run_steps step as q = (accepted, handed, q') \<Longrightarrow> inv q \<Longrightarrow> inv q' \<and> limit q' = limit q"
  by (induction "as" arbitrary: q accepted handed)
    (simp, metis run_cons step_inv step_limit)

lemma run_bounded:
  "run_steps step as q = (accepted, handed, q') \<Longrightarrow> inv q \<Longrightarrow> length (content q') \<le> limit q"
  using run_inv inv_limit by fastforce

text \<open>A closed queue stays closed and accepts nothing; what it held is still handed out.\<close>

lemma run_closed:
  "run_steps step as q = (accepted, handed, q') \<Longrightarrow> is_closed q \<Longrightarrow> is_closed q' \<and> accepted = []"
  by (induction "as" arbitrary: q accepted handed)
    (simp, metis run_cons step_closed append_Nil)

lemma run_closed_drains:
  "run_steps step as q = (accepted, handed, q') \<Longrightarrow> is_closed q \<Longrightarrow> content q = handed @ content q'"
  using run_fifo run_closed by fastforce

end

text \<open>
  The critical sections of the queue. A blocking call whose predicate does not hold waits:
  it takes nothing in and hands nothing out.
\<close>

datatype 'a queue_op = Push 'a | TryPush 'a | Pop bool | TryPop | Close

fun push_effect ::
  "'a \<Rightarrow> PushStatus \<times> ('a, 'cb) BoundedQueue \<times> 'cb option \<Rightarrow> 'a list \<times> 'a list \<times> ('a, 'cb) BoundedQueue" where
  "push_effect x (status, q, callback) = (if status = PushOk then [x] else [], [], q)"

fun queue_step :: "'a queue_op \<Rightarrow> ('a, 'cb) BoundedQueue \<Rightarrow> 'a list \<times> 'a list \<times> ('a, 'cb) BoundedQueue" where
  "queue_step (Push x) q = (case push q x of None \<Rightarrow> ([], [], q) | Some r \<Rightarrow> push_effect x r)"
| "queue_step (TryPush x) q = push_effect x (try_push q x)"
| "queue_step (Pop stop) q = (case pop q stop of
       None \<Rightarrow> ([], [], q)
     | Some (status, out, q') \<Rightarrow> ([], case out of None \<Rightarrow> [] | Some x \<Rightarrow> [x], q'))"
| "queue_step TryPop q = (case try_pop q of (out, q') \<Rightarrow> ([], case out of None \<Rightarrow> [] | Some x \<Rightarrow> [x], q'))"
| "queue_step Close q = ([], [], close_queue q)"

lemmas queue_defs = push_def push_ready_def try_push_def pop_def pop_ready_def try_pop_def close_queue_def

interpretation bq: bounded_fifo queue_ok bq_items bq_capacity bq_closed queue_step
proof
  fix a :: "'a queue_op" and q q' :: "('a, 'cb) BoundedQueue" and accepted handed
  assume s: "queue_step a q = (accepted, handed, q')"
  show "bq_items q @ accepted = handed @ bq_items q'" and "bq_capacity q' = bq_capacity q"
    using s by (cases a; auto simp: queue_defs split: if_splits list.splits)+
  show "queue_ok q'" if "queue_ok q"
    using s that by (cases a) (auto simp: queue_defs queue_ok_def split: if_splits list.splits)
  show "bq_closed q' \<and> accepted = []" if "bq_closed q"
    using s that by (cases a) (auto simp: queue_defs split: if_splits list.splits)
qed (simp add: queue_ok_def)

text \<open>
  The blocking operations are the non-blocking ones once their wait predicate holds; in
  particular a blocking push never reports a full queue.
\<close>

lemma push_eq: "push q x = (if push_ready q then Some (try_push q x) else None)"
  by (auto simp: push_def try_push_def push_ready_def)

lemma pop_eq:
  "pop q stop =
     (if pop_ready q
      then Some (case try_pop q of
          (None, q') \<Rightarrow> (PopClosed, None, q')
        | (Some x, q') \<Rightarrow> (PopOk, Some x, q'))
      else if stop then Some (PopStopped, None, q) else None)"
  by (auto simp: pop_def try_pop_def split: list.splits)

text \<open>
  For every history of pushes, pops (blocking or not, with or without a stop request) and
  closes on a new queue, in any interleaving: the items handed out, followed by the items
  still queued, are exactly the accepted items in order, the queue never exceeds its
  capacity, and after it is closed the rest of the history accepts nothing.
\<close>

theorem queue_fifo:
  assumes "make_queue capacity = Inr q" and "run_steps queue_step as q = (accepted, handed, q')"
  shows "accepted = handed @ bq_items q' \<and> length (bq_items q') \<le> capacity \<and>
    (bq_closed q' \<longrightarrow> fst (run_steps queue_step bs q') = [])"
proof -
  from assms(1) have q: "queue_ok q" "bq_items q = []" "bq_capacity q = capacity"
    by (auto simp: make_queue_def queue_ok_def split: if_splits)
  obtain ac ha q'' where r: "run_steps queue_step bs q' = (ac, ha, q'')" by (cases "run_steps queue_step bs q'")
  show ?thesis
    using bq.run_fifo [OF assms(2)] bq.run_bounded [OF assms(2) q(1)] bq.run_closed [OF r] q r by simp
qed

definition demo_queue :: "(string, unit) BoundedQueue" where
  "demo_queue = \<lparr>bq_items = [], bq_capacity = 2, bq_closed = False, bq_on_push = None\<rparr>"

theorem queue_fifo_witness:
  "make_queue 2 = (Inr demo_queue :: fault + (string, unit) BoundedQueue) \<and>
   run_steps queue_step [TryPush ''a'', Push ''b'', Push ''c'', Pop False, Close, TryPush ''d''] demo_queue =
     ([''a'', ''b''], [''a''], demo_queue\<lparr>bq_items := [''b''], bq_closed := True\<rparr>) \<and>
   [''a'', ''b''] = [''a''] @ bq_items (demo_queue\<lparr>bq_items := [''b''], bq_closed := True\<rparr>) \<and>
   fst (run_steps queue_step [TryPush ''e'', TryPop] (demo_queue\<lparr>bq_items := [''b''], bq_closed := True\<rparr>)) = []"
proof -
  have m: "make_queue 2 = (Inr demo_queue :: fault + (string, unit) BoundedQueue)"
    by (simp add: make_queue_def demo_queue_def)
  have r: "run_steps queue_step [TryPush ''a'', Push ''b'', Push ''c'', Pop False, Close, TryPush ''d''] demo_queue =
     ([''a'', ''b''], [''a''], demo_queue\<lparr>bq_items := [''b''], bq_closed := True\<rparr>)"
    by (simp add: queue_defs demo_queue_def)
  show ?thesis using queue_fifo [OF m r, of "[TryPush ''e'', TryPop]"] m r by simp
qed

subsection \<open>Waiting and waking\<close>

text \<open>
  The queue together with its two condition variables. A thread in \<open>push\<close> or \<open>pop\<close> whose
  predicate fails is \<open>waiting\<close>; a notification, a stop request or a spurious wake-up makes
  it \<open>woken\<close>, and it then competes for the mutex and tests its predicate again. The calls
  of \<^verbatim>\<open>notify_one\<close> and \<^verbatim>\<open>notify_all\<close> come after the mutex was released: \<open>mn_pop_signals\<close>
  counts the threads between a push and their \<^verbatim>\<open>not_empty_.notify_one()\<close>, \<open>mn_push_signals\<close>
  those between a pop and their \<^verbatim>\<open>not_full_.notify_one()\<close>, \<open>mn_closers\<close> those between setting
  the flag and the two \<^verbatim>\<open>notify_all()\<close> of \<^verbatim>\<open>close()\<close>.
\<close>

record ('a, 'cb) Monitor =
  mn_queue :: "('a, 'cb) BoundedQueue"
  mn_pop_waiting :: nat
  mn_pop_woken :: nat
  mn_pop_signals :: nat
  mn_push_waiting :: nat
  mn_push_woken :: nat
  mn_push_signals :: nat
  mn_closers :: nat

definition make_monitor :: "('a, 'cb) BoundedQueue \<Rightarrow> ('a, 'cb) Monitor" where
  "make_monitor q = \<lparr>mn_queue = q, mn_pop_waiting = 0, mn_pop_woken = 0, mn_pop_signals = 0,
     mn_push_waiting = 0, mn_push_woken = 0, mn_push_signals = 0, mn_closers = 0\<rparr>"

text \<open>
  A thread that takes the mutex comes from outside (\<open>w = 0\<close>) or was woken (\<open>w = 1\<close>). It runs
  its critical section, then leaves, owes a notification or waits.
\<close>

fun push_section :: "nat \<Rightarrow> 'a \<Rightarrow> ('a, 'cb) Monitor \<Rightarrow> ('a, 'cb) Monitor" where
  "push_section w x m =
     (let m' = m\<lparr>mn_push_woken := mn_push_woken m - w\<rparr> in
      case push (mn_queue m) x of
        None \<Rightarrow> m'\<lparr>mn_push_waiting := mn_push_waiting m + 1\<rparr>
      | Some (PushOk, q, callback) \<Rightarrow> m'\<lparr>mn_queue := q, mn_pop_signals := mn_pop_signals m + 1\<rparr>
      | Some (status, q, callback) \<Rightarrow> m'\<lparr>mn_queue := q\<rparr>)"

fun try_push_section :: "'a \<Rightarrow> ('a, 'cb) Monitor \<Rightarrow> ('a, 'cb) Monitor" where
  "try_push_section x m =
     (case try_push (mn_queue m) x of
        (PushOk, q, callback) \<Rightarrow> m\<lparr>mn_queue := q, mn_pop_signals := mn_pop_signals m + 1\<rparr>
      | (status, q, callback) \<Rightarrow> m\<lparr>mn_queue := q\<rparr>)"

fun pop_section :: "nat \<Rightarrow> bool \<Rightarrow> ('a, 'cb) Monitor \<Rightarrow> ('a, 'cb) Monitor" where
  "pop_section w stop m =
     (let m' = m\<lparr>mn_pop_woken := mn_pop_woken m - w\<rparr> in
      case pop (mn_queue m) stop of
        None \<Rightarrow> m'\<lparr>mn_pop_waiting := mn_pop_waiting m + 1\<rparr>
      | Some (PopOk, out, q) \<Rightarrow> m'\<lparr>mn_queue := q, mn_push_signals := mn_push_signals m + 1\<rparr>
      | Some (status, out, q) \<Rightarrow> m'\<lparr>mn_queue := q\<rparr>)"

fun try_pop_section :: "('a, 'cb) Monitor \<Rightarrow> ('a, 'cb) Monitor" where
  "try_pop_section m =
     (case try_pop (mn_queue m) of
        (None, q) \<Rightarrow> m\<lparr>mn_queue := q\<rparr>
      | (Some x, q) \<Rightarrow> m\<lparr>mn_queue := q, mn_push_signals := mn_push_signals m + 1\<rparr>)"

definition wake_pop :: "nat \<Rightarrow> ('a, 'cb) Monitor \<Rightarrow> ('a, 'cb) Monitor" where
  "wake_pop n m = m\<lparr>mn_pop_waiting := mn_pop_waiting m - n,
     mn_pop_woken := mn_pop_woken m + min n (mn_pop_waiting m)\<rparr>"

definition wake_push :: "nat \<Rightarrow> ('a, 'cb) Monitor \<Rightarrow> ('a, 'cb) Monitor" where
  "wake_push n m = m\<lparr>mn_push_waiting := mn_push_waiting m - n,
     mn_push_woken := mn_push_woken m + min n (mn_push_waiting m)\<rparr>"

inductive monitor_step :: "('a, 'cb) Monitor \<Rightarrow> ('a, 'cb) Monitor \<Rightarrow> bool" where
  step_push: "w \<le> min 1 (mn_push_woken m) \<Longrightarrow> monitor_step m (push_section w x m)"
| step_try_push: "monitor_step m (try_push_section x m)"
| step_pop: "w \<le> min 1 (mn_pop_woken m) \<Longrightarrow> monitor_step m (pop_section w stop m)"
| step_try_pop: "monitor_step m (try_pop_section m)"
| step_notify_pop: "0 < mn_pop_signals m \<Longrightarrow>
    monitor_step m (wake_pop 1 (m\<lparr>mn_pop_signals := mn_pop_signals m - 1\<rparr>))"
| step_notify_push: "0 < mn_push_signals m \<Longrightarrow>
    monitor_step m (wake_push 1 (m\<lparr>mn_push_signals := mn_push_signals m - 1\<rparr>))"
| step_close: "monitor_step m (m\<lparr>mn_queue := close_queue (mn_queue m), mn_closers := mn_closers m + 1\<rparr>)"
| step_notify_all: "0 < mn_closers m \<Longrightarrow>
    monitor_step m (wake_pop (mn_pop_waiting m) (wake_push (mn_push_waiting m)
      (m\<lparr>mn_closers := mn_closers m - 1\<rparr>)))"
| step_spurious_pop: "monitor_step m (wake_pop n m)"
| step_spurious_push: "monitor_step m (wake_push n m)"

inductive monitor_reachable :: "nat \<Rightarrow> ('a, 'cb) Monitor \<Rightarrow> bool" for capacity where
  reach_new: "make_queue capacity = Inr q \<Longrightarrow> monitor_reachable capacity (make_monitor q)"
| reach_more: "monitor_reachable capacity m \<Longrightarrow> monitor_step m m' \<Longrightarrow> monitor_reachable capacity m'"

definition monitor_ok :: "('a, 'cb) Monitor \<Rightarrow> bool" where
  "monitor_ok m \<longleftrightarrow> queue_ok (mn_queue m) \<and>
     (if bq_closed (mn_queue m)
      then mn_closers m = 0 \<longrightarrow> mn_pop_waiting m = 0 \<and> mn_push_waiting m = 0
      else (0 < mn_pop_waiting m \<longrightarrow>
             length (bq_items (mn_queue m)) \<le> mn_pop_woken m + mn_pop_signals m) \<and>
           (0 < mn_push_waiting m \<longrightarrow>
             bq_capacity (mn_queue m) - length (bq_items (mn_queue m)) \<le> mn_push_woken m + mn_push_signals m))"

lemma monitor_ok_push: "monitor_ok m \<Longrightarrow> w \<le> min 1 (mn_push_woken m) \<Longrightarrow> monitor_ok (push_section w x m)"
  by (auto simp: monitor_ok_def queue_ok_def push_def push_ready_def Let_def split: if_splits)

lemma monitor_ok_try_push: "monitor_ok m \<Longrightarrow> monitor_ok (try_push_section x m)"
  by (auto simp: monitor_ok_def queue_ok_def try_push_def split: if_splits)

lemma monitor_ok_pop: "monitor_ok m \<Longrightarrow> w \<le> min 1 (mn_pop_woken m) \<Longrightarrow> monitor_ok (pop_section w stop m)"
  by (auto simp: monitor_ok_def queue_ok_def pop_def pop_ready_def Let_def split: if_splits list.splits)

lemma monitor_ok_try_pop: "monitor_ok m \<Longrightarrow> monitor_ok (try_pop_section m)"
  by (auto simp: monitor_ok_def queue_ok_def try_pop_def split: if_splits list.splits)

lemma monitor_ok_step: "monitor_step m m' \<Longrightarrow> monitor_ok m \<Longrightarrow> monitor_ok m'"
proof (induction rule: monitor_step.induct)
  case (step_push w m x)
  then show ?case by (intro monitor_ok_push)
next
  case (step_pop w m stop)
  then show ?case by (intro monitor_ok_pop)
next
  case (step_notify_pop m)
  then show ?case by (auto simp: monitor_ok_def wake_pop_def)
next
  case (step_notify_push m)
  then show ?case by (auto simp: monitor_ok_def wake_push_def)
next
  case (step_close m)
  then show ?case by (auto simp: monitor_ok_def close_queue_def queue_ok_def)
next
  case (step_notify_all m)
  then show ?case by (auto simp: monitor_ok_def wake_pop_def wake_push_def)
next
  case (step_spurious_pop m n)
  then show ?case by (auto simp: monitor_ok_def wake_pop_def)
next
  case (step_spurious_push m n)
  then show ?case by (auto simp: monitor_ok_def wake_push_def)
qed (auto intro: monitor_ok_try_push monitor_ok_try_pop simp del: try_push_section.simps try_pop_section.simps)

lemma monitor_reachable_ok: "monitor_reachable capacity m \<Longrightarrow> monitor_ok m"
proof (induction rule: monitor_reachable.induct)
  case (reach_new q)
  then show ?case
    by (auto simp: monitor_ok_def make_monitor_def make_queue_def queue_ok_def split: if_splits)
next
  case (reach_more m m')
  then show ?case by (blast intro: monitor_ok_step)
qed

text \<open>
  C7. No wake-up is lost, although every notification comes after the mutex was released:
  in every reachable state, a consumer is left asleep while the queue could serve it (an item
  is queued, or it is closed) only as long as another consumer has been woken or a
  notification is still to be sent, and the same holds for producers and free places.
\<close>

theorem queue_no_lost_wakeup:
  assumes "monitor_reachable capacity m"
  shows "(0 < mn_pop_waiting m \<and> pop_ready (mn_queue m) \<longrightarrow>
      0 < mn_pop_woken m + mn_pop_signals m + mn_closers m) \<and>
    (0 < mn_push_waiting m \<and> push_ready (mn_queue m) \<longrightarrow>
      0 < mn_push_woken m + mn_push_signals m + mn_closers m)"
  using monitor_reachable_ok [OF assms]
  by (cases "bq_items (mn_queue m)")
    (auto simp: monitor_ok_def pop_ready_def push_ready_def split: if_splits)

text \<open>A consumer waits on the empty queue, then a producer has pushed but not yet notified.\<close>

definition demo_monitor :: "(string, unit) Monitor" where
  "demo_monitor = push_section 0 ''a'' (pop_section 0 False (make_monitor demo_queue))"

theorem queue_no_lost_wakeup_witness:
  "monitor_reachable 2 demo_monitor \<and> 0 < mn_pop_waiting demo_monitor \<and>
   pop_ready (mn_queue demo_monitor) \<and>
   0 < mn_pop_woken demo_monitor + mn_pop_signals demo_monitor + mn_closers demo_monitor"
proof -
  have "make_queue 2 = (Inr demo_queue :: fault + (string, unit) BoundedQueue)"
    by (simp add: make_queue_def demo_queue_def)
  then have "monitor_reachable 2 (make_monitor demo_queue)" by (rule reach_new)
  then have "monitor_reachable 2 (pop_section 0 False (make_monitor demo_queue))"
    by (rule reach_more [OF _ step_pop]) simp
  then have r: "monitor_reachable 2 demo_monitor"
    unfolding demo_monitor_def by (rule reach_more [OF _ step_push]) simp
  have "0 < mn_pop_waiting demo_monitor \<and> pop_ready (mn_queue demo_monitor)" by code_simp
  with queue_no_lost_wakeup [OF r] r show ?thesis by simp
qed

end
