(* ===== verification/Response_Sequencer.thy ===== *)
theory Response_Sequencer
  imports KV_Prelude
begin

text \<open>
  \<^verbatim>\<open>ResponseSequencer\<close>, \<^verbatim>\<open>src/include/kvstore/net/response_sequencer.hpp\<close> and
  \<^verbatim>\<open>src/src/net/response_sequencer.cpp\<close>: sequence numbers for the requests of one connection,
  and the reordering of responses that come back out of order. The sequence numbers are
  64-bit words that wrap around; \<open>sequencer_run\<close> follows the sequencer with the list of all
  requests of the connection so far and their responses.
\<close>

subsection \<open>The sequencer\<close>

record ResponseSequencer =
  rs_next_request_sequence :: u64
  rs_next_expected :: u64
  rs_pending :: "(u64 \<times> string) list"

definition new_sequencer :: ResponseSequencer where
  "new_sequencer = \<lparr>rs_next_request_sequence = 0, rs_next_expected = 0, rs_pending = []\<rparr>"

definition next_request_sequence :: "ResponseSequencer \<Rightarrow> u64 \<times> ResponseSequencer" where
  "next_request_sequence s =
     (rs_next_request_sequence s, s\<lparr>rs_next_request_sequence := rs_next_request_sequence s + 1\<rparr>)"

definition in_flight_count :: "ResponseSequencer \<Rightarrow> u64" where
  "in_flight_count s = rs_next_request_sequence s - rs_next_expected s"

text \<open>\<^verbatim>\<open>std::map::emplace\<close> keeps an element that is already there.\<close>

definition pending_emplace :: "(u64 \<times> string) list \<Rightarrow> u64 \<Rightarrow> string \<Rightarrow> (u64 \<times> string) list" where
  "pending_emplace p sequence response =
     (if map_of p sequence = None then (sequence, response) # p else p)"

definition pending_erase :: "(u64 \<times> string) list \<Rightarrow> u64 \<Rightarrow> (u64 \<times> string) list" where
  "pending_erase p sequence = filter (\<lambda>(q, r). q \<noteq> sequence) p"

lemma pending_erase_shrinks:
  "map_of p e = Some r \<Longrightarrow> length (pending_erase p e) < length p"
  unfolding pending_erase_def by (rule length_filter_less [of "(e, r)"]) (auto dest: map_of_SomeD)

function release_ready :: "u64 \<Rightarrow> (u64 \<times> string) list \<Rightarrow> string list \<times> u64 \<times> (u64 \<times> string) list" where
  "release_ready next_expected pending =
     (case map_of pending next_expected of
        None \<Rightarrow> ([], next_expected, pending)
      | Some response \<Rightarrow>
          (case release_ready (next_expected + 1) (pending_erase pending next_expected) of
             (ready, next', pending') \<Rightarrow> (response # ready, next', pending')))"
  by pat_completeness auto

termination
  by (relation "measure (length \<circ> snd)") (auto simp: pending_erase_shrinks)

declare release_ready.simps [simp del]

definition record_response :: "ResponseSequencer \<Rightarrow> u64 \<Rightarrow> string \<Rightarrow> string list \<times> ResponseSequencer" where
  "record_response s sequence response =
     (case release_ready (rs_next_expected s) (pending_emplace (rs_pending s) sequence response) of
        (ready, next', pending') \<Rightarrow> (ready, s\<lparr>rs_next_expected := next', rs_pending := pending'\<rparr>))"

subsection \<open>Runs of a sequencer\<close>

text \<open>
  \<open>sequencer_run reqs out s\<close>: the connection has made the requests \<open>reqs\<close>, each with its
  response once that is recorded, and the responses \<open>out\<close> were released so far. Responses
  come in any order, one per request. A request is only admitted while the in-flight count
  is below its maximum, as the event loop's cap ensures.
\<close>

inductive sequencer_run :: "string option list \<Rightarrow> string list \<Rightarrow> ResponseSequencer \<Rightarrow> bool" where
  run_start: "sequencer_run [] [] new_sequencer"
| run_request: "sequencer_run reqs out s \<Longrightarrow> in_flight_count s < - 1 \<Longrightarrow>
    next_request_sequence s = (sequence, s') \<Longrightarrow> sequencer_run (reqs @ [None]) out s'"
| run_record: "sequencer_run reqs out s \<Longrightarrow> i < length reqs \<Longrightarrow> reqs ! i = None \<Longrightarrow>
    record_response s (word_of_nat i) response = (ready, s') \<Longrightarrow>
    sequencer_run (reqs[i := Some response]) (out @ ready) s'"

text \<open>The answered requests before the first unanswered one.\<close>

definition released :: "string option list \<Rightarrow> string list" where
  "released reqs = map the (takeWhile (\<lambda>r. r \<noteq> None) reqs)"

text \<open>The pending map holds exactly the responses of \<open>reqs\<close> from position \<open>k\<close> on.\<close>

definition pending_from :: "nat \<Rightarrow> string option list \<Rightarrow> (u64 \<times> string) list \<Rightarrow> bool" where
  "pending_from k reqs p \<longleftrightarrow> (\<forall>e r. map_of p e = Some r \<longleftrightarrow>
     (\<exists>i. k \<le> i \<and> i < length reqs \<and> e = word_of_nat i \<and> reqs ! i = Some r))"

definition sequencer_ok :: "string option list \<Rightarrow> nat \<Rightarrow> ResponseSequencer \<Rightarrow> bool" where
  "sequencer_ok reqs k s \<longleftrightarrow> k \<le> length reqs \<and> length reqs - k < 2 ^ 64 \<and>
     rs_next_request_sequence s = word_of_nat (length reqs) \<and>
     rs_next_expected s = word_of_nat k \<and> pending_from k reqs (rs_pending s)"

lemma mod_window:
  fixes i j n :: nat
  assumes "i mod n = j mod n" and "j \<le> i" and "i - j < n"
  shows "i = j"
proof -
  from assms(1,2) have "n dvd i - j" by (simp only: mod_eq_dvd_iff_nat)
  with assms(2,3) show ?thesis by (metis diff_is_0_eq le_antisym nat_dvd_not_less neq0_conv)
qed

lemma word_window_inj:
  assumes "k \<le> i" "i < k + 2 ^ 64" "k \<le> j" "j < k + 2 ^ 64" "(word_of_nat i :: u64) = word_of_nat j"
  shows "i = j"
proof -
  from assms(5) have m: "i mod 2 ^ 64 = j mod 2 ^ 64"
    by (simp add: word_of_nat_eq_iff take_bit_nat_def)
  show ?thesis
  proof (cases "j \<le> i")
    case True
    moreover have "i - j < 2 ^ 64" using assms(2,3) less_diff_conv2 [OF True, of "2 ^ 64"] by linarith
    ultimately show ?thesis using m by (metis mod_window)
  next
    case False
    then have ij: "i \<le> j" by simp
    moreover have "j - i < 2 ^ 64" using assms(1,4) less_diff_conv2 [OF ij, of "2 ^ 64"] by linarith
    ultimately show ?thesis using m by (metis mod_window)
  qed
qed

lemma map_of_pending_erase: "map_of (pending_erase p e) = (map_of p)(e := None)"
  by (induction p) (auto simp: pending_erase_def)

lemma map_of_pending_emplace:
  "map_of p e = None \<Longrightarrow> map_of (pending_emplace p e r) = (map_of p)(e \<mapsto> r)"
  by (simp add: pending_emplace_def)

lemma pending_from_lookup:
  assumes "pending_from k reqs p" and "i < length reqs" and "k \<le> i" and "length reqs - k < 2 ^ 64"
  shows "map_of p (word_of_nat i) = reqs ! i"
proof (cases "reqs ! i")
  case (Some r)
  with assms(1-3) have "map_of p (word_of_nat i) = Some r" unfolding pending_from_def by blast
  with Some show ?thesis by simp
next
  case None
  show ?thesis
  proof (cases "map_of p (word_of_nat i)")
    case (Some r)
    with assms(1) obtain j where j: "k \<le> j" "j < length reqs" "(word_of_nat i :: u64) = word_of_nat j"
      "reqs ! j = Some r" unfolding pending_from_def by blast
    with assms have "i = j" by (intro word_window_inj [of k]) auto
    with j None show ?thesis by simp
  qed (simp add: None)
qed

lemma pending_from_end:
  "pending_from (length reqs) reqs p \<Longrightarrow> map_of p e = None"
  unfolding pending_from_def by (metis not_le option.exhaust)

lemma pending_from_next:
  assumes "pending_from k reqs p" and "k < length reqs" and "length reqs - k < 2 ^ 64"
  shows "pending_from (Suc k) reqs (pending_erase p (word_of_nat k))"
  unfolding pending_from_def map_of_pending_erase
proof (intro allI)
  fix e r
  have inj: "i = k" if "k \<le> i" "i < length reqs" "(word_of_nat i :: u64) = word_of_nat k" for i
    using that assms by (intro word_window_inj [of k]) auto
  show "((map_of p)(word_of_nat k := None)) e = Some r \<longleftrightarrow>
    (\<exists>i. Suc k \<le> i \<and> i < length reqs \<and> e = word_of_nat i \<and> reqs ! i = Some r)"
  proof (cases "e = word_of_nat k")
    case True
    have "\<not> (Suc k \<le> i \<and> i < length reqs \<and> e = word_of_nat i)" for i
      using inj [of i] True by auto
    with True show ?thesis by auto
  next
    case False
    then have "(\<exists>i. Suc k \<le> i \<and> i < length reqs \<and> e = word_of_nat i \<and> reqs ! i = Some r) \<longleftrightarrow>
      (\<exists>i. k \<le> i \<and> i < length reqs \<and> e = word_of_nat i \<and> reqs ! i = Some r)"
      by (metis Suc_leD Suc_leI le_neq_implies_less)
    with False assms(1) show ?thesis by (simp add: pending_from_def)
  qed
qed

lemma released_step:
  "k < length reqs \<Longrightarrow> reqs ! k = Some r \<Longrightarrow> released (drop k reqs) = r # released (drop (Suc k) reqs)"
  by (simp add: released_def Cons_nth_drop_Suc [symmetric])

lemma released_gap: "k < length reqs \<Longrightarrow> reqs ! k = None \<Longrightarrow> released (drop k reqs) = []"
  by (simp add: released_def Cons_nth_drop_Suc [symmetric])

lemma release_ready_correct:
  assumes "pending_from k reqs p" and "k \<le> length reqs" and "length reqs - k < 2 ^ 64"
  shows "\<exists>p'. release_ready (word_of_nat k) p =
      (released (drop k reqs), word_of_nat (k + length (released (drop k reqs))), p') \<and>
    pending_from (k + length (released (drop k reqs))) reqs p'"
  using assms
proof (induction "length reqs - k" arbitrary: k p)
  case 0
  then have "k = length reqs" by simp
  with 0 pending_from_end [of reqs p "word_of_nat k"] show ?case
    by (simp add: release_ready.simps [of _ p] released_def)
next
  case (Suc n)
  then have k: "k < length reqs" by simp
  note look = pending_from_lookup [OF Suc.prems(1) k order_refl Suc.prems(3)]
  show ?case
  proof (cases "reqs ! k")
    case None
    with look Suc.prems(1) show ?thesis
      by (simp add: release_ready.simps [of _ p] released_gap [OF k None])
  next
    case (Some r)
    from Suc.hyps(2) Suc.prems(3) k
    have "n = length reqs - Suc k" "Suc k \<le> length reqs" "length reqs - Suc k < 2 ^ 64" by auto
    with Suc.hyps(1) [OF _ pending_from_next [OF Suc.prems(1) k Suc.prems(3)]]
    obtain p' where "release_ready (word_of_nat (Suc k)) (pending_erase p (word_of_nat k)) =
        (released (drop (Suc k) reqs), word_of_nat (Suc k + length (released (drop (Suc k) reqs))), p')"
      "pending_from (Suc k + length (released (drop (Suc k) reqs))) reqs p'"
      by blast
    with look Some show ?thesis
      by (simp add: release_ready.simps [of _ p] released_step [OF k Some] add.commute)
  qed
qed

lemma length_released_le: "length (released reqs) \<le> length reqs"
  by (simp add: released_def length_takeWhile_le)

lemma released_split:
  assumes "\<forall>r\<in>set (take k reqs). r \<noteq> None"
  shows "released reqs = map the (take k reqs) @ released (drop k reqs)"
proof -
  have "takeWhile (\<lambda>r. r \<noteq> None) (take k reqs @ drop k reqs) =
      take k reqs @ takeWhile (\<lambda>r. r \<noteq> None) (drop k reqs)"
    using assms by (intro takeWhile_append2) blast
  then show ?thesis by (simp add: released_def)
qed

lemma take_released:
  "take (length (released reqs)) reqs = takeWhile (\<lambda>r. r \<noteq> None) reqs"
  by (simp add: released_def takeWhile_eq_take [symmetric])

lemma unanswered_not_released:
  assumes "i < length reqs" and "reqs ! i = None"
  shows "length (released reqs) \<le> i"
proof (rule ccontr)
  assume "\<not> length (released reqs) \<le> i"
  then have "i < length (takeWhile (\<lambda>r. r \<noteq> None) reqs)" by (simp add: released_def)
  then show False using assms(2) by (metis (mono_tags, lifting) nth_mem set_takeWhileD takeWhile_nth)
qed

lemma in_flight_count_eq:
  assumes "sequencer_ok reqs k s"
  shows "unat (in_flight_count s) = length reqs - k"
proof -
  have "in_flight_count s = word_of_nat (length reqs - k)"
    using assms by (simp add: sequencer_ok_def in_flight_count_def of_nat_diff)
  moreover have "length reqs - k < 2 ^ 64" using assms by (simp add: sequencer_ok_def)
  ultimately show ?thesis by (simp add: unat_of_nat)
qed

lemma released_snoc: "released (reqs @ [None]) = released reqs"
  by (induction reqs) (simp_all add: released_def)

lemma pending_from_snoc: "pending_from k (reqs @ [None]) p \<longleftrightarrow> pending_from k reqs p"
  by (auto simp: pending_from_def nth_append less_Suc_eq)

lemma pending_from_emplace:
  assumes "pending_from k reqs p" and "i < length reqs" and "k \<le> i" and "reqs ! i = None"
    and "length reqs - k < 2 ^ 64"
  shows "pending_from k (reqs[i := Some r]) (pending_emplace p (word_of_nat i) r)"
proof -
  have new: "map_of p (word_of_nat i) = None"
    using pending_from_lookup [OF assms(1,2,3,5)] assms(4) by simp
  have inj: "j = i" if "k \<le> j" "j < length reqs" "(word_of_nat j :: u64) = word_of_nat i" for j
    using that assms by (intro word_window_inj [of k]) auto
  show ?thesis unfolding pending_from_def map_of_pending_emplace [OF new]
  proof (intro allI)
    fix e r'
    show "((map_of p)(word_of_nat i \<mapsto> r)) e = Some r' \<longleftrightarrow> (\<exists>j. k \<le> j \<and>
      j < length (reqs[i := Some r]) \<and> e = word_of_nat j \<and> reqs[i := Some r] ! j = Some r')"
    proof (cases "e = word_of_nat i")
      case True
      have "(\<exists>j. k \<le> j \<and> j < length reqs \<and> word_of_nat i = (word_of_nat j :: u64) \<and>
          reqs[i := Some r] ! j = Some r') \<longleftrightarrow> r = r'"
        using inj assms(2,3) by (metis nth_list_update_eq option.inject)
      with True show ?thesis by simp
    next
      case False
      then have "(\<exists>j. k \<le> j \<and> j < length (reqs[i := Some r]) \<and> e = word_of_nat j \<and>
          reqs[i := Some r] ! j = Some r') \<longleftrightarrow>
        (\<exists>j. k \<le> j \<and> j < length reqs \<and> e = word_of_nat j \<and> reqs ! j = Some r')"
        by (metis length_list_update nth_list_update_neq)
      with False assms(1) show ?thesis by (simp add: pending_from_def)
    qed
  qed
qed

lemma record_response_correct:
  assumes ok: "sequencer_ok reqs (length (released reqs)) s"
    and i: "i < length reqs" "reqs ! i = None"
    and r: "record_response s (word_of_nat i) response = (ready, s')"
  shows "released (reqs[i := Some response]) = released reqs @ ready \<and>
    sequencer_ok (reqs[i := Some response]) (length (released reqs @ ready)) s'"
proof -
  let ?k = "length (released reqs)" and ?reqs = "reqs[i := Some response]"
  note ki = unanswered_not_released [OF i]
  from ok have ok': "?k \<le> length reqs" "length reqs - ?k < 2 ^ 64" "pending_from ?k reqs (rs_pending s)"
    "rs_next_expected s = word_of_nat ?k"
    by (simp_all add: sequencer_ok_def)
  note p = pending_from_emplace [OF ok'(3) i(1) ki i(2) ok'(2), of response]
  from release_ready_correct [OF p] ok' obtain p' where
    rel: "release_ready (word_of_nat ?k) (pending_emplace (rs_pending s) (word_of_nat i) response) =
      (released (drop ?k ?reqs), word_of_nat (?k + length (released (drop ?k ?reqs))), p')"
    and p': "pending_from (?k + length (released (drop ?k ?reqs))) ?reqs p'"
    by auto
  from r rel ok'(4) have ready: "ready = released (drop ?k ?reqs)"
    and s': "s' = s\<lparr>rs_next_expected := word_of_nat (?k + length ready), rs_pending := p'\<rparr>"
    by (auto simp: record_response_def)
  have t: "take ?k ?reqs = takeWhile (\<lambda>r. r \<noteq> None) reqs"
    using ki by (simp add: take_released)
  then have "released ?reqs = map the (take ?k ?reqs) @ released (drop ?k ?reqs)"
    by (intro released_split) (auto dest: set_takeWhileD)
  with t ready have out: "released ?reqs = released reqs @ ready" by (simp add: released_def)
  moreover have "length (released reqs @ ready) \<le> length ?reqs"
    using length_released_le [of ?reqs] out by simp
  moreover have "length reqs - (?k + length ready) < 2 ^ 64" using ok'(2) by linarith
  ultimately show ?thesis using ok p' ready by (simp add: sequencer_ok_def s')
qed

lemma sequencer_run_ok:
  "sequencer_run reqs out s \<Longrightarrow> out = released reqs \<and> sequencer_ok reqs (length out) s"
proof (induction rule: sequencer_run.induct)
  case run_start
  show ?case by (simp add: released_def sequencer_ok_def new_sequencer_def pending_from_def)
next
  case (run_request reqs out s sequence s')
  have "unat (in_flight_count s) < unat (- 1 :: u64)"
    using run_request.hyps(2) by (simp only: word_less_nat_alt)
  then have "length reqs - length out < 2 ^ 64 - 1"
    using run_request.IH in_flight_count_eq [of reqs "length out" s]
    by (auto simp add: unsigned_minus_1_eq_mask mask_eq_exp_minus_1)
  with run_request show ?case
    by (auto simp: sequencer_ok_def next_request_sequence_def pending_from_snoc released_snoc)
next
  case (run_record reqs out s i response ready s')
  then show ?case using record_response_correct [of reqs s i response ready s'] by auto
qed

text \<open>
  C5. Responses leave a connection in request order, each exactly once, in whatever order
  they are recorded: what was released is the longest answered prefix of the requests, and
  the in-flight count is exactly the number of requests not released yet, although all
  sequence numbers wrap around at 64 bits.
\<close>

theorem responses_in_request_order:
  assumes "sequencer_run reqs out s"
  shows "out = map the (takeWhile (\<lambda>r. r \<noteq> None) reqs) \<and>
    unat (in_flight_count s) = length reqs - length out"
  using sequencer_run_ok [OF assms] in_flight_count_eq [of reqs "length out" s]
  by (auto simp: released_def)

lemma demo_sequencer:
  "\<exists>s. sequencer_run [Some ''a'', Some ''b'', None] [''a'', ''b''] s"
proof -
  define q where "q k = (new_sequencer\<lparr>rs_next_request_sequence := k\<rparr>)" for k
  have max: "w < - 1 \<longleftrightarrow> unat w < 2 ^ 64 - 1" for w :: u64
    by (simp only: word_less_nat_alt) (simp add: unsigned_minus_1_eq_mask mask_eq_exp_minus_1)
  have "sequencer_run [] [] (q 0)" using run_start by (simp add: q_def new_sequencer_def)
  from run_request [OF this, of 0 "q 1"] have "sequencer_run [None] [] (q 1)"
    by (simp add: q_def max in_flight_count_def next_request_sequence_def new_sequencer_def)
  from run_request [OF this, of 1 "q 2"] have "sequencer_run [None, None] [] (q 2)"
    by (simp add: q_def max in_flight_count_def next_request_sequence_def new_sequencer_def)
  from run_request [OF this, of 2 "q 3"] have "sequencer_run [None, None, None] [] (q 3)"
    by (simp add: q_def max in_flight_count_def next_request_sequence_def new_sequencer_def)
  from run_record [OF this, of 1 "''b''" "[]" "q 3\<lparr>rs_pending := [(1, ''b'')]\<rparr>"]
  have "sequencer_run [None, Some ''b'', None] [] (q 3\<lparr>rs_pending := [(1, ''b'')]\<rparr>)"
    by (simp add: q_def record_response_def release_ready.simps pending_emplace_def new_sequencer_def)
  from run_record [OF this, of 0 "''a''" "[''a'', ''b'']" "q 3\<lparr>rs_next_expected := 2\<rparr>"]
  show ?thesis
    by (auto simp: q_def record_response_def release_ready.simps pending_emplace_def pending_erase_def
      new_sequencer_def)
qed

theorem responses_in_request_order_witness:
  "\<exists>s. sequencer_run [Some ''a'', Some ''b'', None] [''a'', ''b''] s \<and>
     [''a'', ''b''] = map the (takeWhile (\<lambda>r. r \<noteq> None) [Some ''a'', Some ''b'', None]) \<and>
     unat (in_flight_count s) = 1"
proof -
  obtain s where s: "sequencer_run [Some ''a'', Some ''b'', None] [''a'', ''b''] s"
    using demo_sequencer by blast
  show ?thesis using responses_in_request_order [OF s] s by auto
qed

text \<open>
  The sequencer never holds back a connection for nothing: while requests are in flight,
  the oldest unreleased one has no response yet, so when every request has been answered the
  in-flight count is zero and everything was released.
\<close>

theorem in_flight_waits_for_oldest:
  assumes "sequencer_run reqs out s" and "in_flight_count s \<noteq> 0"
  shows "length out < length reqs \<and> reqs ! length out = None"
proof -
  let ?t = "takeWhile (\<lambda>r. r \<noteq> None) reqs"
  have out: "length out = length ?t" and n: "unat (in_flight_count s) = length reqs - length out"
    using sequencer_run_ok [OF assms(1)] in_flight_count_eq [of reqs "length out" s]
    by (auto simp: released_def)
  moreover have "unat (in_flight_count s) \<noteq> 0" using assms(2) by (simp add: unat_eq_zero)
  ultimately have "length ?t < length reqs" by linarith
  with nth_length_takeWhile [OF this] show ?thesis by (simp add: out)
qed

theorem in_flight_waits_for_oldest_witness:
  "\<exists>s. sequencer_run [Some ''a'', Some ''b'', None] [''a'', ''b''] s \<and> in_flight_count s \<noteq> 0 \<and>
     length [''a'', ''b''] < length [Some ''a'', Some ''b'', None] \<and>
     [Some ''a'', Some ''b'', None] ! length [''a'', ''b''] = None"
proof -
  obtain s where s: "sequencer_run [Some ''a'', Some ''b'', None] [''a'', ''b''] s"
    using demo_sequencer by blast
  have f: "in_flight_count s \<noteq> 0"
    using in_flight_count_eq [OF sequencer_run_ok [OF s, THEN conjunct2]] by auto
  show ?thesis using in_flight_waits_for_oldest [OF s f] s f by blast
qed

end
