(* ===== verification/Connections.thy ===== *)
theory Connections
  imports KV_Prelude Response_Sequencer
begin

text \<open>
  Connections and what they own: the capped byte buffer (\<^verbatim>\<open>src/src/net/bounded_buffer.cpp\<close>),
  the owning file descriptor (\<^verbatim>\<open>file_descriptor.cpp\<close>), the connection
  (\<^verbatim>\<open>connection.cpp\<close>) and the registry of open connections
  (\<^verbatim>\<open>connection_registry.cpp\<close>). Operations that may close descriptors return the list of
  descriptors they passed to \<^verbatim>\<open>::close\<close>.
\<close>

subsection \<open>Bounded buffers\<close>

record BoundedBuffer =
  bb_data :: string
  bb_capacity :: nat

definition make_buffer :: "nat \<Rightarrow> fault + BoundedBuffer" where
  "make_buffer capacity =
     (if capacity = 0
      then Inl (Exn (Invalid_argument ''BoundedBuffer: capacity must be greater than zero''))
      else Inr \<lparr>bb_data = [], bb_capacity = capacity\<rparr>)"

definition buffer_append :: "BoundedBuffer \<Rightarrow> string \<Rightarrow> bool \<times> BoundedBuffer" where
  "buffer_append b ds =
     (if size_sub (bb_capacity b) (length (bb_data b)) < length ds then (False, b)
      else (True, b\<lparr>bb_data := bb_data b @ ds\<rparr>))"

definition buffer_consume :: "BoundedBuffer \<Rightarrow> nat \<Rightarrow> BoundedBuffer" where
  "buffer_consume b n =
     (if length (bb_data b) \<le> n then b\<lparr>bb_data := []\<rparr>
      else b\<lparr>bb_data := drop n (bb_data b)\<rparr>)"

definition buffer_ok :: "BoundedBuffer \<Rightarrow> bool" where
  "buffer_ok b \<longleftrightarrow> length (bb_data b) \<le> bb_capacity b \<and> 0 < bb_capacity b"

subsection \<open>File descriptors\<close>

text \<open>\<^verbatim>\<open>FileDescriptor\<close> holds a descriptor number, or a negative number for none.\<close>

type_synonym FileDescriptor = int

definition fd_valid :: "FileDescriptor \<Rightarrow> bool" where
  "fd_valid fd \<longleftrightarrow> 0 \<le> fd"

definition fd_reset :: "FileDescriptor \<Rightarrow> int \<Rightarrow> int list \<times> FileDescriptor" where
  "fd_reset fd new_fd = (if 0 \<le> fd then [fd] else [], new_fd)"

definition fd_release :: "FileDescriptor \<Rightarrow> int \<times> FileDescriptor" where
  "fd_release fd = (fd, - 1)"

definition fd_destroy :: "FileDescriptor \<Rightarrow> int list" where
  "fd_destroy fd = fst (fd_reset fd (- 1))"

text \<open>Move assignment to another object: the closed descriptors, the target and the source.\<close>

definition fd_move_assign :: "FileDescriptor \<Rightarrow> FileDescriptor \<Rightarrow> int list \<times> FileDescriptor \<times> FileDescriptor" where
  "fd_move_assign target other =
     (case fd_release other of (fd, other') \<Rightarrow>
        (case fd_reset target fd of (closed, target') \<Rightarrow> (closed, target', other')))"

subsection \<open>Connections\<close>

type_synonym ConnectionId = int

type_synonym ConnectionGeneration = u64

definition kDefaultMaxInputBufferBytes :: nat where [kv_consts]:
  "kDefaultMaxInputBufferBytes = 2 * 1024 * 1024"

definition kDefaultMaxOutputBufferBytes :: nat where [kv_consts]:
  "kDefaultMaxOutputBufferBytes = 2 * 1024 * 1024"

record Connection =
  cn_id :: ConnectionId
  cn_generation :: ConnectionGeneration
  cn_fd :: FileDescriptor
  cn_peer_address :: string
  cn_input :: BoundedBuffer
  cn_output :: BoundedBuffer
  cn_sequencer :: ResponseSequencer

definition make_connection ::
  "ConnectionId \<Rightarrow> ConnectionGeneration \<Rightarrow> FileDescriptor \<Rightarrow> string \<Rightarrow> nat \<Rightarrow> nat \<Rightarrow> fault + Connection" where
  "make_connection cid generation fd peer_address max_input_bytes max_output_bytes =
     (case make_buffer max_input_bytes of
        Inl f \<Rightarrow> Inl f
      | Inr input \<Rightarrow>
          (case make_buffer max_output_bytes of
             Inl f \<Rightarrow> Inl f
           | Inr output \<Rightarrow>
               Inr \<lparr>cn_id = cid, cn_generation = generation, cn_fd = fd, cn_peer_address = peer_address,
                 cn_input = input, cn_output = output, cn_sequencer = new_sequencer\<rparr>))"

definition connection_ok :: "Connection \<Rightarrow> bool" where
  "connection_ok c \<longleftrightarrow> buffer_ok (cn_input c) \<and> buffer_ok (cn_output c)"

subsection \<open>The registry\<close>

record ConnectionRegistry =
  cr_next_generation :: ConnectionGeneration
  cr_connections :: "ConnectionId \<Rightarrow> Connection option"

definition empty_registry :: ConnectionRegistry where
  "empty_registry = \<lparr>cr_next_generation = 1, cr_connections = Map.empty\<rparr>"

text \<open>Erasing a map element destroys the connection, which closes its descriptor.\<close>

definition registry_erase :: "ConnectionRegistry \<Rightarrow> ConnectionId \<Rightarrow> int list \<times> ConnectionRegistry" where
  "registry_erase r cid =
     (case cr_connections r cid of
        None \<Rightarrow> ([], r)
      | Some c \<Rightarrow> (fd_destroy (cn_fd c), r\<lparr>cr_connections := (cr_connections r)(cid := None)\<rparr>))"

definition registry_add ::
  "ConnectionRegistry \<Rightarrow> FileDescriptor \<Rightarrow> string \<Rightarrow> nat \<Rightarrow> nat \<Rightarrow>
    fault + Connection \<times> int list \<times> ConnectionRegistry" where
  "registry_add r fd peer_address max_input_bytes max_output_bytes =
     (let cid = fd; generation = cr_next_generation r;
          r' = r\<lparr>cr_next_generation := cr_next_generation r + 1\<rparr>
      in case registry_erase r' cid of
        (closed, r'') \<Rightarrow>
          (case make_connection cid generation fd peer_address max_input_bytes max_output_bytes of
             Inl f \<Rightarrow> Inl f
           | Inr c \<Rightarrow> Inr (c, closed, r''\<lparr>cr_connections := (cr_connections r'')(cid \<mapsto> c)\<rparr>)))"

definition registry_close ::
  "ConnectionRegistry \<Rightarrow> ConnectionId \<Rightarrow> ConnectionGeneration \<Rightarrow> bool \<times> int list \<times> ConnectionRegistry" where
  "registry_close r cid generation =
     (case cr_connections r cid of
        None \<Rightarrow> (False, [], r)
      | Some c \<Rightarrow>
          if cn_generation c \<noteq> generation then (False, [], r)
          else (case registry_erase r cid of (closed, r') \<Rightarrow> (True, closed, r')))"

definition find_connection ::
  "ConnectionRegistry \<Rightarrow> ConnectionId \<Rightarrow> ConnectionGeneration \<Rightarrow> Connection option" where
  "find_connection r cid generation =
     (case cr_connections r cid of
        None \<Rightarrow> None
      | Some c \<Rightarrow> if cn_generation c \<noteq> generation then None else Some c)"

definition find_current :: "ConnectionRegistry \<Rightarrow> ConnectionId \<Rightarrow> Connection option" where
  "find_current r cid = cr_connections r cid"

text \<open>
  The event loop changes a connection through the reference it looked up; the id and the
  generation of a connection never change.
\<close>

definition put_connection :: "ConnectionRegistry \<Rightarrow> Connection \<Rightarrow> ConnectionRegistry" where
  "put_connection r c = r\<lparr>cr_connections := (cr_connections r)(cn_id c \<mapsto> c)\<rparr>"

subsection \<open>Buffer laws\<close>

lemma buffer_append_data:
  "bb_data (snd (buffer_append b ds)) = (if fst (buffer_append b ds) then bb_data b @ ds else bb_data b)"
  "bb_capacity (snd (buffer_append b ds)) = bb_capacity b"
  by (simp_all add: buffer_append_def)

lemma buffer_append_ok: "buffer_ok b \<Longrightarrow> buffer_ok (snd (buffer_append b ds))"
  by (auto simp: buffer_append_def buffer_ok_def)

lemma buffer_consume_eq [simp]:
  "buffer_consume b n = b\<lparr>bb_data := drop n (bb_data b)\<rparr>"
  by (simp add: buffer_consume_def)

lemma buffer_consume_ok: "buffer_ok b \<Longrightarrow> buffer_ok (buffer_consume b n)"
  by (auto simp: buffer_ok_def)

lemma make_buffer_ok: "make_buffer n = Inr b \<Longrightarrow> buffer_ok b \<and> bb_data b = [] \<and> bb_capacity b = n"
  by (auto simp: make_buffer_def buffer_ok_def split: if_splits)

lemma make_connection_Inr:
  "make_connection i g fd peer mi mo = Inr c \<Longrightarrow>
   cn_id c = i \<and> cn_generation c = g \<and> cn_fd c = fd \<and> connection_ok c \<and>
   bb_data (cn_input c) = [] \<and> bb_data (cn_output c) = [] \<and> cn_sequencer c = new_sequencer"
  by (auto simp: make_connection_def connection_ok_def dest: make_buffer_ok split: sum.splits)

subsection \<open>Histories of the registry\<close>

text \<open>
  \<open>registry_run r opened closed r'\<close>: from \<open>r\<close>, the accepted descriptors \<open>opened\<close> were added and
  the descriptors \<open>closed\<close> were closed, in this order, giving \<open>r'\<close>.
\<close>

inductive registry_run ::
  "nat \<Rightarrow> nat \<Rightarrow> ConnectionRegistry \<Rightarrow> int list \<Rightarrow> int list \<Rightarrow> ConnectionRegistry \<Rightarrow> bool" for mi mo r where
  reg_start: "registry_run mi mo r [] [] r"
| reg_add: "registry_run mi mo r opened closed r1 \<Longrightarrow> fd_valid fd \<Longrightarrow>
    registry_add r1 fd peer mi mo = Inr (c, cl, r2) \<Longrightarrow> registry_run mi mo r (opened @ [fd]) (closed @ cl) r2"
| reg_close: "registry_run mi mo r opened closed r1 \<Longrightarrow>
    registry_close r1 i g = (ok, cl, r2) \<Longrightarrow> registry_run mi mo r opened (closed @ cl) r2"
| reg_update: "registry_run mi mo r opened closed r1 \<Longrightarrow> find_current r1 (cn_id c) = Some c' \<Longrightarrow>
    cn_generation c = cn_generation c' \<Longrightarrow> cn_fd c = cn_fd c' \<Longrightarrow>
    registry_run mi mo r opened closed (put_connection r1 c)"

definition registry_ok :: "ConnectionRegistry \<Rightarrow> bool" where
  "registry_ok r \<longleftrightarrow> (\<forall>i c. cr_connections r i = Some c \<longrightarrow> cn_id c = i \<and> cn_fd c = i \<and> fd_valid i)"

lemmas registry_defs = registry_add_def registry_close_def registry_erase_def find_connection_def
  find_current_def put_connection_def Let_def

lemma registry_add_Inr:
  assumes "registry_add r fd peer mi mo = Inr (c, closed, r')"
  shows "cr_connections r' = (cr_connections r)(fd \<mapsto> c)" "cn_id c = fd" "cn_fd c = fd"
    "cn_generation c = cr_next_generation r" "cr_next_generation r' = cr_next_generation r + 1"
    "closed = (case cr_connections r fd of None \<Rightarrow> [] | Some c' \<Rightarrow> fd_destroy (cn_fd c'))"
  using assms by (auto simp: registry_defs dest!: make_connection_Inr split: option.splits sum.splits)

lemma registry_add_defined:
  assumes "0 < mi" and "0 < mo"
  obtains c closed r' where "registry_add r fd peer mi mo = Inr (c, closed, r')"
  using assms by (cases "registry_erase (r\<lparr>cr_next_generation := cr_next_generation r + 1\<rparr>) fd")
    (auto simp: registry_add_def make_connection_def make_buffer_def Let_def)

lemma registry_close_cases:
  assumes "registry_close r i g = (ok, closed, r')"
  obtains (refused) "r' = r" "closed = []"
  | (removed) c where "cr_connections r i = Some c" "cn_generation c = g" "closed = fd_destroy (cn_fd c)"
      "r' = r\<lparr>cr_connections := (cr_connections r)(i := None)\<rparr>"
  using assms by (auto simp: registry_defs split: option.splits if_splits)

lemma registry_ok_add:
  assumes "registry_ok r" and "fd_valid fd" and "registry_add r fd peer mi mo = Inr (c, cl, r')"
  shows "registry_ok r'"
  using assms(1,2) by (simp add: registry_ok_def registry_add_Inr [OF assms(3)])

lemma registry_ok_close:
  assumes "registry_ok r" and "registry_close r i g = (ok, cl, r')"
  shows "registry_ok r'"
  using assms(2) by (rule registry_close_cases) (use assms(1) in \<open>simp_all add: registry_ok_def\<close>)

lemma registry_ok_put:
  assumes "registry_ok r" and "find_current r (cn_id c) = Some c'" and "cn_fd c = cn_fd c'"
  shows "registry_ok (put_connection r c)"
  using assms by (simp add: registry_ok_def find_current_def put_connection_def)

lemma registry_ok_run: "registry_run mi mo r opened closed r' \<Longrightarrow> registry_ok r \<Longrightarrow> registry_ok r'"
  by (induction rule: registry_run.induct) (blast intro: registry_ok_add registry_ok_close registry_ok_put)+

text \<open>
  A file descriptor is closed exactly once per connection, when the connection leaves the
  registry: for every history from an empty registry, each descriptor number was opened as
  often as it was closed, plus once if a connection is open on it now.
\<close>

theorem registry_closes_once:
  assumes "registry_run mi mo empty_registry opened closed r"
  shows "count_list opened fd =
    count_list closed fd + (if find_current r fd = None then 0 else 1)"
proof -
  have ok: "registry_ok r'" if "registry_run mi mo empty_registry opened closed r'" for opened closed r'
    using that by (rule registry_ok_run) (simp add: registry_ok_def empty_registry_def)
  from assms show ?thesis
  proof (induction rule: registry_run.induct)
    case (reg_add opened closed r1 fd' peer c cl r2)
    then show ?case using ok [OF reg_add.hyps(1)]
      by (auto simp: registry_add_Inr [OF reg_add.hyps(3)] find_current_def fd_destroy_def fd_reset_def registry_ok_def fd_valid_def
        split: option.splits if_splits)
  next
    case (reg_close opened closed r1 i g c cl r2)
    from reg_close.hyps(2) show ?case
      by (rule registry_close_cases)
        (use reg_close ok [OF reg_close.hyps(1)] in
         \<open>auto simp: find_current_def fd_destroy_def fd_reset_def registry_ok_def fd_valid_def split: if_splits\<close>)
  next
    case (reg_update opened closed r1 c c')
    then show ?case by (auto simp: registry_defs split: if_splits)
  qed (simp add: find_current_def empty_registry_def)
qed

lemma demo_registry:
  "\<exists>r. registry_run 8 8 empty_registry [5, 5] [5] r \<and> cr_next_generation r = 3 \<and> find_connection r 5 1 = None"
proof -
  obtain c1 cl1 r1 where a1: "registry_add empty_registry 5 ''p'' 8 8 = Inr (c1, cl1, r1)"
    by (rule registry_add_defined [of 8 8]) simp_all
  note a1' = registry_add_Inr [OF a1]
  obtain ok cl2 r2 where a2: "registry_close r1 5 1 = (ok, cl2, r2)" by (cases "registry_close r1 5 1")
  then have a2': "cl2 = [5]" "r2 = r1\<lparr>cr_connections := (cr_connections r1)(5 := None)\<rparr>"
    using a1' by (auto simp: registry_close_def registry_erase_def empty_registry_def fd_destroy_def fd_reset_def)
  obtain c3 cl3 r3 where a3: "registry_add r2 5 ''q'' 8 8 = Inr (c3, cl3, r3)"
    by (rule registry_add_defined [of 8 8]) simp_all
  note a3' = registry_add_Inr [OF a3]
  have "registry_run 8 8 empty_registry (([] @ [5]) @ [5]) ((([] @ cl1) @ cl2) @ cl3) r3"
    using reg_add [OF reg_close [OF reg_add [OF reg_start _ a1] a2] _ a3] by (simp add: fd_valid_def)
  then show ?thesis
    using a1' a2' a3' by (intro exI [of _ r3]) (simp add: empty_registry_def find_connection_def)
qed

theorem registry_closes_once_witness:
  "\<exists>r. registry_run 8 8 empty_registry [5, 5] [5] r \<and>
     count_list [5, 5] (5 :: int) = count_list [5] (5 :: int) + (if find_current r 5 = None then 0 else 1)"
proof -
  obtain r where r: "registry_run 8 8 empty_registry [5, 5] [5] r" using demo_registry by blast
  show ?thesis by (intro exI [of _ r] conjI r registry_closes_once [OF r])
qed

lemma next_generation_run:
  assumes "registry_run mi mo r opened closed r'" and "unat (cr_next_generation r) + length opened < 2 ^ 64"
  shows "unat (cr_next_generation r') = unat (cr_next_generation r) + length opened"
  using assms
proof (induction rule: registry_run.induct)
  case (reg_add opened closed r1 fd peer c cl r2)
  then have "unat (cr_next_generation r1) = unat (cr_next_generation r) + length opened" by simp
  with reg_add.prems show ?case
    by (simp add: registry_add_Inr [OF reg_add.hyps(3)] unat_word_ariths)
next
  case (reg_close opened closed r1 i g ok cl r2)
  from reg_close.hyps(2) show ?case
    by (rule registry_close_cases) (use reg_close in simp_all)
qed (simp_all add: put_connection_def)

text \<open>
  C30. A reference to a closed connection stays dead: once the pair of an id and a generation
  handed out earlier is not found, it is never found again, even when the operating system
  reuses the descriptor number, until 64 bits of generations have been handed out.
\<close>

theorem stale_connection_not_found:
  assumes "registry_run mi mo r opened closed r'" and "find_connection r i g = None"
    and "g < cr_next_generation r" and "unat (cr_next_generation r) + length opened < 2 ^ 64"
  shows "find_connection r' i g = None"
  using assms
proof (induction rule: registry_run.induct)
  case (reg_add opened closed r1 fd peer c cl r2)
  have "unat (cr_next_generation r1) = unat (cr_next_generation r) + length opened"
    using next_generation_run [OF reg_add.hyps(1)] reg_add.prems(3) by simp
  moreover have "unat g < unat (cr_next_generation r)" using reg_add.prems(2) by (simp only: word_less_nat_alt)
  ultimately have "cr_next_generation r1 \<noteq> g" by auto
  then show ?case using reg_add.IH reg_add.prems
    by (simp add: find_connection_def registry_add_Inr [OF reg_add.hyps(3)])
next
  case (reg_close opened closed r1 i' g' ok cl r2)
  from reg_close.hyps(2) show ?case
    by (rule registry_close_cases) (use reg_close in \<open>simp_all add: find_connection_def\<close>)
next
  case (reg_update opened closed r1 c c')
  then show ?case by (auto simp: find_connection_def put_connection_def find_current_def split: if_splits)
qed

theorem stale_connection_not_found_witness:
  "\<exists>r r'. find_connection r 5 1 = None \<and> 1 < cr_next_generation r \<and>
     unat (cr_next_generation r) + length [5 :: int] < 2 ^ 64 \<and>
     registry_run 8 8 r [5] [] r' \<and> find_current r' 5 \<noteq> None \<and> find_connection r' 5 1 = None"
proof -
  define r where "r = empty_registry\<lparr>cr_next_generation := 2\<rparr>"
  obtain c cl r' where a: "registry_add r 5 ''p'' 8 8 = Inr (c, cl, r')"
    by (rule registry_add_defined [of 8 8]) simp_all
  note a' = registry_add_Inr [OF a]
  have run: "registry_run 8 8 r [5] [] r'"
    using reg_add [OF reg_start _ a] a' by (simp add: fd_valid_def r_def empty_registry_def)
  have h: "find_connection r 5 1 = None" "1 < cr_next_generation r"
    "unat (cr_next_generation r) + length [5 :: int] < 2 ^ 64"
    by (simp_all add: r_def empty_registry_def find_connection_def)
  show ?thesis
    using stale_connection_not_found [OF run h] run h a'(1)
    by (intro exI [of _ r] exI [of _ r']) (simp add: find_current_def)
qed

end
