(* ===== verification/Posix.thy ===== *)
theory Posix
  imports KV_Prelude "HOL-Library.Word"
begin

text \<open>
  The operating system, as a parameter of the network code. A value of type \<open>'w Os\<close> gives the
  result of each system call the sources make and its effect on the state \<open>'w\<close> of everything
  outside the process; a failing call returns its \<^verbatim>\<open>errno\<close>. \<open>os_time\<close> is the
  reading of \<^verbatim>\<open>std::time\<close> for the logger. Nothing is assumed of these
  functions: where a property relies on documented behaviour of a call, it says so with the
  predicates at the end.
\<close>

datatype Errno =
    EAGAIN | EWOULDBLOCK | EINTR | EPIPE | ECONNRESET | ECONNABORTED | EMFILE | OtherErrno int

text \<open>The number that \<^verbatim>\<open>std::system_error\<close> carries, as Linux defines it.\<close>

fun errno_code :: "Errno \<Rightarrow> int" where
  "errno_code EAGAIN = 11"
| "errno_code EWOULDBLOCK = 11"
| "errno_code EINTR = 4"
| "errno_code EPIPE = 32"
| "errno_code ECONNRESET = 104"
| "errno_code ECONNABORTED = 103"
| "errno_code EMFILE = 24"
| "errno_code (OtherErrno n) = n"

record EpollEvent =
  ev_fd :: int
  ev_in :: bool
  ev_out :: bool
  ev_hup_err :: bool

record SockAddr =
  sa_addr :: "32 word"
  sa_port :: "16 word"

record 'w Os =
  os_socket :: "'w \<Rightarrow> (Errno + int) \<times> 'w"
  os_set_reuseaddr :: "'w \<Rightarrow> int \<Rightarrow> (Errno + unit) \<times> 'w"
  os_inet_pton :: "string \<Rightarrow> 32 word option"
  os_inet_ntop :: "32 word \<Rightarrow> string"
  os_bind :: "'w \<Rightarrow> int \<Rightarrow> SockAddr \<Rightarrow> (Errno + unit) \<times> 'w"
  os_listen :: "'w \<Rightarrow> int \<Rightarrow> int \<Rightarrow> (Errno + unit) \<times> 'w"
  os_getsockname :: "'w \<Rightarrow> int \<Rightarrow> Errno + SockAddr"
  os_accept4 :: "'w \<Rightarrow> int \<Rightarrow> (Errno + int \<times> SockAddr) \<times> 'w"
  os_recv :: "'w \<Rightarrow> int \<Rightarrow> nat \<Rightarrow> (Errno + string) \<times> 'w"
  os_send :: "'w \<Rightarrow> int \<Rightarrow> string \<Rightarrow> (Errno + nat) \<times> 'w"
  os_close :: "'w \<Rightarrow> int \<Rightarrow> 'w"
  os_epoll_create1 :: "'w \<Rightarrow> (Errno + int) \<times> 'w"
  os_eventfd :: "'w \<Rightarrow> (Errno + int) \<times> 'w"
  os_epoll_add :: "'w \<Rightarrow> int \<Rightarrow> int \<Rightarrow> (Errno + unit) \<times> 'w"
  os_epoll_mod :: "'w \<Rightarrow> int \<Rightarrow> int \<Rightarrow> bool \<Rightarrow> 'w"
  os_epoll_del :: "'w \<Rightarrow> int \<Rightarrow> int \<Rightarrow> 'w"
  os_epoll_wait :: "'w \<Rightarrow> int \<Rightarrow> nat \<Rightarrow> (Errno + EpollEvent list) \<times> 'w"
  os_eventfd_read :: "'w \<Rightarrow> int \<Rightarrow> bool \<times> 'w"
  os_eventfd_write :: "'w \<Rightarrow> int \<Rightarrow> 'w"
  os_time :: "'w \<Rightarrow> int"

text \<open>Closing several descriptors, in order.\<close>

definition close_all :: "'w Os \<Rightarrow> 'w \<Rightarrow> int list \<Rightarrow> 'w" where
  "close_all os w fds = foldl (os_close os) w fds"

text \<open>Documented behaviour: \<^verbatim>\<open>recv\<close> returns at most what was asked for, \<^verbatim>\<open>send\<close> takes at most what it was given.\<close>

definition recv_bounded :: "'w Os \<Rightarrow> bool" where
  "recv_bounded os \<longleftrightarrow> (\<forall>w fd n ds w'. os_recv os w fd n = (Inr ds, w') \<longrightarrow> length ds \<le> n)"

definition send_bounded :: "'w Os \<Rightarrow> bool" where
  "send_bounded os \<longleftrightarrow> (\<forall>w fd ds n w'. os_send os w fd ds = (Inr n, w') \<longrightarrow> n \<le> length ds)"

subsection \<open>A scripted instance\<close>

text \<open>
  An operating system whose behaviour is written down beforehand, for the concrete instances
  of properties: chunks that arrive on a descriptor, clients that are waiting to be accepted,
  and batches of epoll events. It accepts every \<^verbatim>\<open>send\<close> whole and records it.
\<close>

record Script =
  sc_recv :: "(int \<times> string) list"
  sc_accept :: "nat list"
  sc_events :: "EpollEvent list list"
  sc_sent :: "(int \<times> string) list"
  sc_closed :: "int list"

definition no_script :: Script where
  "no_script = \<lparr>sc_recv = [], sc_accept = [], sc_events = [], sc_sent = [], sc_closed = []\<rparr>"

fun script_recv :: "Script \<Rightarrow> int \<Rightarrow> nat \<Rightarrow> (Errno + string) \<times> Script" where
  "script_recv w fd n = (case sc_recv w of
      (fd', ds) # rest \<Rightarrow>
        if fd' = fd
        then (Inr (take n ds), w\<lparr>sc_recv := if length ds \<le> n then rest else (fd, drop n ds) # rest\<rparr>)
        else (Inl EAGAIN, w)
    | [] \<Rightarrow> (Inl EAGAIN, w))"

definition script_os :: "Script Os" where
  "script_os = \<lparr>
     os_socket = (\<lambda>w. (Inr 3, w)),
     os_set_reuseaddr = (\<lambda>w fd. (Inr (), w)),
     os_inet_pton = (\<lambda>s. Some 0),
     os_inet_ntop = (\<lambda>a. ''0.0.0.0''),
     os_bind = (\<lambda>w fd a. (Inr (), w)),
     os_listen = (\<lambda>w fd n. (Inr (), w)),
     os_getsockname = (\<lambda>w fd. Inr \<lparr>sa_addr = 0, sa_port = 6380\<rparr>),
     os_accept4 = (\<lambda>w fd. case sc_accept w of
         [] \<Rightarrow> (Inl EAGAIN, w)
       | c # cs \<Rightarrow> (Inr (int c, \<lparr>sa_addr = 0, sa_port = 1\<rparr>), w\<lparr>sc_accept := cs\<rparr>)),
     os_recv = script_recv,
     os_send = (\<lambda>w fd ds. (Inr (length ds), w\<lparr>sc_sent := sc_sent w @ [(fd, ds)]\<rparr>)),
     os_close = (\<lambda>w fd. w\<lparr>sc_closed := sc_closed w @ [fd]\<rparr>),
     os_epoll_create1 = (\<lambda>w. (Inr 4, w)),
     os_eventfd = (\<lambda>w. (Inr 5, w)),
     os_epoll_add = (\<lambda>w ep fd. (Inr (), w)),
     os_epoll_mod = (\<lambda>w ep fd out. w),
     os_epoll_del = (\<lambda>w ep fd. w),
     os_epoll_wait = (\<lambda>w ep n. case sc_events w of
         [] \<Rightarrow> (Inl EMFILE, w)
       | b # bs \<Rightarrow> (Inr b, w\<lparr>sc_events := bs\<rparr>)),
     os_eventfd_read = (\<lambda>w fd. (False, w)),
     os_eventfd_write = (\<lambda>w fd. w),
     os_time = (\<lambda>w. 0)\<rparr>"

lemma script_recv_bounded: "recv_bounded script_os"
  by (auto simp: recv_bounded_def script_os_def split: list.splits if_splits)

lemma script_send_bounded: "send_bounded script_os"
  by (auto simp: send_bounded_def script_os_def)

end
