(* ===== verification/Net_Io.thy ===== *)
theory Net_Io
  imports Connections Posix
begin

text \<open>
  One nonblocking read into, and one nonblocking write from, a connection's buffer:
  \<^verbatim>\<open>src/src/net/io.cpp\<close>.
\<close>

datatype ReadStatus = ReadSome | ReadWouldBlock | ReadClosed | ReadBufferFull | ReadError

record ReadOutcome =
  ro_status :: ReadStatus
  ro_bytes_read :: nat
  ro_error_number :: int

datatype WriteStatus = WroteSome | WriteWouldBlock | WriteClosed | WriteError

record WriteOutcome =
  wo_status :: WriteStatus
  wo_bytes_written :: nat
  wo_error_number :: int

definition kReadChunkSize :: nat where [kv_consts]:
  "kReadChunkSize = 64 * 1024"

definition read_into :: "'w Os \<Rightarrow> 'w \<Rightarrow> int \<Rightarrow> BoundedBuffer \<Rightarrow> ReadOutcome \<times> BoundedBuffer \<times> 'w" where
  "read_into os w fd buffer =
     (let available = size_sub (bb_capacity buffer) (length (bb_data buffer)) in
      if available = 0
      then (\<lparr>ro_status = ReadBufferFull, ro_bytes_read = 0, ro_error_number = 0\<rparr>, buffer, w)
      else
        let attempt = min available kReadChunkSize in
        case os_recv os w fd attempt of
          (Inr ds, w') \<Rightarrow>
            if ds \<noteq> []
            then (\<lparr>ro_status = ReadSome, ro_bytes_read = length ds, ro_error_number = 0\<rparr>,
                  snd (buffer_append buffer ds), w')
            else (\<lparr>ro_status = ReadClosed, ro_bytes_read = 0, ro_error_number = 0\<rparr>, buffer, w')
        | (Inl e, w') \<Rightarrow>
            if e \<in> {EAGAIN, EWOULDBLOCK, EINTR}
            then (\<lparr>ro_status = ReadWouldBlock, ro_bytes_read = 0, ro_error_number = 0\<rparr>, buffer, w')
            else (\<lparr>ro_status = ReadError, ro_bytes_read = 0, ro_error_number = errno_code e\<rparr>, buffer, w'))"

definition write_from :: "'w Os \<Rightarrow> 'w \<Rightarrow> int \<Rightarrow> BoundedBuffer \<Rightarrow> WriteOutcome \<times> BoundedBuffer \<times> 'w" where
  "write_from os w fd buffer =
     (if bb_data buffer = []
      then (\<lparr>wo_status = WroteSome, wo_bytes_written = 0, wo_error_number = 0\<rparr>, buffer, w)
      else
        case os_send os w fd (bb_data buffer) of
          (Inr n, w') \<Rightarrow>
            if 0 < n
            then (\<lparr>wo_status = WroteSome, wo_bytes_written = n, wo_error_number = 0\<rparr>,
                  buffer_consume buffer n, w')
            else (\<lparr>wo_status = WriteWouldBlock, wo_bytes_written = 0, wo_error_number = 0\<rparr>, buffer, w')
        | (Inl e, w') \<Rightarrow>
            if e \<in> {EAGAIN, EWOULDBLOCK, EINTR}
            then (\<lparr>wo_status = WriteWouldBlock, wo_bytes_written = 0, wo_error_number = 0\<rparr>, buffer, w')
            else if e \<in> {EPIPE, ECONNRESET}
            then (\<lparr>wo_status = WriteClosed, wo_bytes_written = 0, wo_error_number = errno_code e\<rparr>, buffer, w')
            else (\<lparr>wo_status = WriteError, wo_bytes_written = 0, wo_error_number = errno_code e\<rparr>, buffer, w'))"

lemma read_into_ok:
  "buffer_ok b \<Longrightarrow> read_into os w fd b = (r, b', w') \<Longrightarrow> buffer_ok b' \<and> bb_capacity b' = bb_capacity b"
  by (auto simp: read_into_def Let_def buffer_append_ok buffer_append_data split: if_splits prod.splits sum.splits)

lemma write_from_ok:
  "buffer_ok b \<Longrightarrow> write_from os w fd b = (r, b', w') \<Longrightarrow> buffer_ok b' \<and> bb_capacity b' = bb_capacity b"
  by (auto simp: write_from_def buffer_ok_def split: if_splits prod.splits sum.splits)

lemma write_from_progress:
  "write_from os w fd b = (r, b', w') \<Longrightarrow> bb_data b \<noteq> [] \<Longrightarrow> wo_status r = WroteSome \<Longrightarrow>
   length (bb_data b') < length (bb_data b)"
  by (auto simp: write_from_def split: if_splits prod.splits sum.splits)

text \<open>
  Reading never loses or truncates received bytes: when the operating system keeps to the
  requested size, what it returned is appended whole (the append in the code that ignores its
  result always succeeds), the buffer stays within its cap, every status but "read some"
  leaves the buffer alone, and "buffer full" is reported exactly when no room is left.
\<close>

theorem read_into_appends:
  assumes "recv_bounded os" and "buffer_ok b" and "read_into os w fd b = (r, b', w')"
  shows "(if ro_status r = ReadSome
      then \<exists>ds. ds \<noteq> [] \<and> length ds = ro_bytes_read r \<and> bb_data b' = bb_data b @ ds \<and>
        os_recv os w fd (min (bb_capacity b - length (bb_data b)) kReadChunkSize) = (Inr ds, w')
      else b' = b) \<and>
    buffer_ok b' \<and> (ro_status r = ReadBufferFull \<longleftrightarrow> length (bb_data b) = bb_capacity b)"
proof -
  let ?n = "min (bb_capacity b - length (bb_data b)) kReadChunkSize"
  from assms(2) have le: "length (bb_data b) \<le> bb_capacity b" by (simp add: buffer_ok_def)
  note ok = read_into_ok [OF assms(2,3), THEN conjunct1]
  show ?thesis
  proof (cases "length (bb_data b) = bb_capacity b")
    case True
    with assms(3) ok show ?thesis by (auto simp: read_into_def)
  next
    case False
    obtain res w1 where s: "os_recv os w fd ?n = (res, w1)" by (cases "os_recv os w fd ?n")
    show ?thesis
    proof (cases res)
      case (Inl e)
      with False le assms(3) s ok show ?thesis by (auto simp: read_into_def Let_def split: if_splits)
    next
      case (Inr ds)
      with assms(1) s have "length ds \<le> ?n" unfolding recv_bounded_def by blast
      then have "bb_data (snd (buffer_append b ds)) = bb_data b @ ds"
        using le by (simp add: buffer_append_def)
      with False le assms(3) s Inr ok show ?thesis by (auto simp: read_into_def Let_def split: if_splits)
    qed
  qed
qed

theorem read_into_appends_witness:
  "recv_bounded script_os \<and> buffer_ok \<lparr>bb_data = ''ab'', bb_capacity = 4\<rparr> \<and>
   (\<exists>r b' w'. read_into script_os (no_script\<lparr>sc_recv := [(7, ''xyz'')]\<rparr>) 7 \<lparr>bb_data = ''ab'', bb_capacity = 4\<rparr> =
      (r, b', w') \<and> ro_status r = ReadSome \<and> buffer_ok b' \<and>
      (\<exists>ds. ds \<noteq> [] \<and> length ds = ro_bytes_read r \<and> bb_data b' = ''ab'' @ ds))"
proof -
  let ?b = "\<lparr>bb_data = ''ab'', bb_capacity = 4\<rparr>" and ?w = "no_script\<lparr>sc_recv := [(7, ''xyz'')]\<rparr>"
  have b: "buffer_ok ?b" by (simp add: buffer_ok_def)
  obtain r b' w' where r: "read_into script_os ?w 7 ?b = (r, b', w')"
    by (cases "read_into script_os ?w 7 ?b")
  moreover from this have "ro_status r = ReadSome"
    by (auto simp: read_into_def script_os_def no_script_def kReadChunkSize_def)
  ultimately show ?thesis
    using read_into_appends [OF script_recv_bounded b r] script_recv_bounded b by auto
qed

text \<open>
  Writing hands the operating system a prefix of the pending output and keeps exactly the
  rest: "wrote some" consumes the bytes that were accepted, and every other status leaves the
  buffer alone, so no byte is skipped or sent twice. A peer that hung up is reported as
  closed, a full socket or an interruption as would-block.
\<close>

theorem write_from_consumes:
  assumes "send_bounded os" and "write_from os w fd b = (r, b', w')"
  shows "bb_data b' = drop (wo_bytes_written r) (bb_data b) \<and>
    wo_bytes_written r \<le> length (bb_data b) \<and>
    (bb_data b \<noteq> [] \<longrightarrow>
      (if wo_status r = WroteSome
       then os_send os w fd (bb_data b) = (Inr (wo_bytes_written r), w') \<and> 0 < wo_bytes_written r
       else b' = b \<and> wo_bytes_written r = 0) \<and>
      (wo_status r = WriteClosed \<longleftrightarrow> fst (os_send os w fd (bb_data b)) \<in> {Inl EPIPE, Inl ECONNRESET}))"
proof (cases "bb_data b = []")
  case True
  with assms(2) show ?thesis by (auto simp: write_from_def)
next
  case False
  obtain res w1 where s: "os_send os w fd (bb_data b) = (res, w1)" by (cases "os_send os w fd (bb_data b)")
  show ?thesis
  proof (cases res)
    case (Inl e)
    with False assms(2) s show ?thesis by (auto simp: write_from_def split: if_splits)
  next
    case (Inr n)
    with assms(1) s have "n \<le> length (bb_data b)" unfolding send_bounded_def by blast
    with False assms(2) s Inr show ?thesis by (auto simp: write_from_def split: if_splits)
  qed
qed

theorem write_from_consumes_witness:
  "send_bounded script_os \<and>
   (\<exists>r b' w'. write_from script_os no_script 7 \<lparr>bb_data = ''+OK'', bb_capacity = 4\<rparr> = (r, b', w') \<and>
      wo_status r = WroteSome \<and> bb_data b' = drop (wo_bytes_written r) ''+OK'' \<and> 0 < wo_bytes_written r)"
proof -
  let ?b = "\<lparr>bb_data = ''+OK'', bb_capacity = 4\<rparr>"
  obtain r b' w' where r: "write_from script_os no_script 7 ?b = (r, b', w')"
    by (cases "write_from script_os no_script 7 ?b")
  moreover from this have "wo_status r = WroteSome"
    by (auto simp: write_from_def script_os_def)
  ultimately show ?thesis
    using write_from_consumes [OF script_send_bounded r] script_send_bounded by auto
qed

end
