(* ===== verification/Timestamp.thy ===== *)
theory Timestamp
  imports KV_Prelude
begin

text \<open>
  The time stamp of a log line: \<^verbatim>\<open>timestamp_now\<close> of \<^verbatim>\<open>src/src/util/logger.cpp\<close>, with what it uses of
  the C library: \<^verbatim>\<open>gmtime_r\<close> breaks a count of seconds since 1970 into a UTC date of the
  Gregorian calendar, and \<^verbatim>\<open>strftime\<close> prints it into a buffer of 32 bytes. The reading of
  \<^verbatim>\<open>std::time\<close> is an argument.
\<close>

subsection \<open>The calendar\<close>

definition is_leap :: "nat \<Rightarrow> bool" where
  "is_leap y \<longleftrightarrow> 4 dvd y \<and> (100 dvd y \<longrightarrow> 400 dvd y)"

definition days_in_year :: "nat \<Rightarrow> nat" where
  "days_in_year y = (if is_leap y then 366 else 365)"

definition month_lengths :: "nat \<Rightarrow> nat list" where
  "month_lengths y = [31, if is_leap y then 29 else 28, 31, 30, 31, 30, 31, 31, 30, 31, 30, 31]"

text \<open>The year of a day that is \<open>d\<close> days after the beginning of year \<open>y\<close>, and the day in that year.\<close>

function split_year :: "nat \<Rightarrow> nat \<Rightarrow> nat \<times> nat" where
  "split_year y d = (if d < days_in_year y then (y, d) else split_year (y + 1) (d - days_in_year y))"
  by pat_completeness auto
termination
  by (relation "measure snd") (auto simp: days_in_year_def split: if_splits)

declare split_year.simps [simp del]

fun split_month :: "nat list \<Rightarrow> nat \<Rightarrow> nat \<times> nat" where
  "split_month [] d = (0, d)"
| "split_month (m # ms) d = (if d < m then (0, d) else map_prod Suc id (split_month ms (d - m)))"

text \<open>The parts of \<^verbatim>\<open>std::tm\<close> that are printed; \<open>tm_year\<close> counts from 1900, \<open>tm_mon\<close> from 0.\<close>

record tm =
  tm_sec :: nat
  tm_min :: nat
  tm_hour :: nat
  tm_mday :: nat
  tm_mon :: nat
  tm_year :: int

text \<open>
  \<^verbatim>\<open>gmtime_r\<close>. The calendar repeats after 400 years, which are 146097 days. A year that does not
  fit an \<^verbatim>\<open>int\<close> makes the call fail.
\<close>

definition gmtime :: "int \<Rightarrow> tm option" where
  "gmtime t =
     (let day = t div 86400; sec = nat (t mod 86400);
          (y, yday) = split_year 1970 (nat (day mod 146097));
          (mon, mday) = split_month (month_lengths y) yday;
          year = int y + 400 * (day div 146097) - 1900 in
      if year < - (2 ^ 31) \<or> 2 ^ 31 \<le> year then None
      else Some \<lparr>tm_sec = sec mod 60, tm_min = sec div 60 mod 60, tm_hour = sec div 3600,
                 tm_mday = mday + 1, tm_mon = mon, tm_year = year\<rparr>)"

subsection \<open>Printing\<close>

definition two_digits :: "nat \<Rightarrow> string" where
  "two_digits n = [digit_char (n div 10 mod 10), digit_char (n mod 10)]"

text \<open>\<^verbatim>\<open>strftime\<close> with the format of the source: nothing when the text does not fit the buffer.\<close>

definition strftime_iso :: "nat \<Rightarrow> tm \<Rightarrow> string" where
  "strftime_iso capacity tm =
     (let text = int_to_string (tm_year tm + 1900) @ ''-'' @ two_digits (tm_mon tm + 1) @ ''-'' @
        two_digits (tm_mday tm) @ ''T'' @ two_digits (tm_hour tm) @ '':'' @ two_digits (tm_min tm) @ '':'' @
        two_digits (tm_sec tm) @ ''Z'' in
      if length text < capacity then text else [])"

text \<open>When \<^verbatim>\<open>gmtime_r\<close> fails, the zero-initialised \<^verbatim>\<open>std::tm\<close> is printed.\<close>

definition timestamp_now :: "int \<Rightarrow> string" where
  "timestamp_now now =
     (let utc = (case gmtime now of
          Some tm \<Rightarrow> tm
        | None \<Rightarrow> \<lparr>tm_sec = 0, tm_min = 0, tm_hour = 0, tm_mday = 0, tm_mon = 0, tm_year = 0\<rparr>) in
      strftime_iso 32 utc)"

subsection \<open>Reading a time stamp back\<close>

text \<open>
  The count of seconds a UTC date stands for, by the formula of POSIX (\<open>days_before\<close> is the number
  of days between 1970 and the beginning of a year), and the value of a text of the form
  \<^verbatim>\<open>YYYY-MM-DDTHH:MM:SSZ\<close>.
\<close>

definition days_before :: "nat \<Rightarrow> int" where
  "days_before y = 365 * (int y - 1970) + (int y - 1969) div 4 - (int y - 1901) div 100 + (int y - 1601) div 400"

definition seconds_since_epoch :: "nat \<Rightarrow> nat \<Rightarrow> nat \<Rightarrow> nat \<Rightarrow> nat \<Rightarrow> nat \<Rightarrow> int" where
  "seconds_since_epoch y mon mday h m s =
     (days_before y + int (sum_list (take (mon - 1) (month_lengths y))) + int mday - 1) * 86400 +
     int h * 3600 + int m * 60 + int s"

definition number_at :: "string \<Rightarrow> nat \<Rightarrow> nat \<Rightarrow> nat" where
  "number_at text i n = nat (dec_value (take n (drop i text)))"

definition parse_timestamp :: "string \<Rightarrow> int option" where
  "parse_timestamp text =
     (if length text = 20 \<and> text ! 4 = CHR ''-'' \<and> text ! 7 = CHR ''-'' \<and> text ! 10 = CHR ''T'' \<and>
         text ! 13 = CHR '':'' \<and> text ! 16 = CHR '':'' \<and> text ! 19 = CHR ''Z''
      then Some (seconds_since_epoch (number_at text 0 4) (number_at text 5 2) (number_at text 8 2)
        (number_at text 11 2) (number_at text 14 2) (number_at text 17 2))
      else None)"

lemma floor_step:
  fixes a n :: int
  assumes n: "0 < n"
  shows "(a + 1) div n = a div n + (if n dvd a + 1 then 1 else 0)"
proof (cases "a mod n + 1 = n")
  case True
  then have e: "a + 1 = n * (a div n + 1)"
    by (metis add.assoc distrib_left mult.right_neutral mult_div_mod_eq)
  then have "n dvd a + 1" by (metis dvd_triv_left)
  moreover have "(a + 1) div n = a div n + 1" using n unfolding e by simp
  ultimately show ?thesis by simp
next
  case False
  with n pos_mod_bound [OF n, of a] pos_mod_sign [OF n, of a]
  have r: "0 < a mod n + 1" "a mod n + 1 < n" by linarith+
  have e: "a + 1 = n * (a div n) + (a mod n + 1)" by simp
  have "(a + 1) div n = a div n" by (rule int_div_pos_eq [OF e]) (use r in simp_all)
  moreover have "(a + 1) mod n = a mod n + 1" by (rule int_mod_pos_eq [OF e]) (use r in simp_all)
  then have "\<not> n dvd a + 1" using r(1) by (metis dvd_eq_mod_eq_0 less_irrefl)
  ultimately show ?thesis by simp
qed

lemma floor_year:
  assumes "0 < n"
  shows "(int (y + 1) - (int n * q + 1)) div int n = (int y - (int n * q + 1)) div int n + (if n dvd y then 1 else 0)"
proof -
  have "int (y + 1) - (int n * q + 1) = int y - (int n * q + 1) + 1" by simp
  moreover have "int n dvd int y - (int n * q + 1) + 1 \<longleftrightarrow> n dvd y"
    using dvd_add_times_triv_right_iff [of "int n" "int y" "- q"] by (simp add: algebra_simps)
  ultimately show ?thesis using floor_step [of "int n" "int y - (int n * q + 1)"] assms by simp
qed

lemma days_before_Suc: "days_before (y + 1) = days_before y + int (days_in_year y)"
proof -
  let ?one = "\<lambda>b. if b then 1 else 0 :: int"
  have "400 dvd y \<Longrightarrow> 100 dvd y" "100 dvd y \<Longrightarrow> 4 dvd y"
    using dvd_trans [of 100 400 y] dvd_trans [of 4 100 y] by simp_all
  then have days: "int (days_in_year y) = 365 + ?one (4 dvd y) - ?one (100 dvd y) + ?one (400 dvd y)"
    by (simp add: days_in_year_def is_leap_def)
  have sum: "365 * (int (y + 1) - 1970) + (p + i) - (q + j) + (r + k) =
      365 * (int y - 1970) + p - q + r + (365 + i - j + k)" for p q r i j k by simp
  have "(int (y + 1) - 1969) div 4 = (int y - 1969) div 4 + ?one (4 dvd y)"
    and "(int (y + 1) - 1901) div 100 = (int y - 1901) div 100 + ?one (100 dvd y)"
    and "(int (y + 1) - 1601) div 400 = (int y - 1601) div 400 + ?one (400 dvd y)"
    using floor_year [of 4 y 492] floor_year [of 100 y 19] floor_year [of 400 y 4] by simp_all
  then show ?thesis unfolding days_before_def days by (simp only: sum)
qed

lemma split_year_correct:
  "split_year y d = (y', d') \<Longrightarrow> days_before y' + int d' = days_before y + int d \<and> d' < days_in_year y' \<and> y \<le> y'"
proof (induction y d rule: split_year.induct)
  case (1 y d)
  show ?case
  proof (cases "d < days_in_year y")
    case True
    with "1.prems" show ?thesis by (simp add: split_year.simps [of y d])
  next
    case False
    with "1.prems" have "split_year (y + 1) (d - days_in_year y) = (y', d')" by (simp add: split_year.simps [of y d])
    from "1.IH" [OF False this] False days_before_Suc [of y] show ?thesis by auto
  qed
qed

lemma split_month_correct:
  "split_month ms d = (m, d') \<Longrightarrow> d < sum_list ms \<Longrightarrow>
   m < length ms \<and> d' < ms ! m \<and> sum_list (take m ms) + d' = d"
proof (induction ms d arbitrary: m d' rule: split_month.induct)
  case (2 l ms d)
  show ?case
  proof (cases "d < l")
    case False
    obtain k e where k: "split_month ms (d - l) = (k, e)" by (cases "split_month ms (d - l)")
    have "d - l < sum_list ms" using False "2.prems"(2) by simp
    from "2.IH" [OF False k this] k False "2.prems"(1) show ?thesis by auto
  qed (use "2.prems" in auto)
qed simp

lemma month_lengths_year: "sum_list (month_lengths y) = days_in_year y"
  by (simp add: month_lengths_def days_in_year_def)

lemma month_lengths_bound: "m < 12 \<Longrightarrow> month_lengths y ! m \<le> 31"
  by (auto simp: month_lengths_def less_Suc_eq numeral_eq_Suc)

text \<open>The calendar repeats after 400 years.\<close>

lemma days_before_era: "days_before (y + 400 * k) = days_before y + 146097 * int k"
proof -
  have "(int (y + 400 * k) - 1969) div 4 = (int y - 1969) div 4 + 100 * int k"
    using div_mult_self1 [of 4 "int y - 1969" "100 * int k"] by (simp add: algebra_simps)
  moreover have "(int (y + 400 * k) - 1901) div 100 = (int y - 1901) div 100 + 4 * int k"
    using div_mult_self1 [of 100 "int y - 1901" "4 * int k"] by (simp add: algebra_simps)
  moreover have "(int (y + 400 * k) - 1601) div 400 = (int y - 1601) div 400 + int k"
    using div_mult_self1 [of 400 "int y - 1601" "int k"] by (simp add: algebra_simps)
  ultimately show ?thesis by (simp only: days_before_def) simp
qed

lemma is_leap_era: "is_leap (y + 400 * k) = is_leap y"
proof -
  have "4 dvd y + 400 * k \<longleftrightarrow> 4 dvd y" "100 dvd y + 400 * k \<longleftrightarrow> 100 dvd y" "400 dvd y + 400 * k \<longleftrightarrow> 400 dvd y"
    using dvd_add_times_triv_right_iff [of 4 y "100 * k"] dvd_add_times_triv_right_iff [of 100 y "4 * k"]
      dvd_add_times_triv_right_iff [of 400 y k] by (simp_all add: ac_simps)
  then show ?thesis by (simp add: is_leap_def)
qed

lemma days_before_mono: "y \<le> y' \<Longrightarrow> days_before y \<le> days_before y'"
proof (induction rule: dec_induct)
  case (step n)
  then show ?case using days_before_Suc [of n] by simp
qed simp

lemma gmtime_correct:
  assumes "0 \<le> t" and "gmtime t = Some tm"
  obtains y where "tm_year tm = int y - 1900" "1970 \<le> y"
    "seconds_since_epoch y (tm_mon tm + 1) (tm_mday tm) (tm_hour tm) (tm_min tm) (tm_sec tm) = t"
    "days_before y * 86400 \<le> t" "tm_mon tm < 12" "tm_mday tm \<le> 31" "tm_hour tm < 24" "tm_min tm < 60" "tm_sec tm < 60"
proof -
  define day where "day = t div 86400"
  define sec where "sec = nat (t mod 86400)"
  define era where "era = nat (day div 146097)"
  obtain y yday where sy: "split_year 1970 (nat (day mod 146097)) = (y, yday)"
    by (cases "split_year 1970 (nat (day mod 146097))")
  obtain mon mday where sm: "split_month (month_lengths y) yday = (mon, mday)"
    by (cases "split_month (month_lengths y) yday")
  have day: "0 \<le> day" using assms(1) by (simp add: day_def pos_imp_zdiv_nonneg_iff)
  then have era: "int era = day div 146097" by (simp add: era_def pos_imp_zdiv_nonneg_iff)
  have tm: "tm = \<lparr>tm_sec = sec mod 60, tm_min = sec div 60 mod 60, tm_hour = sec div 3600,
      tm_mday = mday + 1, tm_mon = mon, tm_year = int (y + 400 * era) - 1900\<rparr>"
    using assms(2) sy sm unfolding gmtime_def Let_def day_def [symmetric] sec_def [symmetric]
    by (simp add: era split: if_splits)
  note y = split_year_correct [OF sy]
  have m: "mon < 12" "mday < month_lengths y ! mon" "sum_list (take mon (month_lengths y)) + mday = yday"
    using split_month_correct [OF sm] y by (simp_all add: month_lengths_year) (simp add: month_lengths_def)
  have "days_before 1970 = 0" by (simp add: days_before_def)
  then have "days_before y + int yday = day mod 146097" using y by simp
  then have "days_before (y + 400 * era) + int yday = day mod 146097 + 146097 * (day div 146097)"
    unfolding days_before_era era by (simp only: ac_simps)
  then have d: "days_before (y + 400 * era) + int yday = day" by (simp only: mod_mult_div_eq)
  have months: "month_lengths (y + 400 * era) = month_lengths y" by (simp add: month_lengths_def is_leap_era)
  have t: "t = day * 86400 + int sec" and sec: "sec < 86400" by (simp_all add: day_def sec_def)
  show thesis
  proof (rule that [of "y + 400 * era"])
    have "a * 3600 + b * 60 + c = (a * 60 + b) * 60 + c" for a b c :: nat by simp
    moreover have "sec div 3600 = sec div 60 div 60" using div_mult2_eq [of sec 60 60] by simp
    ultimately have "sec div 3600 * 3600 + sec div 60 mod 60 * 60 + sec mod 60 = sec" by (simp only: div_mult_mod_eq)
    from arg_cong [OF this, of int]
    have "int (sec div 3600) * 3600 + int (sec div 60 mod 60) * 60 + int (sec mod 60) = int sec"
      by (simp only: of_nat_add of_nat_mult of_nat_numeral)
    moreover have "days_before (y + 400 * era) + int (sum_list (take mon (month_lengths y))) + int (mday + 1) - 1 = day"
      using d m(3) by simp
    ultimately show "seconds_since_epoch (y + 400 * era) (tm_mon tm + 1) (tm_mday tm) (tm_hour tm) (tm_min tm) (tm_sec tm) = t"
      by (simp add: seconds_since_epoch_def tm months t)
    show "days_before (y + 400 * era) * 86400 \<le> t" using d t by simp
    show "tm_mday tm \<le> 31" using m(2) month_lengths_bound [OF m(1), of y] by (simp add: tm)
    show "tm_hour tm < 24" using sec by (simp add: tm less_mult_imp_div_less)
  qed (use y m(1) in \<open>simp_all add: tm\<close>)
qed

lemma gmtime_defined:
  assumes "0 \<le> t" and "t < 253402300800"
  shows "\<exists>tm. gmtime t = Some tm"
proof -
  let ?day = "t div 86400"
  obtain y yday where sy: "split_year 1970 (nat (?day mod 146097)) = (y, yday)"
    by (cases "split_year 1970 (nat (?day mod 146097))")
  note c = split_year_correct [OF sy]
  have "y < 2370"
  proof (rule ccontr)
    assume "\<not> y < 2370"
    then have "days_before 2370 \<le> days_before y" by (intro days_before_mono) simp
    then have "146097 \<le> days_before y + int yday" by (simp add: days_before_def [of 2370])
    moreover have "days_before y + int yday = ?day mod 146097" using c by (simp add: days_before_def [of 1970])
    moreover have "?day mod 146097 < 146097" by (rule pos_mod_bound) simp
    ultimately show False by (simp only: not_le [symmetric])
  qed
  moreover have "0 \<le> ?day div 146097" "?day div 146097 < 2933"
    using assms zdiv_mono1 [of t 253402300800 86400] zdiv_mono1 [of ?day 2932896 146097]
    by (simp_all add: pos_imp_zdiv_nonneg_iff)
  ultimately show ?thesis using c by (auto simp: gmtime_def sy Let_def split: prod.split)
qed

subsection \<open>The text\<close>

lemma dec_value_two_digits:
  assumes "n < 100"
  shows "dec_value (two_digits n) = int n"
proof -
  have "dec_value (two_digits n) = int (n div 10 mod 10 * 10 + n mod 10)"
    by (simp add: two_digits_def dec_value_def)
  moreover have "n div 10 mod 10 = n div 10" using assms less_mult_imp_div_less [of n 10 10] by simp
  ultimately show ?thesis by (simp only: div_mult_mod_eq)
qed

lemma length_two_digits [simp]: "length (two_digits n) = 2"
  by (simp add: two_digits_def)

lemma length_four_digits:
  assumes "1000 \<le> n" and "n < 10000"
  shows "length (nat_to_string n) = 4"
  using assms div_le_mono [OF assms(1), of 10] div_le_mono [OF assms(1), of 100] less_mult_imp_div_less [of n 10 1000]
  by (simp add: nat_to_string.simps [of n] nat_to_string.simps [of "n div 10"] nat_to_string.simps [of "n div 100"]
      nat_to_string.simps [of "n div 1000"] div_mult2_eq [symmetric])

lemma parse_timestamp_text:
  assumes "1000 \<le> y" "y < 10000" and "mo < 100" "d < 100" "h < 100" "m < 100" "s < 100"
  defines "text \<equiv> nat_to_string y @ ''-'' @ two_digits mo @ ''-'' @ two_digits d @ ''T'' @ two_digits h @
    '':'' @ two_digits m @ '':'' @ two_digits s @ ''Z''"
  shows "length text = 20" and "parse_timestamp text = Some (seconds_since_epoch y mo d h m s)"
proof -
  note len = length_four_digits [OF assms(1,2)]
  show "length text = 20" by (simp add: text_def len)
  have "number_at text 0 4 = y" "number_at text 5 2 = mo" "number_at text 8 2 = d" "number_at text 11 2 = h"
    "number_at text 14 2 = m" "number_at text 17 2 = s"
    using assms(3-7) by (simp_all add: text_def number_at_def len dec_value_nat_to_string dec_value_two_digits)
  moreover have "text ! 4 = CHR ''-''" "text ! 7 = CHR ''-''" "text ! 10 = CHR ''T''" "text ! 13 = CHR '':''"
    "text ! 16 = CHR '':''" "text ! 19 = CHR ''Z''"
    by (simp_all add: text_def nth_append len)
  ultimately show "parse_timestamp text = Some (seconds_since_epoch y mo d h m s)"
    using \<open>length text = 20\<close> by (simp add: parse_timestamp_def)
qed

text \<open>
  C38. The time stamp of a log line has the form the source promises and tells the time: for every
  second from 1970 to the end of the year 9999 it is 20 bytes of the form
  \<^verbatim>\<open>YYYY-MM-DDTHH:MM:SSZ\<close>, and reading it back by the formula of POSIX gives that second.
\<close>

theorem timestamp_roundtrip:
  assumes "0 \<le> now" and "now < 253402300800"
  shows "length (timestamp_now now) = 20 \<and> parse_timestamp (timestamp_now now) = Some now"
proof -
  obtain tm where tm: "gmtime now = Some tm" using gmtime_defined [OF assms] by blast
  from gmtime_correct [OF assms(1) tm] obtain y where y: "tm_year tm = int y - 1900" "1970 \<le> y"
    "seconds_since_epoch y (tm_mon tm + 1) (tm_mday tm) (tm_hour tm) (tm_min tm) (tm_sec tm) = now"
    "days_before y * 86400 \<le> now"
    and r: "tm_mon tm < 12" "tm_mday tm \<le> 31" "tm_hour tm < 24" "tm_min tm < 60" "tm_sec tm < 60" by blast
  have "y < 10000"
  proof (rule ccontr)
    assume "\<not> y < 10000"
    then have "days_before 10000 \<le> days_before y" by (intro days_before_mono) simp
    with y(4) assms(2) show False by (simp add: days_before_def [of 10000])
  qed
  with y(2) r parse_timestamp_text [of y "tm_mon tm + 1" "tm_mday tm" "tm_hour tm" "tm_min tm" "tm_sec tm"] y(3)
  show ?thesis by (simp add: timestamp_now_def tm strftime_iso_def Let_def y(1) int_to_string_def)
qed

theorem timestamp_roundtrip_witness:
  "timestamp_now 1767225599 = ''2025-12-31T23:59:59Z'' \<and> parse_timestamp (timestamp_now 1767225599) = Some 1767225599"
proof
  show "timestamp_now 1767225599 = ''2025-12-31T23:59:59Z''" by code_simp
  show "parse_timestamp (timestamp_now 1767225599) = Some 1767225599"
    by (rule conjunct2 [OF timestamp_roundtrip]) simp_all
qed

end
