(* ===== verification/Logger.thy ===== *)
theory Logger
  imports Timestamp
begin

text \<open>
  The logger, \<^verbatim>\<open>src/src/util/logger.cpp\<close>. The lines written to the standard error stream are
  a list; the reading of the clock is a parameter of the call.
\<close>

datatype LogLevel = kDebug | kInfo | kWarn | kError

fun level_index :: "LogLevel \<Rightarrow> nat" where
  "level_index kDebug = 0"
| "level_index kInfo = 1"
| "level_index kWarn = 2"
| "level_index kError = 3"

text \<open>The comparison of enumerators is that of their positions.\<close>

instantiation LogLevel :: linorder
begin

definition less_eq_LogLevel :: "LogLevel \<Rightarrow> LogLevel \<Rightarrow> bool" where
  "less_eq_LogLevel a b \<longleftrightarrow> level_index a \<le> level_index b"

definition less_LogLevel :: "LogLevel \<Rightarrow> LogLevel \<Rightarrow> bool" where
  "less_LogLevel a b \<longleftrightarrow> level_index a < level_index b"

instance
proof
  fix a b :: LogLevel
  assume "a \<le> b" "b \<le> a"
  then show "a = b" by (cases a; cases b) (simp_all add: less_eq_LogLevel_def)
qed (auto simp: less_eq_LogLevel_def less_LogLevel_def)

end

fun level_name :: "LogLevel \<Rightarrow> string" where
  "level_name kDebug = ''DEBUG''"
| "level_name kInfo = ''INFO''"
| "level_name kWarn = ''WARN''"
| "level_name kError = ''ERROR''"

record Logger =
  lg_min_level :: LogLevel
  lg_lines :: "string list"

definition log_message :: "int \<Rightarrow> Logger \<Rightarrow> LogLevel \<Rightarrow> string \<Rightarrow> Logger" where
  "log_message now lg level message =
     (if level < lg_min_level lg then lg
      else lg\<lparr>lg_lines := lg_lines lg @
        [''['' @ timestamp_now now @ ''] ['' @ level_name level @ ''] '' @ message @ [lf]]\<rparr>)"

definition lower_char :: "char \<Rightarrow> char" where
  "lower_char c =
     (if 65 \<le> (of_char c :: nat) \<and> (of_char c :: nat) \<le> 90
      then char_of ((of_char c :: nat) - 65 + 97) else c)"

definition parse_level :: "string \<Rightarrow> LogLevel option" where
  "parse_level name =
     (let lowered = map lower_char name in
      if lowered = ''debug'' then Some kDebug
      else if lowered = ''info'' then Some kInfo
      else if lowered = ''warn'' \<or> lowered = ''warning'' then Some kWarn
      else if lowered = ''error'' then Some kError
      else None)"

end
