(* ===== verification/Listener.thy ===== *)
theory Listener
  imports Connections Posix
begin

text \<open>
  The listening socket, \<^verbatim>\<open>src/src/net/listener.cpp\<close>. Each operation returns its result, or the
  exception it throws, with the new state of the operating system; a constructor that throws
  has closed the socket it had opened.
\<close>

record ListenerConfig =
  lc_bind_address :: string
  lc_port :: "16 word"
  lc_backlog :: int

definition default_listener_config :: ListenerConfig where
  "default_listener_config = \<lparr>lc_bind_address = ''0.0.0.0'', lc_port = 6380, lc_backlog = 128\<rparr>"

record AcceptedClient =
  ac_fd :: FileDescriptor
  ac_peer_address :: string

definition throw_errno :: "Errno \<Rightarrow> string \<Rightarrow> fault" where
  "throw_errno e what = Exn (System_error (errno_code e) what)"

abbreviation single_quote :: char where "single_quote \<equiv> CHR 0x27"

definition make_listener :: "'w Os \<Rightarrow> ListenerConfig \<Rightarrow> 'w \<Rightarrow> (fault + FileDescriptor) \<times> 'w" where
  "make_listener os config w =
     (case os_socket os w of
        (Inl e, w1) \<Rightarrow> (Inl (throw_errno e ''Listener: socket() failed''), w1)
      | (Inr sock, w1) \<Rightarrow>
        (case os_set_reuseaddr os w1 sock of
           (Inl e, w2) \<Rightarrow>
             (Inl (throw_errno e ''Listener: setsockopt(SO_REUSEADDR) failed''), close_all os w2 (fd_destroy sock))
         | (Inr _, w2) \<Rightarrow>
           (case os_inet_pton os (lc_bind_address config) of
              None \<Rightarrow>
                (Inl (Exn (Invalid_argument (''Listener: invalid IPv4 bind address '' @ single_quote #
                   lc_bind_address config @ [single_quote]))), close_all os w2 (fd_destroy sock))
            | Some addr \<Rightarrow>
              (case os_bind os w2 sock \<lparr>sa_addr = addr, sa_port = lc_port config\<rparr> of
                 (Inl e, w3) \<Rightarrow>
                   (Inl (throw_errno e ''Listener: bind() failed''), close_all os w3 (fd_destroy sock))
               | (Inr _, w3) \<Rightarrow>
                 if lc_backlog config \<le> 0
                 then (Inl (Exn (Invalid_argument ''Listener: backlog must be positive'')),
                   close_all os w3 (fd_destroy sock))
                 else
                   (case os_listen os w3 sock (lc_backlog config) of
                      (Inl e, w4) \<Rightarrow>
                        (Inl (throw_errno e ''Listener: listen() failed''), close_all os w4 (fd_destroy sock))
                    | (Inr _, w4) \<Rightarrow>
                      (case fd_move_assign (- 1) sock of
                         (closed, fd, sock') \<Rightarrow> (Inr fd, close_all os w4 (closed @ fd_destroy sock'))))))))"

definition listener_port :: "'w Os \<Rightarrow> 'w \<Rightarrow> FileDescriptor \<Rightarrow> fault + 16 word" where
  "listener_port os w fd = (case os_getsockname os w fd of
      Inl e \<Rightarrow> Inl (throw_errno e ''Listener: getsockname() failed'')
    | Inr addr \<Rightarrow> Inr (sa_port addr))"

text \<open>\<^verbatim>\<open>accept_one\<close> retries for as long as the system call is interrupted.\<close>

partial_function (option) accept_one ::
  "'w Os \<Rightarrow> 'w \<Rightarrow> FileDescriptor \<Rightarrow> ((fault + AcceptedClient option) \<times> 'w) option" where
  "accept_one os w fd = (case os_accept4 os w fd of
      (Inr (client_fd, addr), w') \<Rightarrow>
        Some (Inr (Some \<lparr>ac_fd = client_fd,
          ac_peer_address = os_inet_ntop os (sa_addr addr) @ '':'' @ nat_to_string (unat (sa_port addr))\<rparr>), w')
    | (Inl e, w') \<Rightarrow>
        if e = EAGAIN \<or> e = EWOULDBLOCK then Some (Inr None, w')
        else if e = EINTR \<or> e = ECONNABORTED then accept_one os w' fd
        else Some (Inl (throw_errno e ''Listener: accept4() failed''), w'))"

declare accept_one.simps [code]

end
