(* ===== verification/Work_Item.thy ===== *)
theory Work_Item
  imports Connections Resp_Parser Bounded_Queue
begin

text \<open>
  What travels between the event loop and the workers, \<^verbatim>\<open>src/include/kvstore/worker/work_item.hpp\<close>.
  The only callback the program registers on a queue is \<^verbatim>\<open>EventLoop::wake\<close>.
\<close>

type_synonym RequestSequence = u64

record WorkItem =
  wi_connection_id :: ConnectionId
  wi_connection_generation :: ConnectionGeneration
  wi_sequence :: RequestSequence
  wi_command :: Command

record Completion =
  co_connection_id :: ConnectionId
  co_connection_generation :: ConnectionGeneration
  co_sequence :: RequestSequence
  co_response :: string

datatype callback = WakeEventLoop

type_synonym work_queue = "(WorkItem, callback) BoundedQueue"

type_synonym completion_queue = "(Completion, callback) BoundedQueue"

end
