(* ===== verification/Event_Loop.thy ===== *)
theory Event_Loop
  imports Net_Io Listener Logger Work_Item Resp_Serializer
begin

text \<open>
  The epoll reactor, \<^verbatim>\<open>src/src/net/event_loop.cpp\<close>. \<open>'w EventLoop\<close> holds the members of the
  class, the shared queues, the logger and the state of the operating system. A handler is a
  function from this state to the next. A connection that the code holds by reference is passed
  along and written back to the registry where the handler is left or the registry is used again.

  The loops over the input buffer, the output buffer and the completion queue are total
  functions, with termination proofs; the loops that end only when the operating system says
  so (reading until \<^verbatim>\<open>EAGAIN\<close>, accepting, draining the event counter, the reactor itself)
  are partial functions into \<open>option\<close>, where \<open>None\<close> is not returning.
\<close>

subsection \<open>State\<close>

record EventLoopConfig =
  ec_listener :: ListenerConfig
  ec_max_input_bytes :: nat
  ec_max_output_bytes :: nat
  ec_max_in_flight_per_connection :: nat

definition default_event_loop_config :: EventLoopConfig where
  "default_event_loop_config = \<lparr>ec_listener = default_listener_config,
     ec_max_input_bytes = kDefaultMaxInputBufferBytes,
     ec_max_output_bytes = kDefaultMaxOutputBufferBytes,
     ec_max_in_flight_per_connection = 64\<rparr>"

definition kMaxEventsPerWait :: nat where [kv_consts]:
  "kMaxEventsPerWait = 128"

record 'w EventLoop =
  el_config :: EventLoopConfig
  el_listener :: FileDescriptor
  el_epoll_fd :: FileDescriptor
  el_wakeup_fd :: FileDescriptor
  el_connections :: ConnectionRegistry
  el_work_queue :: work_queue
  el_completion_queue :: completion_queue
  el_stop_requested :: bool
  el_logger :: "Logger option"
  el_world :: 'w

definition warn :: "'w Os \<Rightarrow> 'w EventLoop \<Rightarrow> string \<Rightarrow> 'w EventLoop" where
  "warn os el message = (case el_logger el of
      None \<Rightarrow> el
    | Some lg \<Rightarrow> el\<lparr>el_logger := Some (log_message (os_time os (el_world el)) lg kWarn message)\<rparr>)"

definition wake :: "'w Os \<Rightarrow> 'w EventLoop \<Rightarrow> 'w EventLoop" where
  "wake os el = el\<lparr>el_world := os_eventfd_write os (el_world el) (el_wakeup_fd el)\<rparr>"

definition stop :: "'w Os \<Rightarrow> 'w EventLoop \<Rightarrow> 'w EventLoop" where
  "stop os el = wake os (el\<lparr>el_stop_requested := True\<rparr>)"

definition run_callback :: "'w Os \<Rightarrow> callback option \<Rightarrow> 'w EventLoop \<Rightarrow> 'w EventLoop" where
  "run_callback os cb el = (case cb of None \<Rightarrow> el | Some WakeEventLoop \<Rightarrow> wake os el)"

subsection \<open>Construction and destruction\<close>

text \<open>
  The members are initialised in the order of their declaration, so both descriptors exist
  before either is tested; an exception destroys the members built so far.
\<close>

definition epoll_add :: "'w Os \<Rightarrow> 'w \<Rightarrow> FileDescriptor \<Rightarrow> FileDescriptor \<Rightarrow> (fault + unit) \<times> 'w" where
  "epoll_add os w epoll_fd fd = (case os_epoll_add os w epoll_fd fd of
      (Inl e, w') \<Rightarrow> (Inl (throw_errno e ''EventLoop: epoll_ctl(ADD) failed''), w')
    | (Inr _, w') \<Rightarrow> (Inr (), w'))"

definition fd_of :: "Errno + int \<Rightarrow> FileDescriptor" where
  "fd_of r = (case r of Inl e \<Rightarrow> (- 1) | Inr fd \<Rightarrow> fd)"

definition make_event_loop ::
  "'w Os \<Rightarrow> EventLoopConfig \<Rightarrow> Logger option \<Rightarrow> work_queue \<Rightarrow> completion_queue \<Rightarrow> 'w \<Rightarrow>
    (fault + 'w EventLoop) \<times> 'w" where
  "make_event_loop os config logger wq cq w =
     (case make_listener os (ec_listener config) w of
        (Inl f, w1) \<Rightarrow> (Inl f, w1)
      | (Inr listener, w1) \<Rightarrow>
        (case os_epoll_create1 os w1 of (ep, w2) \<Rightarrow>
        (case os_eventfd os w2 of (wk, w3) \<Rightarrow>
          let epoll_fd = fd_of ep; wakeup_fd = fd_of wk;
              unwind = (\<lambda>w. close_all os w (fd_destroy wakeup_fd @ fd_destroy epoll_fd @ fd_destroy listener))
          in (case ep of
            Inl e \<Rightarrow> (Inl (throw_errno e ''EventLoop: epoll_create1() failed''), unwind w3)
          | Inr _ \<Rightarrow>
            (case wk of
              Inl e \<Rightarrow> (Inl (throw_errno e ''EventLoop: eventfd() failed''), unwind w3)
            | Inr _ \<Rightarrow>
              (case epoll_add os w3 epoll_fd listener of
                 (Inl f, w4) \<Rightarrow> (Inl f, unwind w4)
               | (Inr _, w4) \<Rightarrow>
                 (case epoll_add os w4 epoll_fd wakeup_fd of
                    (Inl f, w5) \<Rightarrow> (Inl f, unwind w5)
                  | (Inr _, w5) \<Rightarrow>
                    (Inr \<lparr>el_config = config, el_listener = listener, el_epoll_fd = epoll_fd,
                       el_wakeup_fd = wakeup_fd, el_connections = empty_registry, el_work_queue = wq,
                       el_completion_queue = set_on_push cq (Some WakeEventLoop),
                       el_stop_requested = False, el_logger = logger, el_world = w5\<rparr>, w5))))))))"

definition destroy_event_loop :: "'w EventLoop \<Rightarrow> completion_queue" where
  "destroy_event_loop el = set_on_push (el_completion_queue el) None"

subsection \<open>Parsing and dispatching input\<close>

fun push_responses ::
  "'w Os \<Rightarrow> 'w EventLoop \<Rightarrow> Connection \<Rightarrow> string list \<Rightarrow> bool \<times> Connection \<times> 'w EventLoop" where
  "push_responses os el c [] = (True, c, el)"
| "push_responses os el c (response # ready) =
     (case buffer_append (cn_output c) response of
        (True, output) \<Rightarrow> push_responses os el (c\<lparr>cn_output := output\<rparr>) ready
      | (False, output) \<Rightarrow>
          (False, c, warn os el ''resource limit: connection output buffer cap exceeded, closing connection''))"

text \<open>A response that does not go through a worker: number it, record it, release what is ready.\<close>

definition record_and_push ::
  "'w Os \<Rightarrow> 'w EventLoop \<Rightarrow> Connection \<Rightarrow> RequestSequence \<Rightarrow> string \<Rightarrow> bool \<times> Connection \<times> 'w EventLoop" where
  "record_and_push os el c sequence response =
     (case record_response (cn_sequencer c) sequence response of
        (ready, sq) \<Rightarrow> push_responses os el (c\<lparr>cn_sequencer := sq\<rparr>) ready)"

definition take_sequence :: "Connection \<Rightarrow> RequestSequence \<times> Connection" where
  "take_sequence c = (case next_request_sequence (cn_sequencer c) of
      (sequence, sq) \<Rightarrow> (sequence, c\<lparr>cn_sequencer := sq\<rparr>))"

text \<open>
  One round of the loop of \<^verbatim>\<open>process_input\<close>: \<open>Some b\<close> when it returns \<open>b\<close>, \<open>None\<close> when it
  continues.
\<close>

definition process_one ::
  "'w Os \<Rightarrow> 'w EventLoop \<Rightarrow> Connection \<Rightarrow> bool option \<times> Connection \<times> 'w EventLoop" where
  "process_one os el c =
     (if ec_max_in_flight_per_connection (el_config el) \<le> unat (in_flight_count (cn_sequencer c))
      then (Some True, c, el)
      else case parse_command (bb_data (cn_input c)) of
        NeedMoreData \<Rightarrow> (Some True, c, el)
      | ParsedCommand command consumed \<Rightarrow>
          (case take_sequence (c\<lparr>cn_input := buffer_consume (cn_input c) consumed\<rparr>) of
             (sequence, c') \<Rightarrow>
          (case try_push (el_work_queue el)
             \<lparr>wi_connection_id = cn_id c', wi_connection_generation = cn_generation c',
              wi_sequence = sequence, wi_command = command\<rparr> of
             (status, wq, cb) \<Rightarrow>
               let el' = run_callback os cb (el\<lparr>el_work_queue := wq\<rparr>) in
               if status = PushOk then (None, c', el')
               else
                 let busy_response =
                   (if status = PushClosed then encode_error ''ERR server shutting down''
                    else encode_error ''ERR server busy, try again'');
                   el'' = (if status = PushFull
                     then warn os el' ''resource limit: work queue full, replying busy'' else el')
                 in case record_and_push os el'' c' sequence busy_response of
                   (ok, r) \<Rightarrow> (if ok then None else Some False, r)))
      | ParseError error \<Rightarrow>
          if pe_recoverable error then
            (case take_sequence (c\<lparr>cn_input := buffer_consume (cn_input c) (pe_consumed_bytes error)\<rparr>) of
               (sequence, c') \<Rightarrow>
             case record_and_push os el c' sequence (encode_error (pe_message error)) of
               (ok, r) \<Rightarrow> (if ok then None else Some False, r))
          else
            (case take_sequence c of
               (sequence, c') \<Rightarrow>
             case record_and_push os (warn os el ''malformed request: closing connection'') c' sequence
                 (encode_error (pe_message error)) of
               (ok, r) \<Rightarrow> (Some False, r)))"

text \<open>What the loop over the input never changes.\<close>

definition same_peer :: "Connection \<Rightarrow> Connection \<Rightarrow> bool" where
  "same_peer c c' \<longleftrightarrow> cn_id c' = cn_id c \<and> cn_generation c' = cn_generation c \<and> cn_fd c' = cn_fd c"

definition same_loop :: "'w EventLoop \<Rightarrow> 'w EventLoop \<Rightarrow> bool" where
  "same_loop el el' \<longleftrightarrow> el_config el' = el_config el \<and> el_listener el' = el_listener el \<and>
     el_epoll_fd el' = el_epoll_fd el \<and> el_wakeup_fd el' = el_wakeup_fd el \<and>
     el_connections el' = el_connections el \<and> el_completion_queue el' = el_completion_queue el \<and>
     el_stop_requested el' = el_stop_requested el"

lemmas frame_defs = same_peer_def same_loop_def

lemma same_refl [simp]: "same_peer c c" "same_loop el el"
  by (simp_all add: frame_defs)

lemma same_trans:
  "same_peer a b \<Longrightarrow> same_peer b c \<Longrightarrow> same_peer a c"
  "same_loop x y \<Longrightarrow> same_loop y z \<Longrightarrow> same_loop x z"
  by (simp_all add: frame_defs)

lemma same_updates [simp]:
  "same_peer c (c\<lparr>cn_input := i\<rparr>) \<longleftrightarrow> True" "same_peer (c\<lparr>cn_input := i\<rparr>) c' \<longleftrightarrow> same_peer c c'"
  "same_peer (c\<lparr>cn_sequencer := q\<rparr>) c' \<longleftrightarrow> same_peer c c'"
  "same_peer (c\<lparr>cn_output := b\<rparr>) c' \<longleftrightarrow> same_peer c c'"
  "same_loop (el\<lparr>el_work_queue := wq\<rparr>) el' \<longleftrightarrow> same_loop el el'"
  "same_loop (warn os el m) el' \<longleftrightarrow> same_loop el el'"
  "same_loop el (warn os el' m) \<longleftrightarrow> same_loop el el'"
  "same_loop (run_callback os cb el) el' \<longleftrightarrow> same_loop el el'"
  "same_loop el (run_callback os cb el') \<longleftrightarrow> same_loop el el'"
  "same_loop el (el'\<lparr>el_work_queue := wq\<rparr>) \<longleftrightarrow> same_loop el el'"
  "same_loop el (el'\<lparr>el_world := w\<rparr>) \<longleftrightarrow> same_loop el el'"
  "same_loop (el\<lparr>el_world := w\<rparr>) el' \<longleftrightarrow> same_loop el el'"
  by (auto simp: frame_defs warn_def run_callback_def wake_def split: option.splits callback.splits)

lemma warn_work_queue [simp]: "el_work_queue (warn os el m) = el_work_queue el"
  by (simp add: warn_def split: option.splits)

lemma push_responses_frame:
  "push_responses os el c ready = (ok, c', el') \<Longrightarrow>
   same_peer c c' \<and> same_loop el el' \<and> cn_input c' = cn_input c \<and> cn_sequencer c' = cn_sequencer c \<and>
   el_work_queue el' = el_work_queue el"
  by (induction os el c ready rule: push_responses.induct)
    (auto split: prod.splits bool.splits)

lemma record_and_push_frame:
  "record_and_push os el c sequence response = (ok, c', el') \<Longrightarrow>
   same_peer c c' \<and> same_loop el el' \<and> cn_input c' = cn_input c \<and> el_work_queue el' = el_work_queue el"
  by (auto simp: record_and_push_def split: prod.splits dest!: push_responses_frame)

lemma take_sequence_frame:
  "take_sequence c = (sequence, c') \<Longrightarrow>
   same_peer c c' \<and> cn_input c' = cn_input c \<and> cn_output c' = cn_output c"
  by (auto simp: take_sequence_def next_request_sequence_def same_peer_def)

lemma process_one_frame:
  assumes "process_one os el c = (r, c', el')"
  shows "same_peer c c' \<and> same_loop el el'"
  using assms
  by (auto simp: process_one_def Let_def split: if_splits prod.splits ParseResult.splits
      dest!: record_and_push_frame take_sequence_frame elim: same_trans)

lemma process_one_progress:
  assumes "process_one os el c = (None, c', el')"
  shows "length (bb_data (cn_input c')) < length (bb_data (cn_input c))"
proof -
  let ?in = "bb_data (cn_input c)"
  from assms consider
    (parsed) command n where "parse_command ?in = ParsedCommand command n" "bb_data (cn_input c') = drop n ?in"
  | (error) e where "parse_command ?in = ParseError e" "pe_recoverable e"
      "bb_data (cn_input c') = drop (pe_consumed_bytes e) ?in"
    by (auto simp: process_one_def Let_def split: if_splits prod.splits ParseResult.splits
      dest!: record_and_push_frame take_sequence_frame)
  then show ?thesis
    by cases (auto dest!: parse_command_consumes)
qed

function process_input :: "'w Os \<Rightarrow> 'w EventLoop \<Rightarrow> Connection \<Rightarrow> bool \<times> Connection \<times> 'w EventLoop" where
  "process_input os el c =
     (case process_one os el c of
        (Some r, c', el') \<Rightarrow> (r, c', el')
      | (None, c', el') \<Rightarrow> process_input os el' c')"
  by pat_completeness auto

termination
  by (relation "measure (\<lambda>(os, el, c). length (bb_data (cn_input c)))")
    (auto dest!: process_one_progress [OF sym])

declare process_input.simps [simp del]

subsection \<open>Writing and closing\<close>

text \<open>Writes a connection that was held by reference back to the registry.\<close>

definition put_back :: "'w EventLoop \<Rightarrow> Connection \<Rightarrow> 'w EventLoop" where
  "put_back el c = el\<lparr>el_connections := put_connection (el_connections el) c\<rparr>"

definition close_connection :: "'w Os \<Rightarrow> 'w EventLoop \<Rightarrow> ConnectionId \<Rightarrow> ConnectionGeneration \<Rightarrow> 'w EventLoop" where
  "close_connection os el cid generation =
     (case find_connection (el_connections el) cid generation of
        None \<Rightarrow> el
      | Some c \<Rightarrow>
          let w = (if bb_data (cn_output c) = [] then el_world el
                   else snd (snd (write_from os (el_world el) (cn_fd c) (cn_output c))));
              w' = os_epoll_del os w (el_epoll_fd el) cid
          in case registry_close (el_connections el) cid generation of
            (removed, closed, r) \<Rightarrow> el\<lparr>el_connections := r, el_world := close_all os w' closed\<rparr>)"

definition update_epoll_interest :: "'w Os \<Rightarrow> 'w EventLoop \<Rightarrow> Connection \<Rightarrow> 'w EventLoop" where
  "update_epoll_interest os el c =
     el\<lparr>el_world := os_epoll_mod os (el_world el) (el_epoll_fd el) (cn_fd c) (bb_data (cn_output c) \<noteq> [])\<rparr>"

text \<open>
  The loop of \<^verbatim>\<open>handle_connection_writable\<close>: \<open>True\<close> when the buffer is empty or the socket is
  full, \<open>False\<close> when the connection cannot continue.
\<close>

function write_loop :: "'w Os \<Rightarrow> 'w \<Rightarrow> FileDescriptor \<Rightarrow> BoundedBuffer \<Rightarrow> bool \<times> BoundedBuffer \<times> 'w" where
  "write_loop os w fd output =
     (if bb_data output = [] then (True, output, w)
      else case write_from os w fd output of
        (outcome, output', w') \<Rightarrow>
          if wo_status outcome = WroteSome then write_loop os w' fd output'
          else if wo_status outcome = WriteWouldBlock then (True, output', w')
          else (False, output', w'))"
  by pat_completeness auto

termination
  by (relation "measure (\<lambda>(os, w, fd, output). length (bb_data output))")
    (auto dest!: write_from_progress [OF sym])

declare write_loop.simps [simp del]

definition handle_connection_writable :: "'w Os \<Rightarrow> 'w EventLoop \<Rightarrow> ConnectionId \<Rightarrow> 'w EventLoop" where
  "handle_connection_writable os el cid =
     (case find_current (el_connections el) cid of
        None \<Rightarrow> el
      | Some c \<Rightarrow>
          (case write_loop os (el_world el) (cn_fd c) (cn_output c) of
             (ok, output, w) \<Rightarrow>
               let c' = c\<lparr>cn_output := output\<rparr>;
                   el' = put_back (el\<lparr>el_world := w\<rparr>) c'
               in if ok then update_epoll_interest os el' c'
                  else close_connection os el' cid (cn_generation c)))"

subsection \<open>Completions\<close>

text \<open>One completion of \<^verbatim>\<open>drain_completions\<close>.\<close>

definition handle_completion :: "'w Os \<Rightarrow> 'w EventLoop \<Rightarrow> Completion \<Rightarrow> 'w EventLoop" where
  "handle_completion os el completion =
     (case find_connection (el_connections el) (co_connection_id completion)
             (co_connection_generation completion) of
        None \<Rightarrow> el
      | Some c \<Rightarrow>
          (case record_and_push os el c (co_sequence completion) (co_response completion) of
             (False, c1, el1) \<Rightarrow>
               close_connection os (put_back el1 c1) (co_connection_id completion)
                 (co_connection_generation completion)
           | (True, c1, el1) \<Rightarrow>
               (case process_input os el1 c1 of
                  (False, c2, el2) \<Rightarrow>
                    close_connection os (put_back el2 c2) (co_connection_id completion)
                      (co_connection_generation completion)
                | (True, c2, el2) \<Rightarrow>
                    handle_connection_writable os (put_back el2 c2) (co_connection_id completion))))"

lemma put_back_frame [simp]:
  "el_completion_queue (put_back el c) = el_completion_queue el" "el_config (put_back el c) = el_config el"
  "el_work_queue (put_back el c) = el_work_queue el"
  by (simp_all add: put_back_def)

lemma close_connection_frame [simp]:
  "el_completion_queue (close_connection os el i g) = el_completion_queue el"
  "el_config (close_connection os el i g) = el_config el"
  "el_work_queue (close_connection os el i g) = el_work_queue el"
  by (simp_all add: close_connection_def Let_def split: option.split prod.split)

lemma handle_connection_writable_frame [simp]:
  "el_completion_queue (handle_connection_writable os el i) = el_completion_queue el"
  "el_config (handle_connection_writable os el i) = el_config el"
  "el_work_queue (handle_connection_writable os el i) = el_work_queue el"
  by (simp_all add: handle_connection_writable_def update_epoll_interest_def Let_def split: option.split prod.split)

lemma process_input_frame:
  "process_input os el c = (r, c', el') \<Longrightarrow> same_peer c c' \<and> same_loop el el'"
proof (induction os el c rule: process_input.induct)
  case (1 os el c)
  obtain r1 c1 el1 where s: "process_one os el c = (r1, c1, el1)" by (cases "process_one os el c")
  note f = process_one_frame [OF s]
  show ?case
  proof (cases r1)
    case None
    with "1.prems" s have "process_input os el1 c1 = (r, c', el')" by (simp add: process_input.simps [of os el c])
    from "1.IH" [OF s [symmetric] None refl this] f show ?thesis by (blast intro: same_trans)
  next
    case (Some b)
    with "1.prems" s f show ?thesis by (simp add: process_input.simps [of os el c])
  qed
qed

lemma handle_completion_queue: "el_completion_queue (handle_completion os el co) = el_completion_queue el"
  by (auto simp: handle_completion_def same_loop_def dest!: record_and_push_frame process_input_frame
      split: option.split prod.split bool.split)

function drain_completions :: "'w Os \<Rightarrow> 'w EventLoop \<Rightarrow> 'w EventLoop" where
  "drain_completions os el =
     (case try_pop (el_completion_queue el) of
        (None, cq) \<Rightarrow> el
      | (Some completion, cq) \<Rightarrow>
          drain_completions os (handle_completion os (el\<lparr>el_completion_queue := cq\<rparr>) completion))"
  by pat_completeness auto

termination
  by (relation "measure (\<lambda>(os, el). length (bq_items (el_completion_queue el)))")
    (auto simp: handle_completion_queue try_pop_def split: list.splits)

declare drain_completions.simps [simp del]

partial_function (option) drain_wakeup :: "'w Os \<Rightarrow> 'w EventLoop \<Rightarrow> 'w EventLoop option" where
  "drain_wakeup os el =
     (case os_eventfd_read os (el_world el) (el_wakeup_fd el) of
        (more_to_read, w) \<Rightarrow>
          if more_to_read then drain_wakeup os (el\<lparr>el_world := w\<rparr>)
          else Some (drain_completions os (el\<lparr>el_world := w\<rparr>)))"

subsection \<open>Accepting and reading\<close>

text \<open>What \<^verbatim>\<open>handle_listener_readable\<close> does with one accepted client.\<close>

definition admit_client :: "'w Os \<Rightarrow> 'w EventLoop \<Rightarrow> AcceptedClient \<Rightarrow> fault + 'w EventLoop" where
  "admit_client os el accepted =
     (case registry_add (el_connections el) (ac_fd accepted) (ac_peer_address accepted)
             (ec_max_input_bytes (el_config el)) (ec_max_output_bytes (el_config el)) of
        Inl f \<Rightarrow> Inl f
      | Inr (c, closed, r) \<Rightarrow>
          (case os_epoll_add os (close_all os (el_world el) closed) (el_epoll_fd el) (ac_fd accepted) of
             (Inr _, w) \<Rightarrow> Inr (el\<lparr>el_connections := r, el_world := w\<rparr>)
           | (Inl e, w) \<Rightarrow>
               let el' = warn os (el\<lparr>el_connections := r, el_world := w\<rparr>)
                 ''resource limit: epoll_ctl(ADD) failed for a new connection, dropping it''
               in (case registry_close r (cn_id c) (cn_generation c) of
                     (removed, closed', r') \<Rightarrow>
                       Inr (el'\<lparr>el_connections := r', el_world := close_all os w closed'\<rparr>))))"

partial_function (option) handle_listener_readable ::
  "'w Os \<Rightarrow> 'w EventLoop \<Rightarrow> (fault + 'w EventLoop) option" where
  "handle_listener_readable os el =
     (case accept_one os (el_world el) (el_listener el) of
        None \<Rightarrow> None
      | Some (result, w) \<Rightarrow>
          (case result of
             Inl f \<Rightarrow> Some (Inl f)
           | Inr None \<Rightarrow> Some (Inr (el\<lparr>el_world := w\<rparr>))
           | Inr (Some accepted) \<Rightarrow>
               (case admit_client os (el\<lparr>el_world := w\<rparr>) accepted of
                  Inl f \<Rightarrow> Some (Inl f)
                | Inr el' \<Rightarrow> handle_listener_readable os el')))"

text \<open>
  The loop of \<^verbatim>\<open>handle_connection_readable\<close>: \<open>True\<close> when the socket has no more data, \<open>False\<close>
  when the connection must be closed.
\<close>

partial_function (option) read_loop ::
  "'w Os \<Rightarrow> 'w EventLoop \<Rightarrow> Connection \<Rightarrow> (bool \<times> Connection \<times> 'w EventLoop) option" where
  "read_loop os el c =
     (case read_into os (el_world el) (cn_fd c) (cn_input c) of
        (outcome, input, w) \<Rightarrow>
          let c1 = c\<lparr>cn_input := input\<rparr>; el1 = el\<lparr>el_world := w\<rparr> in
          if ro_status outcome = ReadSome then
            (case process_input os el1 c1 of
               (ok, c2, el2) \<Rightarrow> if ok then read_loop os el2 c2 else Some (False, c2, el2))
          else if ro_status outcome = ReadWouldBlock then Some (True, c1, el1)
          else Some (False, c1,
            if ro_status outcome = ReadBufferFull
            then warn os el1 ''resource limit: connection input buffer cap exceeded, closing connection''
            else el1))"

definition handle_connection_readable :: "'w Os \<Rightarrow> 'w EventLoop \<Rightarrow> ConnectionId \<Rightarrow> 'w EventLoop option" where
  "handle_connection_readable os el cid =
     (case find_current (el_connections el) cid of
        None \<Rightarrow> Some el
      | Some c \<Rightarrow>
          (case read_loop os el c of
             None \<Rightarrow> None
           | Some (False, c', el') \<Rightarrow> Some (close_connection os (put_back el' c') cid (cn_generation c))
           | Some (True, c', el') \<Rightarrow> Some (handle_connection_writable os (put_back el' c') cid)))"

subsection \<open>The reactor\<close>

definition handle_event :: "'w Os \<Rightarrow> 'w EventLoop \<Rightarrow> EpollEvent \<Rightarrow> (fault + 'w EventLoop) option" where
  "handle_event os el ev =
     (let fd = ev_fd ev in
      if fd = el_wakeup_fd el then map_option Inr (drain_wakeup os el)
      else if fd = el_listener el then handle_listener_readable os el
      else if ev_hup_err ev then
        (case find_current (el_connections el) fd of
           Some c \<Rightarrow> Some (Inr (close_connection os el fd (cn_generation c)))
         | None \<Rightarrow> Some (Inr el))
      else
        (case (if ev_in ev then handle_connection_readable os el fd else Some el) of
           None \<Rightarrow> None
         | Some el' \<Rightarrow>
             if ev_out ev \<and> find_current (el_connections el') fd \<noteq> None
             then Some (Inr (handle_connection_writable os el' fd))
             else Some (Inr el')))"

fun handle_events :: "'w Os \<Rightarrow> 'w EventLoop \<Rightarrow> EpollEvent list \<Rightarrow> (fault + 'w EventLoop) option" where
  "handle_events os el [] = Some (Inr el)"
| "handle_events os el (ev # evs) =
     (case handle_event os el ev of
        None \<Rightarrow> None
      | Some (Inl f) \<Rightarrow> Some (Inl f)
      | Some (Inr el') \<Rightarrow> handle_events os el' evs)"

text \<open>
  \<open>others\<close> is what the other threads do to the shared state (the queues and the stop flag)
  while this thread waits for events.
\<close>

partial_function (option) run ::
  "'w Os \<Rightarrow> ('w EventLoop \<Rightarrow> 'w EventLoop) \<Rightarrow> 'w EventLoop \<Rightarrow> (fault + 'w EventLoop) option" where
  "run os others el =
     (if el_stop_requested el then Some (Inr el)
      else case os_epoll_wait os (el_world el) (el_epoll_fd el) kMaxEventsPerWait of
        (Inl e, w) \<Rightarrow>
          if e = EINTR then run os others (others (el\<lparr>el_world := w\<rparr>))
          else Some (Inl (throw_errno e ''EventLoop: epoll_wait() failed''))
      | (Inr events, w) \<Rightarrow>
          (case handle_events os (others (el\<lparr>el_world := w\<rparr>)) events of
             None \<Rightarrow> None
           | Some (Inl f) \<Rightarrow> Some (Inl f)
           | Some (Inr el') \<Rightarrow> run os others el'))"

declare drain_wakeup.simps [code] handle_listener_readable.simps [code] read_loop.simps [code] run.simps [code]

end
