(* ===== verification/Event_Loop_Safety.thy ===== *)
theory Event_Loop_Safety
  imports Event_Loop
begin

text \<open>
  The invariant of the event loop and what its handlers guarantee: the caps on all buffers and
  queues, the agreement of the registry's keys with the connections' ids, and the properties of
  single handlers.
\<close>

subsection \<open>The invariant\<close>

definition conn_ok :: "EventLoopConfig \<Rightarrow> Connection \<Rightarrow> bool" where
  "conn_ok cfg c \<longleftrightarrow> connection_ok c \<and> bb_capacity (cn_input c) = ec_max_input_bytes cfg \<and>
     bb_capacity (cn_output c) = ec_max_output_bytes cfg \<and> cn_fd c = cn_id c \<and> fd_valid (cn_id c)"

definition loop_ok :: "EventLoopConfig \<Rightarrow> nat \<Rightarrow> 'w EventLoop \<Rightarrow> bool" where
  "loop_ok cfg cap el \<longleftrightarrow> el_config el = cfg \<and>
     (\<forall>i c. find_current (el_connections el) i = Some c \<longrightarrow> cn_id c = i \<and> conn_ok cfg c) \<and>
     queue_ok (el_work_queue el) \<and> bq_capacity (el_work_queue el) = cap \<and>
     queue_ok (el_completion_queue el) \<and> bq_capacity (el_completion_queue el) = cap"

lemma loop_ok_conn:
  "loop_ok cfg cap el \<Longrightarrow> find_current (el_connections el) i = Some c \<Longrightarrow> cn_id c = i \<and> conn_ok cfg c"
  by (simp add: loop_ok_def)

lemma find_connection_current:
  "find_connection r i g = Some c \<Longrightarrow> find_current r i = Some c \<and> cn_generation c = g"
  by (auto simp: find_connection_def find_current_def split: option.splits if_splits)

text \<open>What does not touch connections or queues does not touch the invariant.\<close>

lemma loop_ok_updates [simp]:
  "loop_ok cfg cap (el\<lparr>el_world := w\<rparr>) \<longleftrightarrow> loop_ok cfg cap el" "loop_ok cfg cap (el\<lparr>el_logger := l\<rparr>) \<longleftrightarrow> loop_ok cfg cap el"
  "loop_ok cfg cap (el\<lparr>el_stop_requested := b\<rparr>) \<longleftrightarrow> loop_ok cfg cap el"
  "loop_ok cfg cap (warn os el m) \<longleftrightarrow> loop_ok cfg cap el" "loop_ok cfg cap (wake os el) \<longleftrightarrow> loop_ok cfg cap el"
  "loop_ok cfg cap (run_callback os cb el) \<longleftrightarrow> loop_ok cfg cap el"
  by (simp_all add: loop_ok_def warn_def wake_def run_callback_def split: option.splits callback.splits)

lemma queue_ok_try_push: "queue_ok q \<Longrightarrow> try_push q x = (s, q', cb) \<Longrightarrow> queue_ok q' \<and> bq_capacity q' = bq_capacity q"
  by (auto simp: try_push_def queue_ok_def split: if_splits)

lemma queue_ok_try_pop: "queue_ok q \<Longrightarrow> try_pop q = (x, q') \<Longrightarrow> queue_ok q' \<and> bq_capacity q' = bq_capacity q"
  by (auto simp: try_pop_def queue_ok_def split: list.splits)

lemma conn_ok_updates [simp]:
  "conn_ok cfg (c\<lparr>cn_sequencer := s\<rparr>) \<longleftrightarrow> conn_ok cfg c"
  "conn_ok cfg c \<Longrightarrow> conn_ok cfg (c\<lparr>cn_input := cn_input c\<lparr>bb_data := drop n (bb_data (cn_input c))\<rparr>\<rparr>)"
  by (auto simp: conn_ok_def connection_ok_def buffer_ok_def)

lemma conn_ok_append:
  "conn_ok cfg c \<Longrightarrow> buffer_append (cn_output c) ds = (ok, b) \<Longrightarrow> conn_ok cfg (c\<lparr>cn_output := b\<rparr>)"
  using buffer_append_ok [of "cn_output c" ds] buffer_append_data(2) [of "cn_output c" ds]
  by (simp add: conn_ok_def connection_ok_def)

lemma push_responses_ok:
  "push_responses os el c ready = (ok, c', el') \<Longrightarrow> conn_ok cfg c \<Longrightarrow> loop_ok cfg cap el \<Longrightarrow>
   conn_ok cfg c' \<and> loop_ok cfg cap el'"
  by (induction os el c ready rule: push_responses.induct)
    (auto split: prod.splits bool.splits dest: conn_ok_append)

lemma record_and_push_ok:
  "record_and_push os el c s r = (ok, c', el') \<Longrightarrow> conn_ok cfg c \<Longrightarrow> loop_ok cfg cap el \<Longrightarrow>
   conn_ok cfg c' \<and> loop_ok cfg cap el'"
  by (auto simp: record_and_push_def split: prod.splits dest!: push_responses_ok)

lemma take_sequence_ok: "take_sequence c = (s, c') \<Longrightarrow> conn_ok cfg c' \<longleftrightarrow> conn_ok cfg c"
  by (auto simp: take_sequence_def split: prod.splits)

lemma loop_ok_work_queue:
  "loop_ok cfg cap el \<Longrightarrow> try_push (el_work_queue el) x = (s, q, cb) \<Longrightarrow> loop_ok cfg cap (el\<lparr>el_work_queue := q\<rparr>)"
  by (auto simp: loop_ok_def dest: queue_ok_try_push)

lemma process_one_ok:
  assumes "process_one os el c = (r, c', el')" and c: "conn_ok cfg c" and el: "loop_ok cfg cap el"
  shows "conn_ok cfg c' \<and> loop_ok cfg cap el'"
proof (cases "parse_command (bb_data (cn_input c))")
  case NeedMoreData
  with assms show ?thesis by (auto simp: process_one_def split: if_splits)
next
  case (ParsedCommand command n)
  let ?c = "c\<lparr>cn_input := buffer_consume (cn_input c) n\<rparr>"
  obtain s c1 where t: "take_sequence ?c = (s, c1)" by (cases "take_sequence ?c")
  let ?item = "\<lparr>wi_connection_id = cn_id c1, wi_connection_generation = cn_generation c1,
    wi_sequence = s, wi_command = command\<rparr>"
  obtain st q cb where p: "try_push (el_work_queue el) ?item = (st, q, cb)"
    by (cases "try_push (el_work_queue el) ?item") auto
  have "conn_ok cfg c1" using take_sequence_ok [OF t] c by simp
  moreover have "loop_ok cfg cap (el\<lparr>el_work_queue := q\<rparr>)" using el p by (rule loop_ok_work_queue)
  ultimately show ?thesis
    using assms(1) ParsedCommand t p c el
    by (auto simp: process_one_def Let_def split: if_splits prod.splits dest!: record_and_push_ok [where cfg = cfg])
next
  case (ParseError e)
  with assms show ?thesis
    by (auto simp: process_one_def split: if_splits prod.splits dest!: record_and_push_ok [where cfg = cfg]
      simp: take_sequence_ok)
qed

lemma process_input_ok:
  "process_input os el c = (r, c', el') \<Longrightarrow> conn_ok cfg c \<Longrightarrow> loop_ok cfg cap el \<Longrightarrow>
   conn_ok cfg c' \<and> loop_ok cfg cap el'"
proof (induction os el c rule: process_input.induct)
  case (1 os el c)
  obtain r1 c1 el1 where s: "process_one os el c = (r1, c1, el1)" by (cases "process_one os el c")
  note ok = process_one_ok [OF s "1.prems"(2,3)]
  show ?case
  proof (cases r1)
    case None
    with "1.prems"(1) s have "process_input os el1 c1 = (r, c', el')"
      by (simp add: process_input.simps [of os el c])
    from "1.IH" [OF s [symmetric] None refl this] ok show ?thesis by blast
  next
    case (Some b)
    with "1.prems"(1) s ok show ?thesis by (simp add: process_input.simps [of os el c])
  qed
qed

lemma loop_ok_put:
  assumes "loop_ok cfg cap el" and "conn_ok cfg c"
  shows "loop_ok cfg cap (put_back el c)"
  using assms by (auto simp: loop_ok_def put_back_def put_connection_def find_current_def)

lemma loop_ok_erase:
  assumes "loop_ok cfg cap el" and "registry_close (el_connections el) i g = (b, cl, r)"
  shows "loop_ok cfg cap (el\<lparr>el_connections := r\<rparr>)"
  using assms(2) by (rule registry_close_cases) (use assms(1) in \<open>auto simp: loop_ok_def find_current_def split: if_splits\<close>)

lemma close_connection_ok: "loop_ok cfg cap el \<Longrightarrow> loop_ok cfg cap (close_connection os el i g)"
  by (auto simp: close_connection_def Let_def intro: loop_ok_erase split: option.split prod.split)

lemma write_loop_ok:
  "write_loop os w fd b = (ok, b', w') \<Longrightarrow> buffer_ok b \<Longrightarrow> buffer_ok b' \<and> bb_capacity b' = bb_capacity b"
proof (induction os w fd b rule: write_loop.induct)
  case (1 os w fd b)
  obtain oc b1 w1 where wf: "write_from os w fd b = (oc, b1, w1)" by (cases "write_from os w fd b")
  from write_from_ok [OF "1.prems"(2) wf] "1.IH" [OF _ wf [symmetric] refl] "1.prems" wf show ?case
    by (auto simp: write_loop.simps [of os w fd b] split: if_splits)
qed

lemma handle_connection_writable_ok:
  assumes "loop_ok cfg cap el"
  shows "loop_ok cfg cap (handle_connection_writable os el i)"
proof (cases "find_current (el_connections el) i")
  case None
  with assms show ?thesis by (simp add: handle_connection_writable_def)
next
  case (Some c)
  obtain ok b w where wl: "write_loop os (el_world el) (cn_fd c) (cn_output c) = (ok, b, w)"
    by (cases "write_loop os (el_world el) (cn_fd c) (cn_output c)")
  let ?el = "put_back (el\<lparr>el_world := w\<rparr>) (c\<lparr>cn_output := b\<rparr>)"
  have "conn_ok cfg c" using loop_ok_conn [OF assms Some] by simp
  with write_loop_ok [OF wl] have "loop_ok cfg cap ?el"
    by (intro loop_ok_put) (auto simp: assms conn_ok_def connection_ok_def)
  then show ?thesis
    using close_connection_ok [of cfg cap ?el]
    by (simp add: handle_connection_writable_def Some wl update_epoll_interest_def Let_def)
qed

lemma handle_completion_ok:
  assumes "loop_ok cfg cap el"
  shows "loop_ok cfg cap (handle_completion os el co)"
proof (cases "find_connection (el_connections el) (co_connection_id co) (co_connection_generation co)")
  case None
  with assms show ?thesis by (simp add: handle_completion_def)
next
  case (Some c)
  have c: "conn_ok cfg c"
    using loop_ok_conn [OF assms] find_connection_current [OF Some] by blast
  obtain ok1 c1 el1 where p: "record_and_push os el c (co_sequence co) (co_response co) = (ok1, c1, el1)"
    by (cases "record_and_push os el c (co_sequence co) (co_response co)")
  obtain ok2 c2 el2 where i: "process_input os el1 c1 = (ok2, c2, el2)" by (cases "process_input os el1 c1")
  note a1 = record_and_push_ok [OF p c assms] and f1 = record_and_push_frame [OF p]
  note a2 = process_input_ok [OF i a1 [THEN conjunct1] a1 [THEN conjunct2]] and f2 = process_input_frame [OF i]
  have "loop_ok cfg cap (put_back el1 c1)" "loop_ok cfg cap (put_back el2 c2)"
    using a1 a2 f1 f2 by (auto simp: same_loop_def intro!: loop_ok_put)
  then show ?thesis
    by (auto simp: handle_completion_def Some p i intro: close_connection_ok handle_connection_writable_ok
      split: bool.splits)
qed

lemma loop_ok_completion_queue:
  "loop_ok cfg cap el \<Longrightarrow> try_pop (el_completion_queue el) = (x, q) \<Longrightarrow> loop_ok cfg cap (el\<lparr>el_completion_queue := q\<rparr>)"
  by (auto simp: loop_ok_def dest: queue_ok_try_pop)

lemma drain_completions_ok: "loop_ok cfg cap el \<Longrightarrow> loop_ok cfg cap (drain_completions os el)"
proof (induction os el rule: drain_completions.induct)
  case (1 os el)
  obtain x q where p: "try_pop (el_completion_queue el) = (x, q)" by (cases "try_pop (el_completion_queue el)")
  note ok = loop_ok_completion_queue [OF "1.prems" p]
  show ?case
  proof (cases x)
    case None
    with p "1.prems" show ?thesis by (simp add: drain_completions.simps [of os el])
  next
    case (Some co)
    from "1.IH" [OF p [symmetric] Some handle_completion_ok [OF ok]] p Some show ?thesis
      by (simp add: drain_completions.simps [of os el])
  qed
qed

lemma drain_wakeup_ok:
  assumes "drain_wakeup os el = Some el'" and "loop_ok cfg cap el"
  shows "loop_ok cfg cap el'"
proof -
  have "loop_ok cfg cap el \<longrightarrow> loop_ok cfg cap el'"
  proof (rule drain_wakeup.raw_induct [where P = "\<lambda>os el el'. loop_ok cfg cap el \<longrightarrow> loop_ok cfg cap el'", OF _ assms(1)])
    fix f :: "'a Os \<Rightarrow> 'a EventLoop \<Rightarrow> 'a EventLoop option" and os el el'
    assume IH: "\<And>os el el'. f os el = Some el' \<Longrightarrow> loop_ok cfg cap el \<longrightarrow> loop_ok cfg cap el'"
      and eq: "(case os_eventfd_read os (el_world el) (el_wakeup_fd el) of
        (more_to_read, w) \<Rightarrow> if more_to_read then f os (el\<lparr>el_world := w\<rparr>)
          else Some (drain_completions os (el\<lparr>el_world := w\<rparr>))) = Some el'"
    from eq IH show "loop_ok cfg cap el \<longrightarrow> loop_ok cfg cap el'"
      by (auto split: prod.splits if_splits intro: drain_completions_ok)
  qed
  with assms(2) show ?thesis by blast
qed

text \<open>Documented behaviour of \<^verbatim>\<open>accept4\<close>: a result that is not an error is a descriptor.\<close>

definition accept_valid :: "'w Os \<Rightarrow> bool" where
  "accept_valid os \<longleftrightarrow> (\<forall>w fd client addr w'. os_accept4 os w fd = (Inr (client, addr), w') \<longrightarrow> fd_valid client)"

lemma accept_validD: "accept_valid os \<Longrightarrow> os_accept4 os w fd = (Inr (client, addr), w') \<Longrightarrow> fd_valid client"
  unfolding accept_valid_def by blast

lemma accept_one_valid:
  assumes "accept_one os w fd = Some (Inr (Some a), w')" and "accept_valid os"
  shows "fd_valid (ac_fd a)"
proof -
  have "accept_valid os \<longrightarrow> (\<forall>a w'. (Inr (Some a), w') = r \<longrightarrow> fd_valid (ac_fd a))"
    if "accept_one os w fd = Some r" for r
  proof (rule accept_one.raw_induct [where
        P = "\<lambda>os w fd r. accept_valid os \<longrightarrow> (\<forall>a w'. (Inr (Some a), w') = r \<longrightarrow> fd_valid (ac_fd a))", OF _ that])
    fix f :: "'a Os \<Rightarrow> 'a \<Rightarrow> int \<Rightarrow> ((fault + AcceptedClient option) \<times> 'a) option" and os w fd r
    assume IH: "\<And>os w fd r. f os w fd = Some r \<Longrightarrow>
        accept_valid os \<longrightarrow> (\<forall>a w'. (Inr (Some a), w') = r \<longrightarrow> fd_valid (ac_fd a))"
      and eq: "(case os_accept4 os w fd of
        (Inl e, w') \<Rightarrow>
          if e = EAGAIN \<or> e = EWOULDBLOCK then Some (Inr None, w')
          else if e = EINTR \<or> e = ECONNABORTED then f os w' fd
          else Some (Inl (throw_errno e ''Listener: accept4() failed''), w')
      | (Inr (client_fd, addr), w') \<Rightarrow>
          Some (Inr (Some \<lparr>ac_fd = client_fd, ac_peer_address =
            os_inet_ntop os (sa_addr addr) @ '':'' @ nat_to_string (unat (sa_port addr))\<rparr>), w')) = Some r"
    from eq show "accept_valid os \<longrightarrow> (\<forall>a w'. (Inr (Some a), w') = r \<longrightarrow> fd_valid (ac_fd a))"
      by (auto split: prod.splits sum.splits if_splits dest: IH accept_validD)
  qed
  with assms show ?thesis by blast
qed

lemma loop_ok_add:
  assumes "loop_ok cfg cap el" and "fd_valid fd"
    and "registry_add (el_connections el) fd peer (ec_max_input_bytes (el_config el))
      (ec_max_output_bytes (el_config el)) = Inr (c, cl, r)"
  shows "loop_ok cfg cap (el\<lparr>el_connections := r\<rparr>)"
proof -
  have "make_connection fd (cr_next_generation (el_connections el)) fd peer
      (ec_max_input_bytes (el_config el)) (ec_max_output_bytes (el_config el)) = Inr c"
    using assms(3) by (auto simp: registry_add_def Let_def split: prod.splits sum.splits)
  moreover have "el_config el = cfg" using assms(1) by (simp add: loop_ok_def)
  ultimately have "conn_ok cfg c" using assms(2)
    by (auto simp: make_connection_def conn_ok_def connection_ok_def dest!: make_buffer_ok split: sum.splits)
  with assms(1) registry_add_Inr(1,2) [OF assms(3)] show ?thesis
    by (auto simp: loop_ok_def find_current_def)
qed

lemma admit_client_ok:
  assumes "admit_client os el a = Inr el'" and "loop_ok cfg cap el" and "fd_valid (ac_fd a)"
  shows "loop_ok cfg cap el'"
proof -
  from assms(1) obtain c cl r where add: "registry_add (el_connections el) (ac_fd a) (ac_peer_address a)
      (ec_max_input_bytes (el_config el)) (ec_max_output_bytes (el_config el)) = Inr (c, cl, r)"
    by (auto simp: admit_client_def split: sum.splits)
  have ok: "loop_ok cfg cap (el\<lparr>el_connections := r\<rparr>)" by (rule loop_ok_add [OF assms(2,3) add])
  obtain res w where e: "os_epoll_add os (close_all os (el_world el) cl) (el_epoll_fd el) (ac_fd a) = (res, w)"
    by (cases "os_epoll_add os (close_all os (el_world el) cl) (el_epoll_fd el) (ac_fd a)")
  obtain b cl' r' where cl: "registry_close r (cn_id c) (cn_generation c) = (b, cl', r')"
    by (cases "registry_close r (cn_id c) (cn_generation c)") auto
  let ?el = "warn os (el\<lparr>el_connections := r, el_world := w\<rparr>)
    ''resource limit: epoll_ctl(ADD) failed for a new connection, dropping it''"
  have "loop_ok cfg cap (?el\<lparr>el_connections := r'\<rparr>)"
    using ok cl by (intro loop_ok_erase [of cfg cap ?el "cn_id c" "cn_generation c" b cl' r']) (simp_all add: warn_def split: option.splits)
  with assms(1) add e cl ok show ?thesis
    by (auto simp: admit_client_def Let_def split: sum.splits)
qed

lemma handle_listener_readable_ok:
  assumes "handle_listener_readable os el = Some (Inr el')" and "loop_ok cfg cap el" and "accept_valid os"
  shows "loop_ok cfg cap el'"
proof -
  let ?P = "\<lambda>os el res. accept_valid os \<longrightarrow> loop_ok cfg cap el \<longrightarrow> (\<forall>el'. res = Inr el' \<longrightarrow> loop_ok cfg cap el')"
  have "?P os el res" if "handle_listener_readable os el = Some res" for res
  proof (rule handle_listener_readable.raw_induct [where P = ?P, OF _ that])
    fix f :: "'a Os \<Rightarrow> 'a EventLoop \<Rightarrow> (fault + 'a EventLoop) option" and os el res
    assume IH: "\<And>os el res. f os el = Some res \<Longrightarrow> ?P os el res"
      and eq: "(case accept_one os (el_world el) (el_listener el) of
        None \<Rightarrow> None
      | Some (result, w) \<Rightarrow>
          (case result of
             Inl f \<Rightarrow> Some (Inl f)
           | Inr None \<Rightarrow> Some (Inr (el\<lparr>el_world := w\<rparr>))
           | Inr (Some accepted) \<Rightarrow>
               (case admit_client os (el\<lparr>el_world := w\<rparr>) accepted of
                  Inl f \<Rightarrow> Some (Inl f)
                | Inr el' \<Rightarrow> f os el'))) = Some res"
    show "?P os el res"
    proof (cases "accept_one os (el_world el) (el_listener el)")
      case (Some r)
      obtain result w where r: "r = (result, w)" by (cases r)
      show ?thesis
      proof (cases result)
        case (Inr a)
        show ?thesis
        proof (cases a)
          case None
          with eq Some r Inr show ?thesis by auto
        next
          case (Some a')
          show ?thesis
          proof (cases "admit_client os (el\<lparr>el_world := w\<rparr>) a'")
            case admitted: (Inr el1)
            have "loop_ok cfg cap el1" if "accept_valid os" "loop_ok cfg cap el"
              using admit_client_ok [OF admitted] accept_one_valid [of os "el_world el" "el_listener el" a' w]
                that Some r Inr \<open>accept_one os (el_world el) (el_listener el) = Some r\<close> by simp
            moreover from eq Some r Inr admitted \<open>accept_one os (el_world el) (el_listener el) = Some r\<close>
            have "f os el1 = Some res" by simp
            ultimately show ?thesis using IH by blast
          qed (use eq Some r Inr \<open>accept_one os (el_world el) (el_listener el) = Some r\<close> in auto)
        qed
      qed (use eq Some r in auto)
    qed (use eq in simp)
  qed
  with assms show ?thesis by blast
qed

lemma read_loop_ok:
  assumes "read_loop os el c = Some (b, c', el')" and "conn_ok cfg c" and "loop_ok cfg cap el"
  shows "conn_ok cfg c' \<and> loop_ok cfg cap el' \<and> same_peer c c' \<and> same_loop el el'"
proof -
  let ?P = "\<lambda>os el c res. conn_ok cfg c \<longrightarrow> loop_ok cfg cap el \<longrightarrow> (\<forall>b c' el'. res = (b, c', el') \<longrightarrow>
    conn_ok cfg c' \<and> loop_ok cfg cap el' \<and> same_peer c c' \<and> same_loop el el')"
  have "?P os el c res" if "read_loop os el c = Some res" for res
  proof (rule read_loop.raw_induct [where P = ?P, OF _ that])
    fix f :: "'a Os \<Rightarrow> 'a EventLoop \<Rightarrow> Connection \<Rightarrow> (bool \<times> Connection \<times> 'a EventLoop) option" and os el c res
    assume IH: "\<And>os el c res. f os el c = Some res \<Longrightarrow> ?P os el c res"
      and eq: "(case read_into os (el_world el) (cn_fd c) (cn_input c) of
        (outcome, input, w) \<Rightarrow>
          let c1 = c\<lparr>cn_input := input\<rparr>; el1 = el\<lparr>el_world := w\<rparr> in
          if ro_status outcome = ReadSome then
            (case process_input os el1 c1 of
               (ok, c2, el2) \<Rightarrow> if ok then f os el2 c2 else Some (False, c2, el2))
          else if ro_status outcome = ReadWouldBlock then Some (True, c1, el1)
          else Some (False, c1,
            if ro_status outcome = ReadBufferFull
            then warn os el1 ''resource limit: connection input buffer cap exceeded, closing connection''
            else el1)) = Some res"
    show "?P os el c res"
    proof (intro impI)
      assume c: "conn_ok cfg c" and el: "loop_ok cfg cap el"
      obtain oc input w where ri: "read_into os (el_world el) (cn_fd c) (cn_input c) = (oc, input, w)"
        by (cases "read_into os (el_world el) (cn_fd c) (cn_input c)")
      let ?c = "c\<lparr>cn_input := input\<rparr>" and ?el = "el\<lparr>el_world := w\<rparr>"
      have c1: "conn_ok cfg ?c" using c read_into_ok [OF _ ri] by (auto simp: conn_ok_def connection_ok_def)
      obtain ok c2 el2 where pi: "process_input os ?el ?c = (ok, c2, el2)" by (cases "process_input os ?el ?c")
      have "same_loop el el2" "same_peer c c2"
        using process_input_frame [OF pi] by (simp_all add: frame_defs)
      then show "\<forall>b c' el'. res = (b, c', el') \<longrightarrow>
          conn_ok cfg c' \<and> loop_ok cfg cap el' \<and> same_peer c c' \<and> same_loop el el'"
        using eq ri pi c1 el process_input_ok [OF pi c1] IH [of os el2 c2 res]
        by (auto simp: Let_def split: if_splits elim: same_trans)
    qed
  qed
  with assms show ?thesis by blast
qed

lemma handle_connection_readable_ok:
  assumes "handle_connection_readable os el i = Some el'" and "loop_ok cfg cap el"
  shows "loop_ok cfg cap el'"
proof (cases "find_current (el_connections el) i")
  case None
  with assms show ?thesis by (simp add: handle_connection_readable_def)
next
  case (Some c)
  with assms(1) obtain b c1 el1 where r: "read_loop os el c = Some (b, c1, el1)"
    and el': "el' = (if b then handle_connection_writable os (put_back el1 c1) i
      else close_connection os (put_back el1 c1) i (cn_generation c))"
    by (auto simp: handle_connection_readable_def split: option.splits bool.splits)
  have "loop_ok cfg cap (put_back el1 c1)"
    using read_loop_ok [OF r _ assms(2)] loop_ok_conn [OF assms(2) Some]
    by (intro loop_ok_put) (auto simp: same_loop_def)
  then show ?thesis by (simp add: el' close_connection_ok handle_connection_writable_ok)
qed

lemma handle_event_ok:
  assumes "handle_event os el ev = Some (Inr el')" and "loop_ok cfg cap el" and "accept_valid os"
  shows "loop_ok cfg cap el'"
  using assms
  by (auto simp: handle_event_def Let_def split: if_splits option.splits
      intro: drain_wakeup_ok handle_listener_readable_ok close_connection_ok handle_connection_readable_ok
        handle_connection_writable_ok)

lemma handle_events_ok:
  "handle_events os el evs = Some (Inr el') \<Longrightarrow> loop_ok cfg cap el \<Longrightarrow> accept_valid os \<Longrightarrow> loop_ok cfg cap el'"
  by (induction os el evs rule: handle_events.induct)
    (auto split: option.splits sum.splits dest: handle_event_ok)

subsection \<open>Reachable states\<close>

text \<open>
  The states of the event loop between two events, with everything that can happen to the
  shared state meanwhile: workers take items from the work queue and push completions, the work
  queue is closed, a stop is requested, and the outside world moves on.
\<close>

inductive other_step :: "'w Os \<Rightarrow> 'w EventLoop \<Rightarrow> 'w EventLoop \<Rightarrow> bool" for os where
  other_pop: "pop (el_work_queue el) stop_requested = Some (status, item, q) \<Longrightarrow>
    other_step os el (el\<lparr>el_work_queue := q\<rparr>)"
| other_push: "push (el_completion_queue el) completion = Some (status, q, cb) \<Longrightarrow>
    other_step os el (run_callback os cb (el\<lparr>el_completion_queue := q\<rparr>))"
| other_close: "other_step os el (el\<lparr>el_work_queue := close_queue (el_work_queue el)\<rparr>)"
| other_stop: "other_step os el (stop os el)"
| other_world: "other_step os el (el\<lparr>el_world := w\<rparr>)"

inductive loop_reachable :: "'w Os \<Rightarrow> EventLoopConfig \<Rightarrow> nat \<Rightarrow> 'w EventLoop \<Rightarrow> bool" for os cfg capacity where
  loop_start: "make_queue capacity = Inr wq \<Longrightarrow> make_queue capacity = Inr cq \<Longrightarrow>
    make_event_loop os cfg logger wq cq w = (Inr el, w') \<Longrightarrow> loop_reachable os cfg capacity el"
| loop_event: "loop_reachable os cfg capacity el \<Longrightarrow> handle_event os el ev = Some (Inr el') \<Longrightarrow>
    loop_reachable os cfg capacity el'"
| loop_other: "loop_reachable os cfg capacity el \<Longrightarrow> other_step os el el' \<Longrightarrow>
    loop_reachable os cfg capacity el'"

lemma make_queue_ok: "make_queue cap = Inr q \<Longrightarrow> queue_ok q \<and> bq_capacity q = cap"
  by (auto simp: make_queue_def queue_ok_def split: if_splits)

lemma make_event_loop_ok:
  assumes "make_event_loop os cfg logger wq cq w = (Inr el, w')"
    and "make_queue cap = Inr wq" and "make_queue cap = Inr cq"
  shows "loop_ok cfg cap el"
proof -
  from assms(1) have "el_connections el = empty_registry \<and> el_config el = cfg \<and> el_work_queue el = wq \<and>
    el_completion_queue el = set_on_push cq (Some WakeEventLoop)"
    by (auto simp: make_event_loop_def Let_def split: prod.splits sum.splits)
  with make_queue_ok [OF assms(2)] make_queue_ok [OF assms(3)] show ?thesis
    by (auto simp: loop_ok_def empty_registry_def find_current_def set_on_push_def queue_ok_def)
qed

lemma other_step_ok: "other_step os el el' \<Longrightarrow> loop_ok cfg cap el \<Longrightarrow> loop_ok cfg cap el'"
  by (induction rule: other_step.induct)
    (auto simp: loop_ok_def stop_def wake_def run_callback_def pop_eq push_eq close_queue_def queue_ok_def
      try_pop_def try_push_def split: if_splits option.splits prod.splits list.splits callback.splits)

lemma loop_reachable_ok: "loop_reachable os cfg cap el \<Longrightarrow> accept_valid os \<Longrightarrow> loop_ok cfg cap el"
  by (induction rule: loop_reachable.induct)
    (auto intro: make_event_loop_ok handle_event_ok other_step_ok)

text \<open>The reactor only visits such states.\<close>

lemma handle_events_reachable:
  "handle_events os el evs = Some (Inr el') \<Longrightarrow> loop_reachable os cfg cap el \<Longrightarrow> loop_reachable os cfg cap el'"
  by (induction os el evs rule: handle_events.induct)
    (auto split: option.splits sum.splits intro: loop_event)

text \<open>
  C6. Memory is bounded by the configuration at all times: in every reachable state of the
  event loop, under every behaviour of the network, of the operating system and of the worker
  threads, each connection's unread input and unsent output stay within their caps, both queues
  within their capacity, and each connection is registered under its own descriptor.
\<close>

theorem event_loop_caps:
  assumes "loop_reachable os cfg cap el" and "accept_valid os"
    and "find_current (el_connections el) i = Some c"
  shows "length (bb_data (cn_input c)) \<le> ec_max_input_bytes cfg \<and>
    length (bb_data (cn_output c)) \<le> ec_max_output_bytes cfg \<and>
    cn_id c = i \<and> cn_fd c = i \<and>
    queue_size (el_work_queue el) \<le> cap \<and> queue_size (el_completion_queue el) \<le> cap"
proof -
  note ok = loop_reachable_ok [OF assms(1,2)]
  from loop_ok_conn [OF ok assms(3)] ok show ?thesis
    by (auto simp: loop_ok_def conn_ok_def connection_ok_def buffer_ok_def queue_ok_def queue_size_def)
qed

text \<open>A loop that has just accepted its first client, on the scripted operating system.\<close>

definition demo_config :: EventLoopConfig where
  "demo_config = default_event_loop_config\<lparr>ec_max_input_bytes := 64, ec_max_output_bytes := 64,
     ec_max_in_flight_per_connection := 1\<rparr>"

definition new_queue :: "nat \<Rightarrow> ('a, 'cb) BoundedQueue" where
  "new_queue capacity = \<lparr>bq_items = [], bq_capacity = capacity, bq_closed = False, bq_on_push = None\<rparr>"

definition demo_start :: "Script \<Rightarrow> Script EventLoop" where
  "demo_start w = projr (fst (make_event_loop script_os demo_config None (new_queue 2) (new_queue 2) w))"

definition listener_event :: EpollEvent where
  "listener_event = \<lparr>ev_fd = 3, ev_in = True, ev_out = False, ev_hup_err = False\<rparr>"

definition demo_loop :: "Script EventLoop" where
  "demo_loop = projr (the (handle_event script_os (demo_start (no_script\<lparr>sc_accept := [7]\<rparr>)) listener_event))"

definition returns :: "(fault + 'a) option \<Rightarrow> bool" where
  "returns r \<longleftrightarrow> (case r of None \<Rightarrow> False | Some (Inl f) \<Rightarrow> False | Some (Inr x) \<Rightarrow> True)"

lemma returnsD: "returns r \<Longrightarrow> r = Some (Inr (projr (the r)))"
  by (auto simp: returns_def split: option.splits sum.splits)

lemma demo_start_reachable: "loop_reachable script_os demo_config 2 (demo_start w)"
proof -
  have q: "make_queue 2 = Inr (new_queue 2)" by (simp add: make_queue_def new_queue_def)
  obtain el w' where e: "make_event_loop script_os demo_config None (new_queue 2) (new_queue 2) w = (Inr el, w')"
    by (simp add: make_event_loop_def make_listener_def script_os_def epoll_add_def fd_of_def fd_move_assign_def
      fd_release_def fd_reset_def Let_def demo_config_def default_event_loop_config_def default_listener_config_def)
  then have "demo_start w = el" by (simp add: demo_start_def)
  with loop_start [OF q q e] show ?thesis by simp
qed

lemma demo_loop_reachable: "loop_reachable script_os demo_config 2 demo_loop"
proof -
  have "returns (handle_event script_os (demo_start (no_script\<lparr>sc_accept := [7]\<rparr>)) listener_event)"
    by code_simp
  from loop_event [OF demo_start_reachable returnsD [OF this]] show ?thesis by (simp add: demo_loop_def)
qed

lemma script_accept_valid: "accept_valid script_os"
  by (auto simp: accept_valid_def script_os_def fd_valid_def split: list.splits)

lemma demo_loop_connection: "\<exists>c. find_current (el_connections demo_loop) 7 = Some c"
proof -
  have "find_current (el_connections demo_loop) 7 \<noteq> None" by code_simp
  then show ?thesis by blast
qed

theorem event_loop_caps_witness:
  "\<exists>c. loop_reachable script_os demo_config 2 demo_loop \<and> accept_valid script_os \<and>
     find_current (el_connections demo_loop) 7 = Some c \<and>
     length (bb_data (cn_input c)) \<le> ec_max_input_bytes demo_config \<and> cn_fd c = 7 \<and>
     queue_size (el_work_queue demo_loop) \<le> 2"
proof -
  obtain c where c: "find_current (el_connections demo_loop) 7 = Some c" using demo_loop_connection by blast
  show ?thesis
    using event_loop_caps [OF demo_loop_reachable script_accept_valid c] demo_loop_reachable
      script_accept_valid c by blast
qed

end
