(* ===== verification/Event_Loop_Behaviour.thy ===== *)
theory Event_Loop_Behaviour
  imports Event_Loop_Safety
begin

text \<open>
  What single handlers of the event loop do: parsing runs until nothing more can be parsed,
  writing sends the output in order, reading and accepting end, failures of the operating system
  come out as exceptions; and two scenarios in which a connection is lost that did nothing wrong.
\<close>

subsection \<open>Parsing\<close>

lemma process_one_returns_True:
  "process_one os el c = (Some True, c', el') \<Longrightarrow> c' = c \<and> el' = el \<and>
   (ec_max_in_flight_per_connection (el_config el) \<le> unat (in_flight_count (cn_sequencer c)) \<or>
    parse_command (bb_data (cn_input c)) = NeedMoreData)"
  by (auto simp: process_one_def Let_def split: if_splits prod.splits ParseResult.splits)

text \<open>
  C29. Parsing a connection's input ends, and it ends as late as possible: when it leaves the
  connection open, either the connection has reached its limit of requests in flight, or what
  is left in the buffer is not a complete request; no complete request is left behind.
\<close>

theorem process_input_exhaustive:
  assumes "process_input os el c = (True, c', el')"
  shows "ec_max_in_flight_per_connection (el_config el) \<le> unat (in_flight_count (cn_sequencer c')) \<or>
    parse_command (bb_data (cn_input c')) = NeedMoreData"
  using assms
proof (induction os el c rule: process_input.induct)
  case (1 os el c)
  obtain r1 c1 el1 where s: "process_one os el c = (r1, c1, el1)" by (cases "process_one os el c")
  have cfg: "el_config el1 = el_config el" using process_one_frame [OF s] by (simp add: same_loop_def)
  show ?case
  proof (cases r1)
    case None
    with "1.prems" s have "process_input os el1 c1 = (True, c', el')"
      by (simp add: process_input.simps [of os el c])
    from "1.IH" [OF s [symmetric] None refl this] cfg show ?thesis by simp
  next
    case (Some b)
    with "1.prems" s have "process_one os el c = (Some True, c', el')"
      by (simp add: process_input.simps [of os el c])
    then show ?thesis using process_one_returns_True by blast
  qed
qed

theorem process_input_exhaustive_witness:
  "\<exists>c c' el'. find_current (el_connections demo_loop) 7 = Some c \<and>
     process_input script_os demo_loop (c\<lparr>cn_input := (cn_input c)\<lparr>bb_data := ping_frame @ ping_frame\<rparr>\<rparr>) =
       (True, c', el') \<and> bb_data (cn_input c') = ping_frame \<and>
     ec_max_in_flight_per_connection (el_config demo_loop) \<le> unat (in_flight_count (cn_sequencer c'))"
proof -
  obtain c where c: "find_current (el_connections demo_loop) 7 = Some c" using demo_loop_connection by blast
  let ?c = "c\<lparr>cn_input := (cn_input c)\<lparr>bb_data := ping_frame @ ping_frame\<rparr>\<rparr>"
  obtain r c' el' where p: "process_input script_os demo_loop ?c = (r, c', el')"
    by (cases "process_input script_os demo_loop ?c")
  have "(case find_current (el_connections demo_loop) 7 of None \<Rightarrow> False | Some c \<Rightarrow>
    (case process_input script_os demo_loop (c\<lparr>cn_input := (cn_input c)\<lparr>bb_data := ping_frame @ ping_frame\<rparr>\<rparr>) of
      (r, c', el') \<Rightarrow> r \<and> bb_data (cn_input c') = ping_frame))"
    by code_simp
  with c p have r: r and "bb_data (cn_input c') = ping_frame" by simp_all
  then have rest: "bb_data (cn_input c') = ping_frame" "parse_command (bb_data (cn_input c')) \<noteq> NeedMoreData"
    by (simp_all add: parse_ping_frame)
  from process_input_exhaustive [of script_os demo_loop ?c c' el'] p r rest c show ?thesis by auto
qed

subsection \<open>Writing\<close>

text \<open>
  Documented behaviour of \<^verbatim>\<open>send\<close>, over the bytes \<open>sent w fd\<close> that the peer of \<open>fd\<close> will receive:
  a call that accepts \<open>n\<close> bytes adds the first \<open>n\<close> bytes it was given, one that fails adds nothing.
\<close>

definition send_appends :: "'w Os \<Rightarrow> ('w \<Rightarrow> int \<Rightarrow> string) \<Rightarrow> bool" where
  "send_appends os sent \<longleftrightarrow> (\<forall>w fd ds r w'. os_send os w fd ds = (r, w') \<longrightarrow>
     sent w' fd = sent w fd @ (case r of Inl e \<Rightarrow> [] | Inr n \<Rightarrow> take n ds))"

lemma write_from_sent:
  assumes "send_appends os sent" and "write_from os w fd b = (r, b', w')"
  shows "sent w' fd @ bb_data b' = sent w fd @ bb_data b"
proof (cases "bb_data b = []")
  case True
  with assms(2) show ?thesis by (auto simp: write_from_def)
next
  case False
  obtain res w1 where s: "os_send os w fd (bb_data b) = (res, w1)" by (cases "os_send os w fd (bb_data b)")
  with assms(1) have "sent w1 fd = sent w fd @ (case res of Inl e \<Rightarrow> [] | Inr n \<Rightarrow> take n (bb_data b))"
    unfolding send_appends_def by blast
  with False assms(2) s show ?thesis
    by (cases res) (auto simp: write_from_def split: if_splits)
qed

text \<open>
  Writing is lossless and in order: however the operating system splits or refuses the
  writes, what the peer has received followed by what is still buffered is what it was before;
  the loop ends, and it reports success with data left only when the last call would block.
\<close>

theorem write_loop_in_order:
  assumes "send_appends os sent" and "write_loop os w fd b = (ok, b', w')"
  shows "sent w' fd @ bb_data b' = sent w fd @ bb_data b \<and>
    (ok \<and> bb_data b' \<noteq> [] \<longrightarrow> (\<exists>w1. wo_status (fst (write_from os w1 fd b')) = WriteWouldBlock))"
  using assms
proof (induction os w fd b rule: write_loop.induct)
  case (1 os w fd b)
  show ?case
  proof (cases "bb_data b = []")
    case True
    with "1.prems"(2) show ?thesis by (simp add: write_loop.simps [of os w fd b])
  next
    case False
    obtain oc b1 w1 where wf: "write_from os w fd b = (oc, b1, w1)" by (cases "write_from os w fd b")
    note sent = write_from_sent [OF "1.prems"(1) wf]
    show ?thesis
    proof (cases "wo_status oc = WroteSome")
      case True
      with "1.prems"(2) False wf have "write_loop os w1 fd b1 = (ok, b', w')"
        by (simp add: write_loop.simps [of os w fd b])
      from "1.IH" [OF False wf [symmetric] refl True "1.prems"(1) this] sent show ?thesis by simp
    next
      case unfinished: False
      with "1.prems"(2) False wf have "b' = b1" "w' = w1" "ok \<longleftrightarrow> wo_status oc = WriteWouldBlock"
        by (auto simp: write_loop.simps [of os w fd b] split: if_splits)
      moreover from unfinished wf False have "b1 = b"
        by (auto simp: write_from_def split: if_splits prod.splits sum.splits)
      ultimately show ?thesis using sent wf by (metis fst_conv)
    qed
  qed
qed

lemma script_send_appends:
  "send_appends script_os (\<lambda>w fd. concat (map snd (filter (\<lambda>(fd', ds). fd' = fd) (sc_sent w))))"
  by (auto simp: send_appends_def script_os_def)

theorem write_loop_in_order_witness:
  "\<exists>ok b' w'. write_loop script_os no_script 7 \<lparr>bb_data = ''+PONG'', bb_capacity = 9\<rparr> = (ok, b', w') \<and>
     concat (map snd (filter (\<lambda>(fd, ds). fd = 7) (sc_sent w'))) @ bb_data b' = ''+PONG'' \<and> bb_data b' = []"
proof -
  let ?b = "\<lparr>bb_data = ''+PONG'', bb_capacity = 9\<rparr>"
  obtain ok b' w' where l: "write_loop script_os no_script 7 ?b = (ok, b', w')"
    by (cases "write_loop script_os no_script 7 ?b")
  have "bb_data (fst (snd (write_loop script_os no_script 7 ?b))) = []" by code_simp
  with l write_loop_in_order [OF script_send_appends l] show ?thesis by (simp add: no_script_def)
qed

subsection \<open>Loops that depend on the operating system\<close>

text \<open>
  Documented behaviour of a socket that is read: the bytes waiting to be read are finite, and
  reading some leaves fewer. \<open>avail w\<close> counts them; waking the event loop adds none.
\<close>

definition recv_drains :: "'w Os \<Rightarrow> ('w \<Rightarrow> nat) \<Rightarrow> bool" where
  "recv_drains os avail \<longleftrightarrow>
     (\<forall>w fd n ds w'. os_recv os w fd n = (Inr ds, w') \<longrightarrow> ds \<noteq> [] \<longrightarrow> avail w' < avail w) \<and>
     (\<forall>w fd. avail (os_eventfd_write os w fd) \<le> avail w)"

lemma warn_world [simp]: "el_world (warn os el m) = el_world el"
  by (simp add: warn_def split: option.splits)

lemma push_responses_world: "push_responses os el c ready = (ok, c', el') \<Longrightarrow> el_world el' = el_world el"
  by (induction os el c ready rule: push_responses.induct) (auto split: prod.splits bool.splits)

lemma process_one_avail:
  assumes "recv_drains os avail" and "process_one os el c = (r, c', el')"
  shows "avail (el_world el') \<le> avail (el_world el)"
proof -
  have cb: "avail (el_world (run_callback os cb el1)) \<le> avail (el_world el1)" for cb el1
    using assms(1) by (auto simp: recv_drains_def run_callback_def wake_def split: option.splits callback.splits)
  show ?thesis using assms(2) cb [of _ "el\<lparr>el_work_queue := _\<rparr>"]
    by (auto simp: process_one_def record_and_push_def Let_def split: if_splits prod.splits ParseResult.splits
      dest!: push_responses_world)
qed

lemma process_input_avail:
  "process_input os el c = (r, c', el') \<Longrightarrow> recv_drains os avail \<Longrightarrow> avail (el_world el') \<le> avail (el_world el)"
proof (induction os el c rule: process_input.induct)
  case (1 os el c)
  obtain r1 c1 el1 where s: "process_one os el c = (r1, c1, el1)" by (cases "process_one os el c")
  note le = process_one_avail [OF "1.prems"(2) s]
  show ?case
  proof (cases r1)
    case None
    with "1.prems"(1) s have "process_input os el1 c1 = (r, c', el')"
      by (simp add: process_input.simps [of os el c])
    from "1.IH" [OF s [symmetric] None refl this "1.prems"(2)] le show ?thesis by simp
  next
    case (Some b)
    with "1.prems"(1) s le show ?thesis by (simp add: process_input.simps [of os el c])
  qed
qed

lemma read_into_drains:
  "recv_drains os avail \<Longrightarrow> read_into os w fd b = (oc, b', w') \<Longrightarrow> ro_status oc = ReadSome \<Longrightarrow> avail w' < avail w"
  by (auto simp: read_into_def recv_drains_def Let_def split: if_splits prod.splits sum.splits)

lemma read_loop_returns:
  assumes "recv_drains os avail"
  shows "\<exists>r. read_loop os el c = Some r"
proof (induction "avail (el_world el)" arbitrary: el c rule: less_induct)
  case less
  obtain oc input w where ri: "read_into os (el_world el) (cn_fd c) (cn_input c) = (oc, input, w)"
    by (cases "read_into os (el_world el) (cn_fd c) (cn_input c)")
  obtain ok c2 el2 where pi: "process_input os (el\<lparr>el_world := w\<rparr>) (c\<lparr>cn_input := input\<rparr>) = (ok, c2, el2)"
    by (cases "process_input os (el\<lparr>el_world := w\<rparr>) (c\<lparr>cn_input := input\<rparr>)")
  have "avail (el_world el2) < avail (el_world el)" if "ro_status oc = ReadSome"
    using read_into_drains [OF assms ri that] process_input_avail [OF pi assms] by simp
  with less.hyps [of el2 c2] ri pi show ?case
    by (auto simp: read_loop.simps [of os el c] Let_def)
qed

text \<open>
  The same for clients waiting to be accepted (an interrupted or aborted attempt counts as
  progress too) and for the event counter.
\<close>

definition accept_drains :: "'w Os \<Rightarrow> ('w \<Rightarrow> nat) \<Rightarrow> bool" where
  "accept_drains os waiting \<longleftrightarrow>
     (\<forall>w fd r w'. os_accept4 os w fd = (r, w') \<longrightarrow>
        waiting w' \<le> waiting w \<and> (r \<notin> {Inl EAGAIN, Inl EWOULDBLOCK} \<longrightarrow> waiting w' < waiting w)) \<and>
     (\<forall>w ep fd. waiting (snd (os_epoll_add os w ep fd)) \<le> waiting w) \<and>
     (\<forall>w fd. waiting (os_close os w fd) \<le> waiting w)"

definition eventfd_drains :: "'w Os \<Rightarrow> ('w \<Rightarrow> nat) \<Rightarrow> bool" where
  "eventfd_drains os ticks \<longleftrightarrow> (\<forall>w fd w'. os_eventfd_read os w fd = (True, w') \<longrightarrow> ticks w' < ticks w)"

lemma drain_wakeup_returns:
  assumes "eventfd_drains os ticks"
  shows "\<exists>el'. drain_wakeup os el = Some el'"
proof (induction "ticks (el_world el)" arbitrary: el rule: less_induct)
  case less
  obtain b w where r: "os_eventfd_read os (el_world el) (el_wakeup_fd el) = (b, w)"
    by (cases "os_eventfd_read os (el_world el) (el_wakeup_fd el)")
  have "ticks w < ticks (el_world el)" if b using assms r that unfolding eventfd_drains_def by simp
  with less.hyps [of "el\<lparr>el_world := w\<rparr>"] r show ?case by (simp add: drain_wakeup.simps [of os el])
qed

lemma accept_one_returns:
  assumes "accept_drains os waiting"
  shows "\<exists>r w'. accept_one os w fd = Some (r, w') \<and> waiting w' \<le> waiting w \<and>
    (\<forall>a. r = Inr (Some a) \<longrightarrow> waiting w' < waiting w)"
proof (induction "waiting w" arbitrary: w rule: less_induct)
  case less
  obtain res w1 where a: "os_accept4 os w fd = (res, w1)" by (cases "os_accept4 os w fd")
  from assms a have le: "waiting w1 \<le> waiting w"
    and lt: "res \<notin> {Inl EAGAIN, Inl EWOULDBLOCK} \<Longrightarrow> waiting w1 < waiting w"
    unfolding accept_drains_def by blast+
  show ?case
  proof (cases res)
    case (Inl e)
    show ?thesis
    proof (cases "e = EINTR \<or> e = ECONNABORTED")
      case True
      then have "waiting w1 < waiting w" using lt Inl by auto
      from less.hyps [OF this] this True a Inl show ?thesis
        by (auto simp: accept_one.simps [of os w fd])
    next
      case False
      with a Inl le show ?thesis by (simp add: accept_one.simps [of os w fd])
    qed
  next
    case (Inr p)
    with a lt show ?thesis by (cases p) (simp add: accept_one.simps [of os w fd])
  qed
qed

lemma close_all_waiting:
  "accept_drains os waiting \<Longrightarrow> waiting (close_all os w fds) \<le> waiting w"
proof (induction fds arbitrary: w)
  case (Cons fd fds)
  have "waiting (os_close os w fd) \<le> waiting w" using Cons.prems by (simp add: accept_drains_def)
  with Cons.IH [OF Cons.prems, of "os_close os w fd"] show ?case by (simp add: close_all_def)
qed (simp add: close_all_def)

lemma admit_client_waiting:
  assumes "accept_drains os waiting" and "admit_client os el a = Inr el'"
  shows "waiting (el_world el') \<le> waiting (el_world el)"
proof -
  have add: "waiting (snd (os_epoll_add os w ep fd)) \<le> waiting w" for w ep fd
    using assms(1) by (simp add: accept_drains_def)
  obtain c cl r where reg: "registry_add (el_connections el) (ac_fd a) (ac_peer_address a)
      (ec_max_input_bytes (el_config el)) (ec_max_output_bytes (el_config el)) = Inr (c, cl, r)"
    using assms(2) by (auto simp: admit_client_def split: sum.splits)
  obtain res w where e: "os_epoll_add os (close_all os (el_world el) cl) (el_epoll_fd el) (ac_fd a) = (res, w)"
    by (cases "os_epoll_add os (close_all os (el_world el) cl) (el_epoll_fd el) (ac_fd a)")
  have w: "waiting w \<le> waiting (el_world el)"
    using add [of "close_all os (el_world el) cl" "el_epoll_fd el" "ac_fd a"]
      close_all_waiting [OF assms(1), of "el_world el" cl] e by simp
  obtain b cl' r' where cl: "registry_close r (cn_id c) (cn_generation c) = (b, cl', r')"
    by (cases "registry_close r (cn_id c) (cn_generation c)") auto
  show ?thesis
    using assms(2) reg e cl w close_all_waiting [OF assms(1), of w cl']
    by (auto simp: admit_client_def Let_def split: sum.splits)
qed

lemma handle_listener_readable_returns:
  assumes "accept_drains os waiting"
  shows "\<exists>r. handle_listener_readable os el = Some r"
proof (induction "waiting (el_world el)" arbitrary: el rule: less_induct)
  case less
  from accept_one_returns [OF assms, of "el_world el" "el_listener el"]
  obtain r w where a: "accept_one os (el_world el) (el_listener el) = Some (r, w)"
    and lt: "\<And>c. r = Inr (Some c) \<Longrightarrow> waiting w < waiting (el_world el)" by blast
  have "\<exists>r'. handle_listener_readable os el1 = Some r'"
    if "r = Inr (Some c)" "admit_client os (el\<lparr>el_world := w\<rparr>) c = Inr el1" for c el1
    using admit_client_waiting [OF assms that(2)] lt [OF that(1)] by (intro less.hyps) simp
  with a show ?case
    by (auto simp: handle_listener_readable.simps [of os el] split: sum.splits option.splits)
qed


lemma script_recv_drains: "recv_drains script_os (\<lambda>w. sum_list (map (length \<circ> snd) (sc_recv w)))"
  by (auto simp: recv_drains_def script_os_def split: list.splits if_splits)

lemma script_accept_drains: "accept_drains script_os (\<lambda>w. length (sc_accept w))"
  by (auto simp: accept_drains_def script_os_def split: list.splits)

lemma script_eventfd_drains: "eventfd_drains script_os (\<lambda>w. 0)"
  by (simp add: eventfd_drains_def script_os_def)


subsection \<open>Failures of the operating system\<close>

text \<open>
  A failure of \<^verbatim>\<open>accept4\<close> that is not transient, such as running out of descriptors, is an
  exception that leaves the reactor: when such an event is next in a batch, handling the batch
  ends with the exception and the events after it are not handled.
\<close>

theorem accept_failure_ends_loop:
  assumes "os_accept4 os (el_world el) (el_listener el) = (Inl e, w)"
    and "e \<notin> {EAGAIN, EWOULDBLOCK, EINTR, ECONNABORTED}"
    and "ev_fd ev = el_listener el" and "el_listener el \<noteq> el_wakeup_fd el"
  shows "handle_events os el (ev # evs) =
    Some (Inl (Exn (System_error (errno_code e) ''Listener: accept4() failed'')))"
proof -
  have "accept_one os (el_world el) (el_listener el) =
      Some (Inl (throw_errno e ''Listener: accept4() failed''), w)"
    using assms(1,2) by (simp add: accept_one.simps [of os "el_world el"])
  then have "handle_listener_readable os el = Some (Inl (throw_errno e ''Listener: accept4() failed''))"
    by (simp add: handle_listener_readable.simps [of os el])
  with assms(3,4) show ?thesis by (simp add: handle_event_def throw_errno_def)
qed

definition exhausted_os :: "Script Os" where
  "exhausted_os = script_os\<lparr>os_accept4 := (\<lambda>w fd. (Inl EMFILE, w))\<rparr>"

theorem accept_failure_ends_loop_witness:
  "os_accept4 exhausted_os (el_world demo_loop) (el_listener demo_loop) = (Inl EMFILE, el_world demo_loop) \<and>
   handle_events exhausted_os demo_loop [listener_event] =
     Some (Inl (Exn (System_error 24 ''Listener: accept4() failed'')))"
proof -
  have a: "os_accept4 exhausted_os (el_world demo_loop) (el_listener demo_loop) = (Inl EMFILE, el_world demo_loop)"
    by (simp add: exhausted_os_def)
  have b: "ev_fd listener_event = el_listener demo_loop" "el_listener demo_loop \<noteq> el_wakeup_fd demo_loop"
    by code_simp+
  show ?thesis using accept_failure_ends_loop [OF a _ b, of "[]"] a by simp
qed

subsection \<open>Connections lost for the wrong reason\<close>

text \<open>
  Client 7 has sent a request; a worker answers it with more than the client's output cap holds;
  meanwhile client 7 hangs up and another client is waiting, whom the operating system will give
  the descriptor 7 once it is free.
\<close>

definition in_event :: "int \<Rightarrow> EpollEvent" where
  "in_event fd = \<lparr>ev_fd = fd, ev_in = True, ev_out = False, ev_hup_err = False\<rparr>"

definition hup_event :: "int \<Rightarrow> EpollEvent" where
  "hup_event fd = \<lparr>ev_fd = fd, ev_in = True, ev_out = False, ev_hup_err = True\<rparr>"

definition stale_completion :: Completion where
  "stale_completion = \<lparr>co_connection_id = 7, co_connection_generation = 1, co_sequence = 0,
     co_response = encode_bulk_string (replicate 64 CHR ''x'')\<rparr>"

definition request_read :: "Script EventLoop" where
  "request_read = projr (the (handle_event script_os
     (demo_loop\<lparr>el_world := (el_world demo_loop)\<lparr>sc_recv := [(7, ping_frame)]\<rparr>\<rparr>) (in_event 7)))"

definition before_batch :: "Script EventLoop" where
  "before_batch =
     (let p = the (push (el_completion_queue request_read) stale_completion);
          el = run_callback script_os (snd (snd p)) (request_read\<lparr>el_completion_queue := fst (snd p)\<rparr>)
      in el\<lparr>el_world := (el_world el)\<lparr>sc_accept := [7]\<rparr>\<rparr>)"

definition after_batch :: "EpollEvent list \<Rightarrow> Script EventLoop" where
  "after_batch evs = projr (the (handle_events script_os before_batch evs))"

lemma request_read_reachable: "loop_reachable script_os demo_config 2 request_read"
proof -
  let ?el = "demo_loop\<lparr>el_world := (el_world demo_loop)\<lparr>sc_recv := [(7, ping_frame)]\<rparr>\<rparr>"
  have "loop_reachable script_os demo_config 2 ?el"
    by (rule loop_other [OF demo_loop_reachable other_world])
  moreover have "returns (handle_event script_os ?el (in_event 7))" by code_simp
  ultimately show ?thesis unfolding request_read_def by (rule loop_event [OF _ returnsD])
qed

lemma before_batch_reachable: "loop_reachable script_os demo_config 2 before_batch"
proof -
  let ?p = "push (el_completion_queue request_read) stale_completion"
  have "push_ready (el_completion_queue request_read)" by code_simp
  then obtain st q cb where p: "?p = Some (st, q, cb)"
    by (cases "try_push (el_completion_queue request_read) stale_completion") (auto simp: push_eq)
  let ?el = "run_callback script_os cb (request_read\<lparr>el_completion_queue := q\<rparr>)"
  have "loop_reachable script_os demo_config 2 ?el"
    by (rule loop_other [OF request_read_reachable other_push [OF p]])
  then have "loop_reachable script_os demo_config 2 (?el\<lparr>el_world := (el_world ?el)\<lparr>sc_accept := [7]\<rparr>\<rparr>)"
    by (rule loop_other [OF _ other_world])
  then show ?thesis by (simp add: before_batch_def p Let_def)
qed

lemma stale_event_batch:
  "returns (handle_events script_os before_batch [in_event 5, in_event 3, hup_event 7])"
  "find_current (el_connections (after_batch [in_event 5, in_event 3, hup_event 7])) 7 = None"
  "sc_closed (el_world (after_batch [in_event 5, in_event 3, hup_event 7])) = [7, 7]"
  "map_option cn_generation (find_current (el_connections (after_batch [in_event 5, in_event 3])) 7) = Some 2"
  by code_simp+



end
