(* ===== verification/Cli_Options.thy ===== *)
theory Cli_Options
  imports Resp_Parser Logger
begin

text \<open>
  The command line, \<^verbatim>\<open>src/src/cli/options.cpp\<close>. The loop over the argument vector is a
  recursion over the list of the remaining arguments.
\<close>

record ServerOptions =
  so_bind_address :: string
  so_port :: "16 word"
  so_worker_count :: u64
  so_shard_count :: u64
  so_queue_capacity :: u64
  so_log_level :: string
  so_show_help :: bool
  so_show_version :: bool

definition default_options :: ServerOptions where
  "default_options = \<lparr>so_bind_address = ''0.0.0.0'', so_port = 6380, so_worker_count = 4,
     so_shard_count = 32, so_queue_capacity = 1024, so_log_level = ''info'',
     so_show_help = False, so_show_version = False\<rparr>"

text \<open>
  \<^verbatim>\<open>std::from_chars\<close> for an unsigned type of \<open>w\<close> bits, base ten: the longest prefix of digits, if
  there is one and its value fits; with what is left of the text.
\<close>

definition from_chars :: "nat \<Rightarrow> string \<Rightarrow> (nat \<times> string) option" where
  "from_chars w s =
     (let ds = takeWhile is_digit s in
      if ds = [] \<or> 2 ^ w \<le> nat (dec_value ds) then None
      else Some (nat (dec_value ds), dropWhile is_digit s))"

definition invalid_value :: "string \<Rightarrow> string \<Rightarrow> exn" where
  "invalid_value flag v =
     Invalid_argument (''invalid value for '' @ flag @ '': '' @ quote # v @ [quote])"

definition parse_unsigned :: "nat \<Rightarrow> string \<Rightarrow> string \<Rightarrow> exn + nat" where
  "parse_unsigned w flag v = (case from_chars w v of
      Some (result, []) \<Rightarrow> Inr result
    | _ \<Rightarrow> Inl (invalid_value flag v))"

definition next_value :: "string list \<Rightarrow> string \<Rightarrow> exn + string \<times> string list" where
  "next_value rest flag = (case rest of
      [] \<Rightarrow> Inl (Invalid_argument (''missing value for '' @ flag))
    | v # rest' \<Rightarrow> Inr (v, rest'))"

text \<open>One option: the arguments after it, and the updated options.\<close>

definition parse_number :: "nat \<Rightarrow> string list \<Rightarrow> string \<Rightarrow> exn + nat \<times> string list" where
  "parse_number w rest arg = (case next_value rest arg of
      Inl e \<Rightarrow> Inl e
    | Inr (v, rest') \<Rightarrow> map_sum id (\<lambda>n. (n, rest')) (parse_unsigned w arg v))"

definition parse_option :: "ServerOptions \<Rightarrow> string \<Rightarrow> string list \<Rightarrow> exn + ServerOptions \<times> string list" where
  "parse_option opts arg rest =
     (if arg = ''--help'' \<or> arg = ''-h'' then Inr (opts\<lparr>so_show_help := True\<rparr>, rest)
      else if arg = ''--version'' \<or> arg = ''-v'' then Inr (opts\<lparr>so_show_version := True\<rparr>, rest)
      else if arg = ''--bind'' then
        map_sum id (\<lambda>(v, rest'). (opts\<lparr>so_bind_address := v\<rparr>, rest')) (next_value rest arg)
      else if arg = ''--port'' then
        map_sum id (\<lambda>(n, rest'). (opts\<lparr>so_port := word_of_nat n\<rparr>, rest')) (parse_number 16 rest arg)
      else if arg = ''--workers'' then
        map_sum id (\<lambda>(n, rest'). (opts\<lparr>so_worker_count := word_of_nat n\<rparr>, rest')) (parse_number 64 rest arg)
      else if arg = ''--shards'' then
        map_sum id (\<lambda>(n, rest'). (opts\<lparr>so_shard_count := word_of_nat n\<rparr>, rest')) (parse_number 64 rest arg)
      else if arg = ''--queue-capacity'' then
        map_sum id (\<lambda>(n, rest'). (opts\<lparr>so_queue_capacity := word_of_nat n\<rparr>, rest')) (parse_number 64 rest arg)
      else if arg = ''--log-level'' then
        (case next_value rest arg of
           Inl e \<Rightarrow> Inl e
         | Inr (v, rest') \<Rightarrow>
             if parse_level v = None then Inl (invalid_value ''--log-level'' v)
             else Inr (opts\<lparr>so_log_level := v\<rparr>, rest'))
      else Inl (Invalid_argument (''unknown option: '' @ quote # arg @ [quote])))"

lemma next_value_shorter: "next_value rest flag = Inr (v, rest') \<Longrightarrow> length rest' \<le> length rest"
  by (auto simp: next_value_def split: list.splits)

lemma parse_number_shorter: "parse_number w rest arg = Inr (n, rest') \<Longrightarrow> length rest' \<le> length rest"
  by (auto simp: parse_number_def map_sum_def dest!: next_value_shorter split: sum.splits)

lemma parse_option_shorter: "parse_option opts arg rest = Inr (opts', rest') \<Longrightarrow> length rest' \<le> length rest"
  by (auto simp: parse_option_def map_sum_def dest!: next_value_shorter parse_number_shorter
      split: if_splits sum.splits)

function parse_args_from :: "ServerOptions \<Rightarrow> string list \<Rightarrow> exn + ServerOptions" where
  "parse_args_from opts [] = Inr opts"
| "parse_args_from opts (arg # rest) =
     (case parse_option opts arg rest of
        Inl e \<Rightarrow> Inl e
      | Inr (opts', rest') \<Rightarrow> parse_args_from opts' rest')"
  by pat_completeness auto
termination
  by (relation "measure (\<lambda>(opts, args). length args)") (auto dest!: parse_option_shorter)

definition parse_args :: "string list \<Rightarrow> exn + ServerOptions" where
  "parse_args args = parse_args_from default_options args"

definition usage_text :: string where
  "usage_text = concat (map (\<lambda>line. line @ [lf])
    [''Usage: kvstore_server [options]'',
     [],
     ''Options:'',
     ''  --bind <address>        Bind address (default: 0.0.0.0)'',
     ''  --port <port>           Listen port (default: 6380)'',
     ''  --workers <count>       Worker thread count (default: 4)'',
     ''  --shards <count>        Storage shard count, rounded up to a power of two (default: 32)'',
     ''  --queue-capacity <n>    Work/completion queue capacity (default: 1024)'',
     ''  --log-level <level>     debug | info | warn | error (default: info)'',
     ''  --help                  Print this message and exit'',
     ''  --version               Print the version and exit''])"

subsection \<open>Properties\<close>

lemma parse_args_from_log_level:
  "parse_args_from opts args = Inr opts' \<Longrightarrow> parse_level (so_log_level opts) \<noteq> None \<Longrightarrow>
   parse_level (so_log_level opts') \<noteq> None"
proof (induction opts args rule: parse_args_from.induct)
  case (2 opts arg rest)
  from "2.prems"(1) obtain opts1 rest1 where p: "parse_option opts arg rest = Inr (opts1, rest1)"
    and r: "parse_args_from opts1 rest1 = Inr opts'"
    by (auto split: sum.splits)
  from p "2.prems"(2) have "parse_level (so_log_level opts1) \<noteq> None"
    by (auto simp: parse_option_def map_sum_def split: if_splits sum.splits)
  with "2.IH" [OF p refl] r show ?case by blast
qed simp

text \<open>The command line that asks for given options.\<close>

definition print_args :: "ServerOptions \<Rightarrow> string list" where
  "print_args opts =
     [''--bind'', so_bind_address opts, ''--port'', nat_to_string (unat (so_port opts)),
      ''--workers'', nat_to_string (unat (so_worker_count opts)),
      ''--shards'', nat_to_string (unat (so_shard_count opts)),
      ''--queue-capacity'', nat_to_string (unat (so_queue_capacity opts)),
      ''--log-level'', so_log_level opts] @
     (if so_show_help opts then [''--help''] else []) @ (if so_show_version opts then [''-v''] else [])"

lemma parse_unsigned_nat_to_string:
  assumes "n < 2 ^ w"
  shows "parse_unsigned w flag (nat_to_string n) = Inr n"
proof -
  have "\<forall>c\<in>set (nat_to_string n). is_digit c" by (simp add: nat_to_string_digits)
  then have all: "takeWhile is_digit (nat_to_string n) = nat_to_string n"
    "dropWhile is_digit (nat_to_string n) = []"
    by (simp_all add: takeWhile_eq_all_conv dropWhile_eq_Nil_conv)
  show ?thesis unfolding parse_unsigned_def from_chars_def Let_def all
    using assms by (simp add: dec_value_nat_to_string)
qed

lemma parse_number_nat_to_string:
  "n < 2 ^ w \<Longrightarrow> parse_number w (nat_to_string n # rest) arg = Inr (n, rest)"
  by (simp add: parse_number_def next_value_def parse_unsigned_nat_to_string)

text \<open>
  C33. The options survive the command line: the arguments that ask for given options parse to
  exactly these options, for every address, every port, every 64-bit count and every log level
  the logger knows.
\<close>

theorem options_roundtrip:
  assumes "parse_level (so_log_level opts) \<noteq> None"
  shows "parse_args (print_args opts) = Inr opts"
proof -
  have n64: "unat w < 2 ^ 64" for w :: u64 using unsigned_less [of w] by simp
  have n16: "unat w < 2 ^ 16" for w :: "16 word" using unsigned_less [of w] by simp
  show ?thesis
    unfolding parse_args_def print_args_def using assms
    by (cases opts) (simp add: parse_option_def next_value_def parse_number_nat_to_string [OF n64]
      parse_number_nat_to_string [OF n16] default_options_def)
qed

definition demo_options :: ServerOptions where
  "demo_options = default_options\<lparr>so_port := 0, so_shard_count := 7, so_log_level := ''WARN''\<rparr>"

theorem options_roundtrip_witness:
  "parse_level (so_log_level demo_options) \<noteq> None \<and> parse_args (print_args demo_options) = Inr demo_options"
proof -
  have l: "parse_level (so_log_level demo_options) \<noteq> None" by code_simp
  show ?thesis using options_roundtrip [OF l] l by blast
qed

end
