(* ===== verification/Worker_Pool.thy ===== *)
theory Worker_Pool
  imports Work_Item Store_Concurrency
begin

text \<open>
  The worker threads, \<^verbatim>\<open>src/src/worker/worker_pool.cpp\<close>. The body of \<^verbatim>\<open>worker_main\<close> is cut at its
  blocking calls and at the critical sections of the store: a worker is about to pop, works on
  an item, is about to erase the expired key it has read, is about to push a completion, or has
  returned. \<open>None\<close> is a call that blocks.
\<close>

subsection \<open>Workers\<close>

datatype Worker =
    Popping
  | Working WorkItem
  | Erasing string int Completion
  | Pushing Completion
  | Exited

definition worker_pop :: "work_queue \<Rightarrow> bool \<Rightarrow> (Worker \<times> work_queue) option" where
  "worker_pop wq stop_requested = (case pop wq stop_requested of
      None \<Rightarrow> None
    | Some (status, item, q) \<Rightarrow>
        Some (if status \<noteq> PopOk then Exited else Working (the item), q))"

definition completion_of :: "WorkItem \<Rightarrow> string \<Rightarrow> Completion" where
  "completion_of item response =
     \<lparr>co_connection_id = wi_connection_id item, co_connection_generation = wi_connection_generation item,
      co_sequence = wi_sequence item, co_response = response\<rparr>"

definition worker_exec ::
  "(string \<Rightarrow> u64) \<Rightarrow> Store \<Rightarrow> int \<Rightarrow> WorkItem \<Rightarrow> ub + Worker \<times> Store" where
  "worker_exec hash st now item = (case command_section hash st now (wi_command item) of
      Inl u \<Rightarrow> Inl u
    | Inr (response, st') \<Rightarrow>
        Inr (if needs_erase hash st now (wi_command item)
             then Erasing (cmd_key (wi_command item)) now (completion_of item response)
             else Pushing (completion_of item response), st'))"

definition worker_push :: "completion_queue \<Rightarrow> Completion \<Rightarrow> (Worker \<times> completion_queue \<times> callback option) option" where
  "worker_push cq completion = (case push cq completion of
      None \<Rightarrow> None
    | Some (status, q, cb) \<Rightarrow> Some (if status \<noteq> PushOk then Exited else Popping, q, cb))"

definition make_workers :: "nat \<Rightarrow> fault + Worker list" where
  "make_workers worker_count =
     (if worker_count = 0
      then Inl (Exn (Invalid_argument ''WorkerPool: worker_count must be greater than zero''))
      else Inr (replicate worker_count Popping))"

text \<open>
  The pool with the queues and the store it shares. \<open>destroy_pool\<close> is the body of the destructor;
  the threads are joined after it, so it returns once every worker has exited.
\<close>

record Pool =
  pl_workers :: "Worker list"
  pl_work_queue :: work_queue
  pl_completion_queue :: completion_queue
  pl_store :: Store

definition destroy_pool :: "Pool \<Rightarrow> Pool" where
  "destroy_pool p = p\<lparr>pl_work_queue := close_queue (pl_work_queue p)\<rparr>"

definition joined :: "Pool \<Rightarrow> bool" where
  "joined p \<longleftrightarrow> list_all (\<lambda>w. w = Exited) (pl_workers p)"

inductive pool_step :: "(string \<Rightarrow> u64) \<Rightarrow> Pool \<Rightarrow> Pool \<Rightarrow> bool" for hash where
  pool_pop: "i < length (pl_workers p) \<Longrightarrow> pl_workers p ! i = Popping \<Longrightarrow>
    worker_pop (pl_work_queue p) stop_requested = Some (w, q) \<Longrightarrow>
    pool_step hash p (p\<lparr>pl_workers := (pl_workers p)[i := w], pl_work_queue := q\<rparr>)"
| pool_exec: "i < length (pl_workers p) \<Longrightarrow> pl_workers p ! i = Working item \<Longrightarrow>
    worker_exec hash (pl_store p) now item = Inr (w, st) \<Longrightarrow>
    pool_step hash p (p\<lparr>pl_workers := (pl_workers p)[i := w], pl_store := st\<rparr>)"
| pool_erase: "i < length (pl_workers p) \<Longrightarrow> pl_workers p ! i = Erasing key now completion \<Longrightarrow>
    pool_step hash p (p\<lparr>pl_workers := (pl_workers p)[i := Pushing completion],
      pl_store := erase_section hash (pl_store p) now key\<rparr>)"
| pool_push: "i < length (pl_workers p) \<Longrightarrow> pl_workers p ! i = Pushing completion \<Longrightarrow>
    worker_push (pl_completion_queue p) completion = Some (w, q, cb) \<Longrightarrow>
    pool_step hash p (p\<lparr>pl_workers := (pl_workers p)[i := w], pl_completion_queue := q\<rparr>)"

subsection \<open>Shutdown\<close>

fun worker_weight :: "Worker \<Rightarrow> nat" where
  "worker_weight (Working item) = 4"
| "worker_weight (Erasing key now completion) = 3"
| "worker_weight (Pushing completion) = 2"
| "worker_weight Popping = 1"
| "worker_weight Exited = 0"

text \<open>Completions that are still to be pushed.\<close>

fun owes_completion :: "Worker \<Rightarrow> nat" where
  "owes_completion (Working item) = 1"
| "owes_completion (Erasing key now completion) = 1"
| "owes_completion (Pushing completion) = 1"
| "owes_completion w = 0"

definition pool_weight :: "Pool \<Rightarrow> nat" where
  "pool_weight p = 4 * length (bq_items (pl_work_queue p)) + sum_list (map worker_weight (pl_workers p))"

definition outstanding :: "Pool \<Rightarrow> nat" where
  "outstanding p = length (bq_items (pl_work_queue p)) + sum_list (map owes_completion (pl_workers p))"

text \<open>
  The pool is shutting down, and the completion queue has room for all there is to do. A worker
  that has returned found the work queue empty.
\<close>

definition can_drain :: "Pool \<Rightarrow> bool" where
  "can_drain p \<longleftrightarrow> bq_closed (pl_work_queue p) \<and> \<not> bq_closed (pl_completion_queue p) \<and>
     pl_workers p \<noteq> [] \<and> (Exited \<in> set (pl_workers p) \<longrightarrow> bq_items (pl_work_queue p) = []) \<and>
     length (bq_items (pl_completion_queue p)) + outstanding p \<le> bq_capacity (pl_completion_queue p)"

lemma worker_pop_cases:
  assumes "worker_pop q stop_requested = Some (w, q')"
  obtains (item) x rest where "bq_items q = x # rest" "w = Working x" "q' = q\<lparr>bq_items := rest\<rparr>"
  | (exit) "bq_items q = []" "w = Exited" "q' = q"
proof (cases "bq_items q")
  case Nil
  then have "w = Exited" "q' = q"
    using assms by (auto simp: worker_pop_def pop_def split: if_splits)
  with Nil show ?thesis by (rule that(2))
next
  case (Cons x rest)
  then have "w = Working x" "q' = q\<lparr>bq_items := rest\<rparr>"
    using assms by (auto simp: worker_pop_def pop_def pop_ready_def)
  with Cons show ?thesis by (rule that(1))
qed

lemma worker_push_cases:
  assumes "worker_push q c = Some (w, q', cb)"
  obtains (pushed) "\<not> bq_closed q" "length (bq_items q) < bq_capacity q" "w = Popping"
      "q' = q\<lparr>bq_items := bq_items q @ [c]\<rparr>"
  | (exit) "bq_closed q" "w = Exited" "q' = q"
proof (cases "bq_closed q")
  case True
  then have "w = Exited" "q' = q"
    using assms by (auto simp: worker_push_def push_def push_ready_def)
  with True show ?thesis by (rule that(2))
next
  case False
  then have "length (bq_items q) < bq_capacity q \<and> w = Popping \<and> q' = q\<lparr>bq_items := bq_items q @ [c]\<rparr>"
    using assms by (auto simp: worker_push_def push_def push_ready_def split: if_splits)
  with False show ?thesis using that(1) by blast
qed

lemma worker_exec_cases:
  assumes "worker_exec hash st now item = Inr (w, st')"
  obtains response where "command_section hash st now (wi_command item) = Inr (response, st')"
    "w = Pushing (completion_of item response) \<or>
     (\<exists>key. w = Erasing key now (completion_of item response))"
  using assms by (auto simp: worker_exec_def split: sum.splits if_splits)

text \<open>A worker that is alone does what \<^const>\<open>dispatch\<close> does.\<close>

lemma worker_alone:
  assumes "wf_store hash st" and "worker_exec hash st now item = Inr (w, st')"
  shows "\<exists>response st''. dispatch hash st now (wi_command item) = Inr (response, st'') \<and>
    (w = Pushing (completion_of item response) \<and> st'' = st' \<or>
     w = Erasing (cmd_key (wi_command item)) now (completion_of item response) \<and>
       st'' = erase_section hash st' now (cmd_key (wi_command item)))"
  using assms(2) dispatch_sections [OF assms(1), of now "wi_command item"]
  by (auto simp: worker_exec_def split: sum.splits if_splits)

lemma pool_step_frame:
  assumes "pool_step hash p p'"
  shows "length (pl_workers p') = length (pl_workers p)"
    and "bq_closed (pl_work_queue p') = bq_closed (pl_work_queue p)"
    and "bq_closed (pl_completion_queue p') = bq_closed (pl_completion_queue p)"
    and "bq_capacity (pl_completion_queue p') = bq_capacity (pl_completion_queue p)"
  using assms by (cases; auto elim!: worker_pop_cases worker_push_cases)+

lemma pool_step_weight:
  assumes "pool_step hash p p'" "can_drain p"
  shows "pool_weight p' < pool_weight p" and
    "length (bq_items (pl_completion_queue p')) + outstanding p' =
       length (bq_items (pl_completion_queue p)) + outstanding p"
proof -
  have "pool_weight p' < pool_weight p \<and> length (bq_items (pl_completion_queue p')) + outstanding p' =
       length (bq_items (pl_completion_queue p)) + outstanding p"
    using assms(1)
  proof cases
    case (pool_pop i stop_requested w q)
    note upd = sum_list_map_update [OF pool_pop(2), where x = w]
    from pool_pop(4) show ?thesis
    proof (cases rule: worker_pop_cases)
      case (item x rest)
      then show ?thesis
        using upd [of worker_weight] upd [of owes_completion] pool_pop(1,3)
        by (simp add: pool_weight_def outstanding_def)
    next
      case exit
      then show ?thesis
        using upd [of worker_weight] upd [of owes_completion] pool_pop(1,3)
        by (simp add: pool_weight_def outstanding_def)
    qed
  next
    case (pool_exec i item now w st)
    note upd = sum_list_map_update [OF pool_exec(2), where x = w]
    from pool_exec(4) have "worker_weight w < 4" "owes_completion w = 1" by (auto elim!: worker_exec_cases)
    then show ?thesis
      using upd [of worker_weight] upd [of owes_completion] pool_exec(1,3)
      by (simp add: pool_weight_def outstanding_def)
  next
    case (pool_erase i key now completion)
    note upd = sum_list_map_update [OF pool_erase(2), where x = "Pushing completion"]
    show ?thesis
      using upd [of worker_weight] upd [of owes_completion] pool_erase(1,3)
      by (simp add: pool_weight_def outstanding_def)
  next
    case (pool_push i completion w q cb)
    note upd = sum_list_map_update [OF pool_push(2), where x = w]
    from pool_push(4) show ?thesis
    proof (cases rule: worker_push_cases)
      case pushed
      then show ?thesis
        using upd [of worker_weight] upd [of owes_completion] pool_push(1,3)
        by (simp add: pool_weight_def outstanding_def)
    next
      case exit
      with assms(2) show ?thesis by (simp add: can_drain_def)
    qed
  qed
  then show "pool_weight p' < pool_weight p" and
    "length (bq_items (pl_completion_queue p')) + outstanding p' =
       length (bq_items (pl_completion_queue p)) + outstanding p" by auto
qed

lemma pool_step_exited:
  assumes "pool_step hash p p'" "can_drain p"
  shows "Exited \<in> set (pl_workers p') \<longrightarrow> bq_items (pl_work_queue p') = []"
  using assms(1)
proof cases
  case (pool_pop i stop_requested w q)
  from pool_pop(4) assms(2) pool_pop(1) show ?thesis
    by (cases rule: worker_pop_cases) (auto simp: can_drain_def dest!: set_update_subset_insert [THEN subsetD])
next
  case (pool_exec i item now w st)
  from pool_exec(4) have "w \<noteq> Exited" by (auto elim!: worker_exec_cases)
  with assms(2) pool_exec(1) show ?thesis
    by (auto simp: can_drain_def dest!: set_update_subset_insert [THEN subsetD])
next
  case (pool_erase i key now completion)
  with assms(2) show ?thesis
    by (auto simp: can_drain_def dest!: set_update_subset_insert [THEN subsetD])
next
  case (pool_push i completion w q cb)
  from pool_push(4) assms(2) pool_push(1) show ?thesis
    by (cases rule: worker_push_cases) (auto simp: can_drain_def dest!: set_update_subset_insert [THEN subsetD])
qed

lemma can_drain_step: "pool_step hash p p' \<Longrightarrow> can_drain p \<Longrightarrow> can_drain p'"
  using pool_step_frame [of hash p p'] pool_step_weight(2) [of hash p p'] pool_step_exited [of hash p p']
  by (auto simp: can_drain_def)

lemma pool_progress:
  assumes drain: "can_drain p" and running: "\<not> joined p"
    and defined: "\<And>item. Working item \<in> set (pl_workers p) \<Longrightarrow>
      \<exists>now r. command_section hash (pl_store p) now (wi_command item) = Inr r"
  shows "\<exists>p'. pool_step hash p p'"
proof -
  from running obtain i where i: "i < length (pl_workers p)" and w: "pl_workers p ! i \<noteq> Exited"
    by (auto simp: joined_def list_all_length)
  show ?thesis
  proof (cases "pl_workers p ! i")
    case Popping
    from drain obtain w q where "worker_pop (pl_work_queue p) False = Some (w, q)"
      by (cases "bq_items (pl_work_queue p)") (auto simp: can_drain_def worker_pop_def pop_def pop_ready_def)
    from pool_step.pool_pop [OF i Popping this] show ?thesis by blast
  next
    case (Working item)
    with defined [of item] i obtain now r where "command_section hash (pl_store p) now (wi_command item) = Inr r"
      by (metis nth_mem)
    then obtain w st where "worker_exec hash (pl_store p) now item = Inr (w, st)"
      by (cases r) (simp add: worker_exec_def)
    from pool_step.pool_exec [OF i Working this] show ?thesis by blast
  next
    case (Erasing key now c)
    from pool_step.pool_erase [OF i Erasing] show ?thesis by blast
  next
    case (Pushing c)
    have "1 \<le> sum_list (map owes_completion (pl_workers p))"
      using sum_list_map_update [OF i, of owes_completion Exited] Pushing by simp
    then have "length (bq_items (pl_completion_queue p)) < bq_capacity (pl_completion_queue p)"
      using drain by (auto simp: can_drain_def outstanding_def)
    then obtain w q cb where "worker_push (pl_completion_queue p) c = Some (w, q, cb)"
      by (cases "bq_closed (pl_completion_queue p)") (auto simp: worker_push_def push_def push_ready_def)
    from pool_step.pool_push [OF i Pushing this] show ?thesis by blast
  qed (use w in simp)
qed

lemma joined_outstanding:
  assumes "can_drain p" "joined p"
  shows "outstanding p = 0"
proof -
  from assms have "Exited \<in> set (pl_workers p)"
    by (cases "pl_workers p") (auto simp: can_drain_def joined_def)
  with assms show ?thesis by (auto simp: can_drain_def joined_def outstanding_def list_all_iff)
qed

interpretation pool: draining can_drain "pool_step hash" pool_weight
  by unfold_locales (rule can_drain_step pool_step_weight(1); assumption)+

lemma pool_run_completions:
  "(pool_step hash ^^ n) p p' \<Longrightarrow> can_drain p \<Longrightarrow>
   length (bq_items (pl_completion_queue p')) + outstanding p' =
     length (bq_items (pl_completion_queue p)) + outstanding p"
proof (induction n arbitrary: p')
  case (Suc n)
  then obtain q where q: "(pool_step hash ^^ n) p q" "pool_step hash q p'" by auto
  have "can_drain q" using pool.run_bound [OF q(1) Suc.prems(2)] by simp
  with Suc.IH [OF q(1) Suc.prems(2)] pool_step_weight(2) [OF q(2)] show ?case by simp
qed simp

text \<open>
  Shutdown with enough room: once the work queue is closed and the completion queue can hold
  everything outstanding, every run of the workers is finite, and a run that can go no further,
  no worker being inside undefined behaviour, has joined every worker and pushed one completion
  for each item that was queued or in work.
\<close>

theorem pool_drains:
  assumes "can_drain p" and "(pool_step hash ^^ n) p p'"
  shows "n \<le> pool_weight p \<and>
    ((\<nexists>p''. pool_step hash p' p'') \<and>
     (\<forall>item. Working item \<in> set (pl_workers p') \<longrightarrow>
        (\<exists>now r. command_section hash (pl_store p') now (wi_command item) = Inr r)) \<longrightarrow>
     joined p' \<and> bq_items (pl_work_queue p') = [] \<and>
     length (bq_items (pl_completion_queue p')) =
       length (bq_items (pl_completion_queue p)) + outstanding p)"
proof -
  note run = pool.run_bound [OF assms(2,1)] pool_run_completions [OF assms(2,1)]
  have "joined p'" if "\<nexists>p''. pool_step hash p' p''"
    and "\<forall>item. Working item \<in> set (pl_workers p') \<longrightarrow>
        (\<exists>now r. command_section hash (pl_store p') now (wi_command item) = Inr r)"
    using pool_progress [of p' hash] run that by blast
  moreover have "bq_items (pl_work_queue p') = []" if "joined p'"
    using joined_outstanding [of p'] run that by (simp add: outstanding_def)
  ultimately show ?thesis using run joined_outstanding [of p'] by auto
qed

subsection \<open>Example runs\<close>

definition ping_item :: "u64 \<Rightarrow> WorkItem" where
  "ping_item n = \<lparr>wi_connection_id = 5, wi_connection_generation = 0, wi_sequence = n,
     wi_command = cmd kPing [] [] 0\<rparr>"

definition pong :: "u64 \<Rightarrow> Completion" where
  "pong n = \<lparr>co_connection_id = 5, co_connection_generation = 0, co_sequence = n,
     co_response = encode_simple_string ''PONG''\<rparr>"

text \<open>One worker and queues of one slot, in a given state, with shutdown begun.\<close>

definition demo_pool :: "Worker \<Rightarrow> WorkItem list \<Rightarrow> Completion list \<Rightarrow> Pool" where
  "demo_pool w items completions = destroy_pool \<lparr>pl_workers = [w],
     pl_work_queue = \<lparr>bq_items = items, bq_capacity = 1, bq_closed = False, bq_on_push = None\<rparr>,
     pl_completion_queue = \<lparr>bq_items = completions, bq_capacity = 1, bq_closed = False, bq_on_push = None\<rparr>,
     pl_store = \<lparr>st_shard_count = 2, st_shards = [empty_shard, empty_shard], st_active_expirations = 0\<rparr>\<rparr>"

lemma demo_pool_pop: "pool_step hash (demo_pool Popping (item # rest) cs) (demo_pool (Working item) rest cs)"
  using pool_step.pool_pop [of 0 "demo_pool Popping (item # rest) cs" False "Working item"]
  by (simp add: demo_pool_def destroy_pool_def close_queue_def worker_pop_def pop_def pop_ready_def)

lemma demo_pool_exit: "pool_step hash (demo_pool Popping [] cs) (demo_pool Exited [] cs)"
  using pool_step.pool_pop [of 0 "demo_pool Popping [] cs" False Exited]
  by (simp add: demo_pool_def destroy_pool_def close_queue_def worker_pop_def pop_def pop_ready_def)

lemma demo_pool_exec: "pool_step hash (demo_pool (Working (ping_item n)) items cs) (demo_pool (Pushing (pong n)) items cs)"
  using pool_step.pool_exec [of 0 "demo_pool (Working (ping_item n)) items cs" "ping_item n" hash 0]
  by (simp add: demo_pool_def destroy_pool_def worker_exec_def completion_of_def ping_item_def pong_def
      command_section_def needs_erase_def read_only_def dispatch_def dispatch_ping_def cmd_def)

lemma demo_pool_push: "pool_step hash (demo_pool (Pushing c) items []) (demo_pool Popping items [c])"
  using pool_step.pool_push [of 0 "demo_pool (Pushing c) items []" c Popping]
  by (simp add: demo_pool_def destroy_pool_def worker_push_def push_def push_ready_def)

lemma demo_pool_exited: "\<not> pool_step hash (demo_pool Exited items cs) p"
  by (auto simp: demo_pool_def destroy_pool_def elim!: pool_step.cases)

theorem pool_drains_witness:
  "joined (demo_pool Exited [] [pong 7]) \<and> bq_items (pl_work_queue (demo_pool Exited [] [pong 7])) = [] \<and>
   length (bq_items (pl_completion_queue (demo_pool Exited [] [pong 7]))) =
     length (bq_items (pl_completion_queue (demo_pool Popping [ping_item 7] []))) +
     outstanding (demo_pool Popping [ping_item 7] [])"
proof -
  have c: "can_drain (demo_pool Popping [ping_item 7] [])"
    by (simp add: demo_pool_def destroy_pool_def close_queue_def can_drain_def outstanding_def)
  have "(pool_step demo_hash ^^ Suc (Suc (Suc (Suc 0)))) (demo_pool Popping [ping_item 7] []) (demo_pool Exited [] [pong 7])"
    by (intro relpowp_Suc_I2 [where P = "pool_step demo_hash", OF demo_pool_pop]
        relpowp_Suc_I2 [where P = "pool_step demo_hash", OF demo_pool_exec]
        relpowp_Suc_I2 [where P = "pool_step demo_hash", OF demo_pool_push]
        relpowp_Suc_I2 [where P = "pool_step demo_hash", OF demo_pool_exit] relpowp_0_I)
  from pool_drains [OF c this] show ?thesis
    by (auto simp: demo_pool_exited) (auto simp: demo_pool_def destroy_pool_def)
qed

text \<open>A worker that is about to push into a full open queue stays there, whatever the others do.\<close>

lemma blocked_worker_stays:
  assumes "(pool_step hash)\<^sup>*\<^sup>* p p'"
    and "\<not> bq_closed (pl_completion_queue p)"
    and "bq_capacity (pl_completion_queue p) \<le> length (bq_items (pl_completion_queue p))"
    and "i < length (pl_workers p)" and "pl_workers p ! i = Pushing completion"
  shows "i < length (pl_workers p') \<and> pl_workers p' ! i = Pushing completion \<and>
    pl_completion_queue p' = pl_completion_queue p"
  using assms(1)
proof induction
  case (step q r)
  from step.hyps(2) step.IH assms(2,3) show ?case
    by cases (auto simp: nth_list_update elim!: worker_push_cases)
qed (use assms in simp)

text \<open>
  C36. The workers cannot be joined when the completion queue is full: no part of the shutdown
  closes that queue or takes from it, so a worker that is about to push into a full open
  completion queue stays there whatever the other workers do, and the destructor never returns.
\<close>

theorem full_completion_queue_blocks_shutdown:
  assumes "(pool_step hash)\<^sup>*\<^sup>* p p'"
    and "\<not> bq_closed (pl_completion_queue p)"
    and "bq_capacity (pl_completion_queue p) \<le> length (bq_items (pl_completion_queue p))"
    and "i < length (pl_workers p)" and "pl_workers p ! i = Pushing completion"
  shows "pl_workers p' ! i = Pushing completion \<and> \<not> joined p'"
  using blocked_worker_stays [OF assms] by (auto simp: joined_def list_all_length)

theorem full_completion_queue_blocks_shutdown_witness:
  "(pool_step demo_hash)\<^sup>*\<^sup>* (demo_pool (Working (ping_item 1)) [ping_item 2] [])
     (demo_pool (Pushing (pong 2)) [] [pong 1]) \<and>
   \<not> joined (demo_pool (Pushing (pong 2)) [] [pong 1])"
proof
  let ?p = "demo_pool (Pushing (pong 2)) [] [pong 1]"
  show "(pool_step demo_hash)\<^sup>*\<^sup>* (demo_pool (Working (ping_item 1)) [ping_item 2] []) ?p"
    by (rule demo_pool_exec demo_pool_push demo_pool_pop
        converse_rtranclp_into_rtranclp [where r = "pool_step demo_hash"] rtranclp.rtrancl_refl)+
  have f: "\<not> bq_closed (pl_completion_queue ?p)"
    "bq_capacity (pl_completion_queue ?p) \<le> length (bq_items (pl_completion_queue ?p))"
    "0 < length (pl_workers ?p)" "pl_workers ?p ! 0 = Pushing (pong 2)"
    by (simp_all add: demo_pool_def destroy_pool_def)
  show "\<not> joined ?p"
    using full_completion_queue_blocks_shutdown [OF rtranclp.rtrancl_refl [of "pool_step demo_hash"] f] by simp
qed

subsection \<open>Commands of one connection run concurrently\<close>

definition pair_item :: "u64 \<Rightarrow> CommandType \<Rightarrow> string \<Rightarrow> WorkItem" where
  "pair_item n ty v = \<lparr>wi_connection_id = 5, wi_connection_generation = 0, wi_sequence = n,
     wi_command = cmd ty ''k'' v 0\<rparr>"

text \<open>Two workers on a given store, with queues of two slots.\<close>

definition pair_pool :: "Worker \<Rightarrow> Worker \<Rightarrow> WorkItem list \<Rightarrow> Completion list \<Rightarrow> Store \<Rightarrow> Pool" where
  "pair_pool w0 w1 items completions st = \<lparr>pl_workers = [w0, w1],
     pl_work_queue = \<lparr>bq_items = items, bq_capacity = 2, bq_closed = False, bq_on_push = None\<rparr>,
     pl_completion_queue = \<lparr>bq_items = completions, bq_capacity = 2, bq_closed = False, bq_on_push = None\<rparr>,
     pl_store = st\<rparr>"

lemma pair_pool_pop:
  "pool_step hash (pair_pool Popping w1 (item # rest) cs st) (pair_pool (Working item) w1 rest cs st)"
  "pool_step hash (pair_pool w0 Popping (item # rest) cs st) (pair_pool w0 (Working item) rest cs st)"
  using pool_step.pool_pop [of 0 "pair_pool Popping w1 (item # rest) cs st" False "Working item"]
    pool_step.pool_pop [of 1 "pair_pool w0 Popping (item # rest) cs st" False "Working item"]
  by (simp_all add: pair_pool_def worker_pop_def pop_def pop_ready_def)

lemma pair_pool_exec:
  "worker_exec hash st now item = Inr (w, st') \<Longrightarrow>
   pool_step hash (pair_pool (Working item) w1 items cs st) (pair_pool w w1 items cs st')"
  "worker_exec hash st now item = Inr (w, st') \<Longrightarrow>
   pool_step hash (pair_pool w0 (Working item) items cs st) (pair_pool w0 w items cs st')"
  using pool_step.pool_exec [of 0 "pair_pool (Working item) w1 items cs st" item hash now w st']
    pool_step.pool_exec [of 1 "pair_pool w0 (Working item) items cs st" item hash now w st']
  by (simp_all add: pair_pool_def)

lemma pair_pool_push:
  "length cs < 2 \<Longrightarrow> pool_step hash (pair_pool (Pushing c) w1 items cs st) (pair_pool Popping w1 items (cs @ [c]) st)"
  "length cs < 2 \<Longrightarrow> pool_step hash (pair_pool w0 (Pushing c) items cs st) (pair_pool w0 Popping items (cs @ [c]) st)"
  using pool_step.pool_push [of 0 "pair_pool (Pushing c) w1 items cs st" c Popping]
    pool_step.pool_push [of 1 "pair_pool w0 (Pushing c) items cs st" c Popping]
  by (simp_all add: pair_pool_def worker_push_def push_def push_ready_def)

text \<open>
  C37. Responses keep the order of a connection's requests, but execution does not: a client
  that pipelines SET k v and GET k can get the answers "OK" and "nil", because two workers may
  take the two commands and the second may run first. (Both responses still leave in request
  order.)
\<close>

theorem pipelined_commands_reordered:
  "\<exists>st. (pool_step demo_hash)\<^sup>*\<^sup>*
      (pair_pool Popping Popping [pair_item 0 kSet ''v'', pair_item 1 kGet []] []
        \<lparr>st_shard_count = 2, st_shards = [empty_shard, empty_shard], st_active_expirations = 0\<rparr>)
      (pair_pool Popping Popping []
        [completion_of (pair_item 1 kGet []) encode_null_bulk_string,
         completion_of (pair_item 0 kSet ''v'') (encode_simple_string ''OK'')] st)"
proof -
  let ?st = "\<lparr>st_shard_count = 2, st_shards = [empty_shard, empty_shard], st_active_expirations = 0\<rparr>"
  let ?set = "pair_item 0 kSet ''v''" and ?get = "pair_item 1 kGet []"
  let ?nil = "completion_of ?get encode_null_bulk_string"
  let ?ok = "completion_of ?set (encode_simple_string ''OK'')"
  have get: "worker_exec demo_hash ?st 0 ?get = Inr (Pushing ?nil, ?st)" 
    by (simp add: worker_exec_def command_section_def needs_erase_def read_only_def dispatch_def dispatch_get_def
      store_get_def read_live_def read_live_shared_def shard_for_def shard_index_def demo_hash_def pair_item_def cmd_def
      empty_shard_def)
  have set: "worker_exec demo_hash ?st 0 ?set = Inr (Pushing ?ok, store_set demo_hash ?st ''k'' ''v'')"
    by (simp add: worker_exec_def command_section_def needs_erase_def read_only_def dispatch_def dispatch_set_def
      pair_item_def cmd_def)
  have "(pool_step demo_hash)\<^sup>*\<^sup>* (pair_pool Popping Popping [?set, ?get] [] ?st)
      (pair_pool (Working ?set) Popping [] ([] @ [?nil]) ?st)"
    by (rule converse_rtranclp_into_rtranclp [where r = "pool_step demo_hash"] rtranclp.rtrancl_refl
        pair_pool_pop pair_pool_exec(2) [OF get] pair_pool_push(2) | simp)+
  moreover have "(pool_step demo_hash)\<^sup>*\<^sup>* (pair_pool (Working ?set) Popping [] ([] @ [?nil]) ?st)
      (pair_pool Popping Popping [] (([] @ [?nil]) @ [?ok]) (store_set demo_hash ?st ''k'' ''v''))"
    by (rule converse_rtranclp_into_rtranclp [where r = "pool_step demo_hash"] rtranclp.rtrancl_refl
        pair_pool_exec(1) [OF set] pair_pool_push(1) | simp)+
  ultimately show ?thesis using rtranclp_trans by fastforce
qed

end
