(* ===== verification/Server_Steps.thy ===== *)
theory Server_Steps
  imports Event_Loop_Safety Worker_Pool "HOL-Library.Multiset"
begin

text \<open>
  The running server: the event loop, the workers, the store and the sweeper, and what went over
  the wire. A step is one call of the event loop's thread (a read, one round of the input loop,
  one completion, one write, a close, an accept), one step of a worker, or one critical section
  of the sweeper, in any interleaving. The handlers of the event loop are sequences of such
  steps (\<^verbatim>\<open>Server_Handlers\<close>).
\<close>

subsection \<open>State\<close>

type_synonym peer = "ConnectionId \<times> ConnectionGeneration"

text \<open>
  \<open>sv_wire\<close> holds, for each connection there ever was, the bytes received from the client and
  the bytes sent to it, as reported by \<^verbatim>\<open>recv\<close> and \<^verbatim>\<open>send\<close>; \<open>sv_accepted\<close> counts the
  accepted connections.
\<close>

record 'w Server =
  sv_loop :: "'w EventLoop"
  sv_workers :: "Worker list"
  sv_store :: Store
  sv_wire :: "peer \<Rightarrow> string \<times> string"
  sv_accepted :: nat

definition peer_of :: "Connection \<Rightarrow> peer" where
  "peer_of c = (cn_id c, cn_generation c)"

definition received_on :: "peer \<Rightarrow> string \<Rightarrow> (peer \<Rightarrow> string \<times> string) \<Rightarrow> peer \<Rightarrow> string \<times> string" where
  "received_on p bytes wire = wire(p := (fst (wire p) @ bytes, snd (wire p)))"

definition sent_on :: "peer \<Rightarrow> string \<Rightarrow> (peer \<Rightarrow> string \<times> string) \<Rightarrow> peer \<Rightarrow> string \<times> string" where
  "sent_on p bytes wire = wire(p := (fst (wire p), snd (wire p) @ bytes))"

text \<open>The bytes that \<^const>\<open>read_into\<close> got from \<^verbatim>\<open>recv\<close>, and that \<^const>\<open>write_from\<close> got rid of.\<close>

definition recv_bytes :: "'w Os \<Rightarrow> 'w \<Rightarrow> int \<Rightarrow> BoundedBuffer \<Rightarrow> string" where
  "recv_bytes os w fd buffer =
     (let available = size_sub (bb_capacity buffer) (length (bb_data buffer)) in
      if available = 0 then []
      else case os_recv os w fd (min available kReadChunkSize) of
        (Inr ds, w') \<Rightarrow> ds
      | (Inl e, w') \<Rightarrow> [])"

definition send_bytes :: "'w Os \<Rightarrow> 'w \<Rightarrow> int \<Rightarrow> BoundedBuffer \<Rightarrow> string" where
  "send_bytes os w fd buffer = take (wo_bytes_written (fst (write_from os w fd buffer))) (bb_data buffer)"

text \<open>Closing a connection makes one last attempt to send its output.\<close>

definition close_wire ::
  "'w Os \<Rightarrow> 'w EventLoop \<Rightarrow> ConnectionId \<Rightarrow> ConnectionGeneration \<Rightarrow>
    (peer \<Rightarrow> string \<times> string) \<Rightarrow> peer \<Rightarrow> string \<times> string" where
  "close_wire os el i g wire = (case find_connection (el_connections el) i g of
      None \<Rightarrow> wire
    | Some c \<Rightarrow> sent_on (i, g) (send_bytes os (el_world el) (cn_fd c) (cn_output c)) wire)"

definition close_peer ::
  "'w Os \<Rightarrow> 'w Server \<Rightarrow> 'w EventLoop \<Rightarrow> ConnectionId \<Rightarrow> ConnectionGeneration \<Rightarrow> 'w Server" where
  "close_peer os sv el i g = sv\<lparr>sv_loop := close_connection os el i g,
     sv_wire := close_wire os el i g (sv_wire sv)\<rparr>"

subsection \<open>Steps\<close>

text \<open>Logging, the wakeup counter, interest in events, the stop flag: no part of the service.\<close>

definition same_service :: "'w EventLoop \<Rightarrow> 'w EventLoop \<Rightarrow> bool" where
  "same_service el el' \<longleftrightarrow> el_config el' = el_config el \<and> el_connections el' = el_connections el \<and>
     el_work_queue el' = el_work_queue el \<and> el_completion_queue el' = el_completion_queue el"

inductive server_step :: "(string \<Rightarrow> u64) \<Rightarrow> 'w Os \<Rightarrow> 'w Server \<Rightarrow> 'w Server \<Rightarrow> bool" for hash os where
  step_quiet: "same_service (sv_loop sv) el \<Longrightarrow> server_step hash os sv (sv\<lparr>sv_loop := el\<rparr>)"
| step_accept: "admit_client os (sv_loop sv) accepted = Inr el \<Longrightarrow>
    server_step hash os sv (sv\<lparr>sv_loop := el, sv_accepted := Suc (sv_accepted sv)\<rparr>)"
| step_read: "find_current (el_connections (sv_loop sv)) i = Some c \<Longrightarrow>
    read_into os (el_world (sv_loop sv)) (cn_fd c) (cn_input c) = (outcome, input, w) \<Longrightarrow>
    server_step hash os sv
      (sv\<lparr>sv_loop := put_back ((sv_loop sv)\<lparr>el_world := w\<rparr>) (c\<lparr>cn_input := input\<rparr>),
          sv_wire := received_on (peer_of c)
            (recv_bytes os (el_world (sv_loop sv)) (cn_fd c) (cn_input c)) (sv_wire sv)\<rparr>)"
| step_input: "find_current (el_connections (sv_loop sv)) i = Some c \<Longrightarrow>
    process_one os (sv_loop sv) c = (r, c', el) \<Longrightarrow> r \<noteq> Some False \<Longrightarrow>
    server_step hash os sv (sv\<lparr>sv_loop := put_back el c'\<rparr>)"
| step_input_close: "find_current (el_connections (sv_loop sv)) i = Some c \<Longrightarrow>
    process_one os (sv_loop sv) c = (Some False, c', el) \<Longrightarrow>
    server_step hash os sv (close_peer os sv (put_back el c') i (cn_generation c))"
| step_stale_completion: "try_pop (el_completion_queue (sv_loop sv)) = (Some completion, q) \<Longrightarrow>
    find_connection (el_connections (sv_loop sv)) (co_connection_id completion)
      (co_connection_generation completion) = None \<Longrightarrow>
    server_step hash os sv (sv\<lparr>sv_loop := (sv_loop sv)\<lparr>el_completion_queue := q\<rparr>\<rparr>)"
| step_completion: "try_pop (el_completion_queue (sv_loop sv)) = (Some completion, q) \<Longrightarrow>
    find_connection (el_connections (sv_loop sv)) (co_connection_id completion)
      (co_connection_generation completion) = Some c \<Longrightarrow>
    record_and_push os ((sv_loop sv)\<lparr>el_completion_queue := q\<rparr>) c (co_sequence completion)
      (co_response completion) = (ok, c', el) \<Longrightarrow>
    server_step hash os sv
      (if ok then sv\<lparr>sv_loop := put_back el c'\<rparr>
       else close_peer os sv (put_back el c') (co_connection_id completion) (co_connection_generation completion))"
| step_write: "find_current (el_connections (sv_loop sv)) i = Some c \<Longrightarrow>
    write_from os (el_world (sv_loop sv)) (cn_fd c) (cn_output c) = (outcome, output, w) \<Longrightarrow>
    server_step hash os sv
      (sv\<lparr>sv_loop := put_back ((sv_loop sv)\<lparr>el_world := w\<rparr>) (c\<lparr>cn_output := output\<rparr>),
          sv_wire := sent_on (peer_of c)
            (send_bytes os (el_world (sv_loop sv)) (cn_fd c) (cn_output c)) (sv_wire sv)\<rparr>)"
| step_close: "find_current (el_connections (sv_loop sv)) i = Some c \<Longrightarrow>
    server_step hash os sv (close_peer os sv (sv_loop sv) i (cn_generation c))"
| step_worker_pop: "j < length (sv_workers sv) \<Longrightarrow> sv_workers sv ! j = Popping \<Longrightarrow>
    worker_pop (el_work_queue (sv_loop sv)) stop_requested = Some (w, q) \<Longrightarrow>
    server_step hash os sv
      (sv\<lparr>sv_loop := (sv_loop sv)\<lparr>el_work_queue := q\<rparr>, sv_workers := (sv_workers sv)[j := w]\<rparr>)"
| step_worker_exec: "j < length (sv_workers sv) \<Longrightarrow> sv_workers sv ! j = Working item \<Longrightarrow>
    worker_exec hash (sv_store sv) now item = Inr (w, st) \<Longrightarrow>
    server_step hash os sv (sv\<lparr>sv_store := st, sv_workers := (sv_workers sv)[j := w]\<rparr>)"
| step_worker_erase: "j < length (sv_workers sv) \<Longrightarrow> sv_workers sv ! j = Erasing key now completion \<Longrightarrow>
    server_step hash os sv (sv\<lparr>sv_store := erase_section hash (sv_store sv) now key,
      sv_workers := (sv_workers sv)[j := Pushing completion]\<rparr>)"
| step_worker_push: "j < length (sv_workers sv) \<Longrightarrow> sv_workers sv ! j = Pushing completion \<Longrightarrow>
    worker_push (el_completion_queue (sv_loop sv)) completion = Some (w, q, cb) \<Longrightarrow>
    server_step hash os sv (sv\<lparr>sv_loop := run_callback os cb ((sv_loop sv)\<lparr>el_completion_queue := q\<rparr>),
      sv_workers := (sv_workers sv)[j := w]\<rparr>)"
| step_sweep: "server_step hash os sv (sv\<lparr>sv_store := sweep_section (sv_store sv) now k max_items\<rparr>)"
| step_close_work: "server_step hash os sv
    (sv\<lparr>sv_loop := (sv_loop sv)\<lparr>el_work_queue := close_queue (el_work_queue (sv_loop sv))\<rparr>\<rparr>)"

text \<open>What \<^verbatim>\<open>main\<close> sets up before the first event.\<close>

definition start_server ::
  "'w Os \<Rightarrow> EventLoopConfig \<Rightarrow> Logger option \<Rightarrow> u64 \<Rightarrow> nat \<Rightarrow> nat \<Rightarrow> 'w \<Rightarrow> fault + 'w Server" where
  "start_server os config logger shard_count queue_capacity worker_count w =
     (case make_store shard_count of Inl f \<Rightarrow> Inl f | Inr st \<Rightarrow>
     (case make_queue queue_capacity of Inl f \<Rightarrow> Inl f | Inr wq \<Rightarrow>
     (case make_queue queue_capacity of Inl f \<Rightarrow> Inl f | Inr cq \<Rightarrow>
     (case make_event_loop os config logger wq cq w of (Inl f, w') \<Rightarrow> Inl f | (Inr el, w') \<Rightarrow>
     (case make_workers worker_count of Inl f \<Rightarrow> Inl f | Inr workers \<Rightarrow>
       Inr \<lparr>sv_loop = el, sv_workers = workers, sv_store = st, sv_wire = (\<lambda>p. ([], [])), sv_accepted = 0\<rparr>)))))"

end
