(* ===== verification/Server_Invariant.thy ===== *)
theory Server_Invariant
  imports Server_Steps "HOL-Library.Sublist"
begin

text \<open>
  What the server does for its clients, as an invariant of its steps. The requests of a
  connection are what the parser makes of the bytes received on it; each is answered at once or
  goes to a worker, and the bytes sent are the answers in the order of the requests.
\<close>

subsection \<open>Requests\<close>

datatype ask =
    Ask_command Command
  | Ask_malformed string
  | Ask_fatal string

text \<open>
  \<open>Ran n\<close> and \<open>Answered n\<close> are the n-th command the store executed, with the response on its way
  or recorded; \<open>Refused\<close> is an answer of the event loop itself.
\<close>

datatype answer =
    Waiting
  | Ran nat
  | Answered nat
  | Refused string

type_synonym request = "ask \<times> answer"

text \<open>The requests that the parser reads off a stream of bytes, and the bytes it leaves.\<close>

fun parses :: "ask list \<Rightarrow> string \<Rightarrow> string \<Rightarrow> bool" where
  "parses [] s rest \<longleftrightarrow> s = rest"
| "parses (a # as) s rest \<longleftrightarrow> (case parse_command s of
      NeedMoreData \<Rightarrow> False
    | ParsedCommand c n \<Rightarrow> a = Ask_command c \<and> parses as (drop n s) rest
    | ParseError e \<Rightarrow>
        if pe_recoverable e then a = Ask_malformed (pe_message e) \<and> parses as (drop (pe_consumed_bytes e) s) rest
        else a = Ask_fatal (pe_message e) \<and> as = [] \<and> rest = s)"

definition busy_replies :: "string set" where
  "busy_replies = {encode_error ''ERR server shutting down'', encode_error ''ERR server busy, try again''}"

text \<open>The answer fits the request; \<open>cmds\<close> are the commands the store executed so far.\<close>

fun request_ok :: "Command list \<Rightarrow> request \<Rightarrow> bool" where
  "request_ok cmds (Ask_command c, Waiting) \<longleftrightarrow> True"
| "request_ok cmds (Ask_command c, Ran n) \<longleftrightarrow> n < length cmds \<and> cmds ! n = c"
| "request_ok cmds (Ask_command c, Answered n) \<longleftrightarrow> n < length cmds \<and> cmds ! n = c"
| "request_ok cmds (Ask_command c, Refused r) \<longleftrightarrow> r \<in> busy_replies"
| "request_ok cmds (Ask_malformed m, a) \<longleftrightarrow> a = Refused (encode_error m)"
| "request_ok cmds (Ask_fatal m, a) \<longleftrightarrow> a = Refused (encode_error m)"

fun response :: "string list \<Rightarrow> request \<Rightarrow> string option" where
  "response replies (a, Answered n) = Some (replies ! n)"
| "response replies (a, Refused r) = Some r"
| "response replies (a, Waiting) = None"
| "response replies (a, Ran n) = None"

text \<open>The answers to the requests before the first one that is still open.\<close>

definition answers :: "string list \<Rightarrow> request list \<Rightarrow> string" where
  "answers replies rqs = concat (released (map (response replies) rqs))"



subsection \<open>What is under way\<close>

type_synonym token = "peer \<times> RequestSequence \<times> (Command + string)"

definition item_token :: "WorkItem \<Rightarrow> token" where
  "item_token item = ((wi_connection_id item, wi_connection_generation item), wi_sequence item, Inl (wi_command item))"

definition completion_token :: "Completion \<Rightarrow> token" where
  "completion_token co = ((co_connection_id co, co_connection_generation co), co_sequence co, Inr (co_response co))"

fun worker_tokens :: "Worker \<Rightarrow> token multiset" where
  "worker_tokens (Working item) = {#item_token item#}"
| "worker_tokens (Erasing key now completion) = {#completion_token completion#}"
| "worker_tokens (Pushing completion) = {#completion_token completion#}"
| "worker_tokens w = {#}"

definition tokens :: "'w Server \<Rightarrow> token multiset" where
  "tokens sv = mset (map item_token (bq_items (el_work_queue (sv_loop sv)))) +
     sum_list (map worker_tokens (sv_workers sv)) +
     mset (map completion_token (bq_items (el_completion_queue (sv_loop sv))))"

definition tokens_of :: "peer \<Rightarrow> token multiset \<Rightarrow> (RequestSequence \<times> (Command + string)) multiset" where
  "tokens_of p ts = image_mset snd (filter_mset (\<lambda>t. fst t = p) ts)"

fun request_token :: "string list \<Rightarrow> nat \<Rightarrow> request \<Rightarrow> (RequestSequence \<times> (Command + string)) multiset" where
  "request_token replies i (Ask_command c, Waiting) = {#(word_of_nat i, Inl c)#}"
| "request_token replies i (a, Ran n) = {#(word_of_nat i, Inr (replies ! n))#}"
| "request_token replies i r = {#}"

definition request_tokens :: "string list \<Rightarrow> request list \<Rightarrow> (RequestSequence \<times> (Command + string)) multiset" where
  "request_tokens replies rqs = (\<Sum>i<length rqs. request_token replies i (rqs ! i))"

subsection \<open>The invariant\<close>

text \<open>Of every connection there ever was, with the bytes on its wire and its requests.\<close>

definition history_ok :: "Command list \<Rightarrow> string list \<Rightarrow> string \<times> string \<Rightarrow> request list \<Rightarrow> bool" where
  "history_ok cmds replies wire rqs \<longleftrightarrow> (\<exists>rest. parses (map fst rqs) (fst wire) rest) \<and>
     list_all (request_ok cmds) rqs \<and> prefix (snd wire) (answers replies rqs)"

text \<open>Of a connection that is open.\<close>

definition conn_inv ::
  "Command list \<Rightarrow> string list \<Rightarrow> token multiset \<Rightarrow> string \<times> string \<Rightarrow> request list \<Rightarrow> Connection \<Rightarrow> bool" where
  "conn_inv cmds replies ts wire rqs c \<longleftrightarrow>
     buffer_ok (cn_input c) \<and> list_all (\<lambda>r. \<nexists>m. fst r = Ask_fatal m) rqs \<and>
     parses (map fst rqs) (fst wire) (bb_data (cn_input c)) \<and>
     list_all (request_ok cmds) rqs \<and>
     sequencer_ok (map (response replies) rqs) (length (released (map (response replies) rqs))) (cn_sequencer c) \<and>
     snd wire @ bb_data (cn_output c) = answers replies rqs \<and>
     tokens_of (peer_of c) ts = request_tokens replies rqs"

definition server_inv ::
  "(string \<Rightarrow> u64) \<Rightarrow> Store \<Rightarrow> EventLoopConfig \<Rightarrow> (int \<times> critical_section) list \<Rightarrow> string list \<Rightarrow>
    (peer \<Rightarrow> request list) \<Rightarrow> 'w Server \<Rightarrow> bool" where
  "server_inv hash st cfg log replies rqs sv \<longleftrightarrow>
     run_sections hash st log = Inr (replies, sv_store sv) \<and>
     el_config (sv_loop sv) = cfg \<and> \<not> bq_closed (el_completion_queue (sv_loop sv)) \<and>
     cr_next_generation (el_connections (sv_loop sv)) = word_of_nat (Suc (sv_accepted sv)) \<and>
     (\<forall>p. history_ok (log_commands log) replies (sv_wire sv p) (rqs p)) \<and>
     (\<forall>i c. find_current (el_connections (sv_loop sv)) i = Some c \<longrightarrow>
        cn_id c = i \<and> unat (cn_generation c) \<le> sv_accepted sv \<and>
        conn_inv (log_commands log) replies (tokens sv) (sv_wire sv (peer_of c)) (rqs (peer_of c)) c) \<and>
     (\<forall>t\<in>#tokens sv. unat (snd (fst t)) \<le> sv_accepted sv) \<and>
     (\<forall>p. sv_accepted sv < unat (snd p) \<longrightarrow> sv_wire sv p = ([], []))"

subsection \<open>Parsing\<close>

lemma finished_stable: "finished (parse_command s) \<Longrightarrow> parse_command (s @ t) = parse_command s"
  using finished_FrameArgs [of s] read_multibulk_frame_append [of s _ _ t] by (auto simp: parse_command_def)

lemma parses_append:
  "parses as s rest \<Longrightarrow> (\<nexists>m. Ask_fatal m \<in> set as) \<Longrightarrow> parses as (s @ t) (rest @ t)"
proof (induction as arbitrary: s)
  case (Cons a as)
  from Cons.prems have f: "finished (parse_command s)" by (auto split: ParseResult.splits if_splits)
  with Cons show ?case
    using parse_command_consumes [of s]
    by (auto simp: finished_stable [OF f] split: ParseResult.splits if_splits)
qed simp

lemma parses_snoc:
  "parses as s r \<Longrightarrow> (\<nexists>m. Ask_fatal m \<in> set as) \<Longrightarrow> parses [a] r rest \<Longrightarrow> parses (as @ [a]) s rest"
  by (induction as arbitrary: s) (auto split: ParseResult.splits if_splits)

subsection \<open>Tokens\<close>

lemma tokens_of_simps [simp]:
  "tokens_of p {#} = {#}" "tokens_of p (a + b) = tokens_of p a + tokens_of p b"
  "tokens_of p (add_mset t a) = (if fst t = p then add_mset (snd t) (tokens_of p a) else tokens_of p a)"
  by (simp_all add: tokens_of_def)

lemma tokens_of_others:
  assumes "filter_mset (\<lambda>t. fst t \<noteq> p) a = filter_mset (\<lambda>t. fst t \<noteq> p) b" and "q \<noteq> p"
  shows "tokens_of q a = tokens_of q b"
proof -
  have "filter_mset (\<lambda>t. fst t = q) x = filter_mset (\<lambda>t. fst t = q) (filter_mset (\<lambda>t. fst t \<noteq> p) x)" for x :: "token multiset"
    using assms(2) by (auto simp: filter_filter_mset intro!: filter_mset_cong)
  with assms(1) show ?thesis unfolding tokens_of_def by metis
qed

lemma request_tokens_snoc:
  "request_tokens replies (rqs @ [r]) = request_tokens replies rqs + request_token replies (length rqs) r"
  by (simp add: request_tokens_def nth_append)

lemma request_tokens_update:
  assumes "i < length rqs"
  shows "request_tokens replies (rqs[i := r]) + request_token replies i (rqs ! i) =
    request_tokens replies rqs + request_token replies i r"
proof -
  have i: "i \<in> {..<length rqs}" using assms by simp
  have "(\<Sum>j\<in>{..<length rqs} - {i}. request_token replies j (rqs[i := r] ! j)) =
      (\<Sum>j\<in>{..<length rqs} - {i}. request_token replies j (rqs ! j))"
    by (rule sum.cong) auto
  then show ?thesis
    using assms sum.remove [OF finite_lessThan i, of "\<lambda>j. request_token replies j (rqs[i := r] ! j)"]
      sum.remove [OF finite_lessThan i, of "\<lambda>j. request_token replies j (rqs ! j)"]
    by (simp add: request_tokens_def ac_simps)
qed

lemma in_request_tokens:
  assumes "t \<in># request_tokens replies rqs"
  shows "\<exists>i<length rqs. t \<in># request_token replies i (rqs ! i)"
proof -
  have "t \<in># (\<Sum>i<n. request_token replies i (rqs ! i)) \<Longrightarrow> \<exists>i<n. t \<in># request_token replies i (rqs ! i)" for n
    by (induction n) (auto simp: less_Suc_eq)
  with assms show ?thesis by (simp add: request_tokens_def)
qed

lemma waiting_token:
  assumes "(s, Inl c) \<in># request_tokens replies rqs"
  obtains i where "i < length rqs" "rqs ! i = (Ask_command c, Waiting)" "s = word_of_nat i"
proof -
  from in_request_tokens [OF assms] obtain i where i: "i < length rqs"
    "(s, Inl c) \<in># request_token replies i (rqs ! i)" by blast
  obtain a w where "rqs ! i = (a, w)" by (cases "rqs ! i")
  with i show ?thesis by (cases a; cases w) (auto intro!: that [of i])
qed

lemma ran_token:
  assumes "(s, Inr r) \<in># request_tokens replies rqs"
  obtains i a n where "i < length rqs" "rqs ! i = (a, Ran n)" "s = word_of_nat i" "r = replies ! n"
proof -
  from in_request_tokens [OF assms] obtain i where i: "i < length rqs"
    "(s, Inr r) \<in># request_token replies i (rqs ! i)" by blast
  obtain a w where "rqs ! i = (a, w)" by (cases "rqs ! i")
  with i show ?thesis by (cases a; cases w) (auto intro!: that [of i])
qed

subsection \<open>Recording an answer\<close>

lemma push_responses_output:
  "push_responses os el c ready = (ok, c', el') \<Longrightarrow>
   \<exists>out. bb_data (cn_output c') = bb_data (cn_output c) @ out \<and> prefix out (concat ready) \<and>
     (ok \<longrightarrow> out = concat ready)"
proof (induction os el c ready rule: push_responses.induct)
  case (2 os el c response ready)
  obtain b buf where a: "buffer_append (cn_output c) response = (b, buf)"
    by (cases "buffer_append (cn_output c) response")
  show ?case
  proof (cases b)
    case True
    with a have d: "bb_data buf = bb_data (cn_output c) @ response"
      using buffer_append_data(1) [of "cn_output c" response] by simp
    from "2.IH" [OF a [symmetric]] True "2.prems" a obtain out where
      "bb_data (cn_output c') = bb_data buf @ out" "prefix out (concat ready)" "ok \<longrightarrow> out = concat ready"
      by auto
    with d show ?thesis by (intro exI [of _ "response @ out"]) simp
  next
    case False
    with "2.prems" a show ?thesis by auto
  qed
qed simp

lemma record_and_push_output:
  assumes "sequencer_ok R (length (released R)) (cn_sequencer c)" and "i < length R" and "R ! i = None"
    and "record_and_push os el c (word_of_nat i) resp = (ok, c', el')"
  shows "sequencer_ok (R[i := Some resp]) (length (released (R[i := Some resp]))) (cn_sequencer c')"
    and "\<exists>out. bb_data (cn_output c') = bb_data (cn_output c) @ out \<and>
      prefix (concat (released R) @ out) (concat (released (R[i := Some resp]))) \<and>
      (ok \<longrightarrow> concat (released R) @ out = concat (released (R[i := Some resp])))"
proof -
  obtain ready sq where r: "record_response (cn_sequencer c) (word_of_nat i) resp = (ready, sq)"
    by (cases "record_response (cn_sequencer c) (word_of_nat i) resp")
  with assms(4) have p: "push_responses os el (c\<lparr>cn_sequencer := sq\<rparr>) ready = (ok, c', el')"
    by (simp add: record_and_push_def)
  note ok = record_response_correct [OF assms(1-3) r]
  from push_responses_frame [OF p] ok
  show "sequencer_ok (R[i := Some resp]) (length (released (R[i := Some resp]))) (cn_sequencer c')" by simp
  from push_responses_output [OF p] ok
  show "\<exists>out. bb_data (cn_output c') = bb_data (cn_output c) @ out \<and>
      prefix (concat (released R) @ out) (concat (released (R[i := Some resp]))) \<and>
      (ok \<longrightarrow> concat (released R) @ out = concat (released (R[i := Some resp])))"
    by auto
qed

subsection \<open>More of the log\<close>

lemma response_more:
  assumes "request_ok cmds r" and "length cmds = length replies"
  shows "response (replies @ extra) r = response replies r"
    and "request_token (replies @ extra) i r = request_token replies i r"
    and "request_ok (cmds @ extra') r"
  using assms by (cases "(cmds, r)" rule: request_ok.cases; auto simp: nth_append)+

lemma responses_more:
  assumes "list_all (request_ok cmds) rqs" and "length cmds = length replies"
  shows "map (response (replies @ extra)) rqs = map (response replies) rqs"
    and "request_tokens (replies @ extra) rqs = request_tokens replies rqs"
    and "list_all (request_ok (cmds @ extra')) rqs"
proof -
  have nth: "request_ok cmds (rqs ! i)" if "i < length rqs" for i
    using assms(1) that by (simp add: list_all_length)
  show "map (response (replies @ extra)) rqs = map (response replies) rqs"
    using response_more(1) [OF nth assms(2)] by (simp add: list_eq_iff_nth_eq)
  show "request_tokens (replies @ extra) rqs = request_tokens replies rqs"
    using response_more(2) [OF nth assms(2)] by (simp add: request_tokens_def)
  show "list_all (request_ok (cmds @ extra')) rqs"
    using response_more(3) [OF nth assms(2)] by (simp add: list_all_length)
qed

lemma conn_inv_more:
  assumes "conn_inv cmds replies ts wire rqs c" and "length cmds = length replies"
  shows "conn_inv (cmds @ extra) (replies @ extra') ts wire rqs c"
proof -
  have ok: "list_all (request_ok cmds) rqs" using assms(1) by (simp add: conn_inv_def)
  from assms(1) show ?thesis
    by (simp add: conn_inv_def answers_def responses_more [OF ok assms(2)])
qed

lemma history_ok_more:
  assumes "history_ok cmds replies wire rqs" and "length cmds = length replies"
  shows "history_ok (cmds @ extra) (replies @ extra') wire rqs"
proof -
  have ok: "list_all (request_ok cmds) rqs" using assms(1) by (simp add: history_ok_def)
  from assms(1) show ?thesis
    by (simp add: history_ok_def answers_def responses_more [OF ok assms(2)])
qed

lemma conn_inv_history: "conn_inv cmds replies ts wire rqs c \<Longrightarrow> history_ok cmds replies wire rqs"
  unfolding conn_inv_def history_ok_def prefix_def by metis

end
