(* ===== verification/Server_Workers.thy ===== *)
theory Server_Workers
  imports Server_Invariant
begin

text \<open>
  How the invariant survives a change to one connection, and the steps of the workers and of the
  sweeper.
\<close>

subsection \<open>Changing one connection\<close>

lemma server_invD:
  assumes "server_inv hash st cfg log replies rqs sv"
  shows "length (log_commands log) = length replies"
    and "history_ok (log_commands log) replies (sv_wire sv p) (rqs p)"
    and "find_current (el_connections (sv_loop sv)) i = Some c \<Longrightarrow> cn_id c = i"
    and "find_current (el_connections (sv_loop sv)) i = Some c \<Longrightarrow> unat (cn_generation c) \<le> sv_accepted sv"
    and "find_current (el_connections (sv_loop sv)) i = Some c \<Longrightarrow>
      conn_inv (log_commands log) replies (tokens sv) (sv_wire sv (peer_of c)) (rqs (peer_of c)) c"
    and "t \<in># tokens sv \<Longrightarrow> unat (snd (fst t)) \<le> sv_accepted sv"
    and "sv_accepted sv < unat (snd p) \<Longrightarrow> sv_wire sv p = ([], [])"
  using assms run_sections_length [of hash st log replies "sv_store sv"]
  by (auto simp: server_inv_def simp del: split_paired_All)

text \<open>
  The connections other than \<open>p\<close> do not notice: \<open>conns\<close> is what became of the registry, the
  connection of \<open>p\<close> being changed or gone.
\<close>

lemma server_inv_others:
  assumes inv: "server_inv hash st cfg log replies rqs sv" and p: "unat (snd p) \<le> sv_accepted sv"
    and cfg: "el_config (sv_loop sv') = el_config (sv_loop sv)"
      "bq_closed (el_completion_queue (sv_loop sv')) = bq_closed (el_completion_queue (sv_loop sv))"
    and st: "sv_store sv' = sv_store sv"
    and acc: "sv_accepted sv' = sv_accepted sv"
    and gen: "cr_next_generation (el_connections (sv_loop sv')) = cr_next_generation (el_connections (sv_loop sv))"
    and wire: "sv_wire sv' = (sv_wire sv)(p := w)"
    and ts: "filter_mset (\<lambda>t. fst t \<noteq> p) (tokens sv') = filter_mset (\<lambda>t. fst t \<noteq> p) (tokens sv)"
    and conns: "\<And>i c. find_current (el_connections (sv_loop sv')) i = Some c \<Longrightarrow>
      peer_of c \<noteq> p \<and> find_current (el_connections (sv_loop sv)) i = Some c \<or>
      i = fst p \<and> peer_of c = p \<and> conn_inv (log_commands log) replies (tokens sv') w rs c"
    and hist: "history_ok (log_commands log) replies w rs"
  shows "server_inv hash st cfg log replies (rqs(p := rs)) sv'"
proof -
  have other: "conn_inv (log_commands log) replies (tokens sv') (sv_wire sv (peer_of c)) (rqs (peer_of c)) c"
    if "find_current (el_connections (sv_loop sv)) i = Some c" "peer_of c \<noteq> p" for i c
    using server_invD(5) [OF inv that(1)] tokens_of_others [OF ts that(2)] by (simp add: conn_inv_def)
  have tok: "unat (snd (fst t)) \<le> sv_accepted sv" if "t \<in># tokens sv'" for t
  proof (cases "fst t = p")
    case False
    with that have "t \<in># filter_mset (\<lambda>t. fst t \<noteq> p) (tokens sv')" by simp
    then have "t \<in># tokens sv" unfolding ts by simp
    then show ?thesis by (rule server_invD(6) [OF inv])
  qed (use p in simp)
  have conn: "cn_id c = i \<and> unat (cn_generation c) \<le> sv_accepted sv \<and>
      conn_inv (log_commands log) replies (tokens sv') (sv_wire sv' (peer_of c)) ((rqs(p := rs)) (peer_of c)) c"
    if c: "find_current (el_connections (sv_loop sv')) i = Some c" for i c
    using conns [OF c]
  proof
    assume "peer_of c \<noteq> p \<and> find_current (el_connections (sv_loop sv)) i = Some c"
    then show ?thesis
      using server_invD(3,4) [OF inv, of i c] other [of i c] by (simp add: wire)
  qed (use p in \<open>auto simp: wire peer_of_def\<close>)
  have "sv_wire sv' q = ([], [])" if "sv_accepted sv < unat (snd q)" for q
    using server_invD(7) [OF inv that] that p by (auto simp: wire)
  with inv conn tok hist show ?thesis
    by (simp add: server_inv_def cfg st acc gen wire del: split_paired_All)
qed

lemma put_back_connections:
  "find_current (el_connections (put_back el c)) i =
     (if i = cn_id c then Some c else find_current (el_connections el) i)"
  "cr_next_generation (el_connections (put_back el c)) = cr_next_generation (el_connections el)"
  by (simp_all add: put_back_def put_connection_def find_current_def)

lemma server_inv_update:
  assumes inv: "server_inv hash st cfg log replies rqs sv"
    and c: "find_current (el_connections (sv_loop sv)) i = Some c"
    and el: "el_connections el = el_connections (sv_loop sv)" "el_config el = el_config (sv_loop sv)"
      "bq_closed (el_completion_queue el) = bq_closed (el_completion_queue (sv_loop sv))"
    and same: "same_peer c c'"
    and ts: "filter_mset (\<lambda>t. fst t \<noteq> peer_of c) (tokens (sv\<lparr>sv_loop := el\<rparr>)) = filter_mset (\<lambda>t. fst t \<noteq> peer_of c) (tokens sv)"
    and wire: "sv_wire sv' = (sv_wire sv)(peer_of c := w)"
    and sv': "sv_loop sv' = put_back el c'" "sv_store sv' = sv_store sv" "sv_accepted sv' = sv_accepted sv"
      "sv_workers sv' = sv_workers sv"
    and new: "conn_inv (log_commands log) replies (tokens (sv\<lparr>sv_loop := el\<rparr>)) w rs c'"
  shows "server_inv hash st cfg log replies (rqs(peer_of c := rs)) sv'"
proof (rule server_inv_others [OF inv])
  have tok: "tokens sv' = tokens (sv\<lparr>sv_loop := el\<rparr>)" by (simp add: tokens_def sv')
  note id = server_invD(3) [OF inv c]
  show "unat (snd (peer_of c)) \<le> sv_accepted sv" using server_invD(4) [OF inv c] by (simp add: peer_of_def)
  show "filter_mset (\<lambda>t. fst t \<noteq> peer_of c) (tokens sv') = filter_mset (\<lambda>t. fst t \<noteq> peer_of c) (tokens sv)"
    using ts by (simp add: tok)
  show "history_ok (log_commands log) replies w rs" by (rule conn_inv_history [OF new])
  show "peer_of d \<noteq> peer_of c \<and> find_current (el_connections (sv_loop sv)) k = Some d \<or>
      k = fst (peer_of c) \<and> peer_of d = peer_of c \<and> conn_inv (log_commands log) replies (tokens sv') w rs d"
    if "find_current (el_connections (sv_loop sv')) k = Some d" for k d
    using that new same id server_invD(3) [OF inv, of k d]
    by (auto simp: sv' put_back_connections el tok peer_of_def same_peer_def split: if_splits)
qed (use el sv' wire in \<open>simp_all add: put_back_connections\<close>)

lemma close_connection_connections:
  assumes "find_connection (el_connections el) i g = Some c"
  shows "find_current (el_connections (close_connection os el i g)) k =
      (if k = i then None else find_current (el_connections el) k)"
    and "cr_next_generation (el_connections (close_connection os el i g)) = cr_next_generation (el_connections el)"
  using assms
  by (auto simp: close_connection_def registry_defs split: option.splits if_splits prod.splits)

lemma server_inv_close:
  assumes inv: "server_inv hash st cfg log replies rqs sv"
    and c: "find_current (el_connections (sv_loop sv)) i = Some c"
    and el: "el_connections el = el_connections (sv_loop sv)" "el_config el = el_config (sv_loop sv)"
      "bq_closed (el_completion_queue el) = bq_closed (el_completion_queue (sv_loop sv))"
    and same: "same_peer c c'"
    and ts: "filter_mset (\<lambda>t. fst t \<noteq> peer_of c) (tokens (sv\<lparr>sv_loop := el\<rparr>)) = filter_mset (\<lambda>t. fst t \<noteq> peer_of c) (tokens sv)"
    and hist: "history_ok (log_commands log) replies
      (fst (sv_wire sv (peer_of c)), snd (sv_wire sv (peer_of c)) @ bb_data (cn_output c')) rs"
  shows "server_inv hash st cfg log replies (rqs(peer_of c := rs)) (close_peer os sv (put_back el c') i (cn_generation c))"
proof -
  let ?el = "put_back el c'" and ?g = "cn_generation c"
  let ?sv = "close_peer os sv ?el i ?g"
  note id = server_invD(3) [OF inv c]
  have found: "find_connection (el_connections ?el) i ?g = Some c'"
    using same id by (auto simp: find_connection_def put_back_def put_connection_def same_peer_def)
  define bytes where "bytes = send_bytes os (el_world ?el) (cn_fd c') (cn_output c')"
  have wire: "sv_wire ?sv = (sv_wire sv)(peer_of c := (fst (sv_wire sv (peer_of c)), snd (sv_wire sv (peer_of c)) @ bytes))"
    using id by (simp add: close_peer_def close_wire_def found sent_on_def bytes_def peer_of_def)
  have "prefix bytes (bb_data (cn_output c'))" by (simp add: bytes_def send_bytes_def take_is_prefix)
  then have h: "history_ok (log_commands log) replies
      (fst (sv_wire sv (peer_of c)), snd (sv_wire sv (peer_of c)) @ bytes) rs"
    using hist by (auto simp: history_ok_def prefix_def)
  have tok: "tokens ?sv = tokens (sv\<lparr>sv_loop := el\<rparr>)" by (simp add: tokens_def close_peer_def)
  show ?thesis
  proof (rule server_inv_others [OF inv _ _ _ _ _ _ wire _ _ h])
    show "unat (snd (peer_of c)) \<le> sv_accepted sv" using server_invD(4) [OF inv c] by (simp add: peer_of_def)
    show "peer_of d \<noteq> peer_of c \<and> find_current (el_connections (sv_loop sv)) k = Some d \<or>
        k = fst (peer_of c) \<and> peer_of d = peer_of c \<and> conn_inv (log_commands log) replies (tokens ?sv)
          (fst (sv_wire sv (peer_of c)), snd (sv_wire sv (peer_of c)) @ bytes) rs d"
      if "find_current (el_connections (sv_loop ?sv)) k = Some d" for k d
      using that same id server_invD(3) [OF inv, of k d]
      by (auto simp: close_peer_def close_connection_connections [OF found] put_back_connections el peer_of_def
          same_peer_def split: if_splits)
  qed (use ts tok el close_connection_connections(2) [OF found] in
        \<open>simp_all add: close_peer_def put_back_connections\<close>)
qed

subsection \<open>Steps that change no connection\<close>

lemma server_inv_same:
  assumes "server_inv hash st cfg log replies rqs sv"
    and "el_config el = el_config (sv_loop sv)" "el_connections el = el_connections (sv_loop sv)"
      "bq_closed (el_completion_queue el) = bq_closed (el_completion_queue (sv_loop sv))"
    and "tokens (sv\<lparr>sv_loop := el, sv_workers := ws\<rparr>) = tokens sv"
  shows "server_inv hash st cfg log replies rqs (sv\<lparr>sv_loop := el, sv_workers := ws\<rparr>)"
  using assms by (simp add: server_inv_def)

text \<open>A critical section of the store.\<close>

lemma server_inv_section:
  assumes inv: "server_inv hash st cfg log replies rqs sv"
    and sec: "run_sections hash (sv_store sv) [e] = Inr (rs, st')"
  shows "server_inv hash st cfg (log @ [e]) (replies @ rs) rqs (sv\<lparr>sv_store := st'\<rparr>)"
proof -
  have "run_sections hash st (log @ [e]) = Inr (replies @ rs, st')"
    using inv sec by (simp add: server_inv_def run_sections_append)
  moreover have "tokens (sv\<lparr>sv_store := st'\<rparr>) = tokens sv" by (simp add: tokens_def)
  moreover note len = server_invD(1) [OF inv]
  ultimately show ?thesis
    using inv conn_inv_more [OF _ len] history_ok_more [OF _ len]
    by (simp add: server_inv_def del: split_paired_All)
qed

lemma server_inv_worker_pop:
  assumes inv: "server_inv hash st cfg log replies rqs sv" and j: "j < length (sv_workers sv)" "sv_workers sv ! j = Popping"
    and pop: "worker_pop (el_work_queue (sv_loop sv)) stop_requested = Some (w, q)"
  shows "server_inv hash st cfg log replies rqs
    (sv\<lparr>sv_loop := (sv_loop sv)\<lparr>el_work_queue := q\<rparr>, sv_workers := (sv_workers sv)[j := w]\<rparr>)"
proof (rule server_inv_same [OF inv])
  show "tokens (sv\<lparr>sv_loop := (sv_loop sv)\<lparr>el_work_queue := q\<rparr>, sv_workers := (sv_workers sv)[j := w]\<rparr>) = tokens sv"
    using pop sum_list_map_update [OF j(1), of worker_tokens w] j(2)
    by (auto simp: tokens_def elim!: worker_pop_cases)
qed simp_all

lemma run_callback_service [simp]:
  "el_work_queue (run_callback os cb el) = el_work_queue el"
  "el_completion_queue (run_callback os cb el) = el_completion_queue el"
  "el_connections (run_callback os cb el) = el_connections el" "el_config (run_callback os cb el) = el_config el"
  by (simp_all add: run_callback_def wake_def split: option.splits callback.splits)

lemma server_inv_worker_push:
  assumes inv: "server_inv hash st cfg log replies rqs sv" and j: "j < length (sv_workers sv)" "sv_workers sv ! j = Pushing completion"
    and push: "worker_push (el_completion_queue (sv_loop sv)) completion = Some (w, q, cb)"
  shows "server_inv hash st cfg log replies rqs
    (sv\<lparr>sv_loop := run_callback os cb ((sv_loop sv)\<lparr>el_completion_queue := q\<rparr>), sv_workers := (sv_workers sv)[j := w]\<rparr>)"
proof -
  have "\<not> bq_closed (el_completion_queue (sv_loop sv))" using inv by (simp add: server_inv_def)
  with push have w: "w = Popping" and q: "bq_items q = bq_items (el_completion_queue (sv_loop sv)) @ [completion]"
    "bq_closed q = bq_closed (el_completion_queue (sv_loop sv))"
    by (auto elim!: worker_push_cases)
  show ?thesis
  proof (rule server_inv_same [OF inv])
    show "tokens (sv\<lparr>sv_loop := run_callback os cb ((sv_loop sv)\<lparr>el_completion_queue := q\<rparr>),
        sv_workers := (sv_workers sv)[j := w]\<rparr>) = tokens sv"
      using sum_list_map_update [OF j(1), of worker_tokens w] j(2) q
      by (simp add: tokens_def w ac_simps)
  qed (simp_all add: q)
qed

lemma server_inv_worker_erase:
  assumes inv: "server_inv hash st cfg log replies rqs sv"
    and j: "j < length (sv_workers sv)" "sv_workers sv ! j = Erasing key now completion"
  shows "server_inv hash st cfg (log @ [(now, Erase_section key)]) replies rqs
    (sv\<lparr>sv_store := erase_section hash (sv_store sv) now key, sv_workers := (sv_workers sv)[j := Pushing completion]\<rparr>)"
proof -
  let ?sv = "sv\<lparr>sv_store := erase_section hash (sv_store sv) now key\<rparr>"
  have "server_inv hash st cfg (log @ [(now, Erase_section key)]) (replies @ []) rqs ?sv"
    by (rule server_inv_section [OF inv]) simp
  moreover have "tokens (?sv\<lparr>sv_loop := sv_loop ?sv, sv_workers := (sv_workers sv)[j := Pushing completion]\<rparr>) = tokens ?sv"
    using sum_list_map_update [OF j(1), of worker_tokens "Pushing completion"] j(2) by (simp add: tokens_def)
  ultimately show ?thesis
    using server_inv_same [of hash st cfg "log @ [(now, Erase_section key)]" replies rqs ?sv "sv_loop ?sv"
        "(sv_workers sv)[j := Pushing completion]"] by simp
qed

text \<open>A worker executes a command: the request it belongs to has run.\<close>

lemma conn_inv_ran:
  assumes inv: "conn_inv cmds replies ts wire rqs c" and n: "n < length cmds" "cmds ! n = command"
    and old: "(s, Inl command) \<in># tokens_of (peer_of c) ts"
    and new: "add_mset (s, Inl command) (tokens_of (peer_of c) ts') =
      add_mset (s, Inr (replies ! n)) (tokens_of (peer_of c) ts)"
  shows "\<exists>rs. conn_inv cmds replies ts' wire rs c"
proof -
  have eq: "tokens_of (peer_of c) ts = request_tokens replies rqs" using inv by (simp add: conn_inv_def)
  from old [unfolded eq] obtain i where i: "i < length rqs" "rqs ! i = (Ask_command command, Waiting)"
    "s = word_of_nat i" by (rule waiting_token)
  let ?rs = "rqs[i := (Ask_command command, Ran n)]"
  have fst: "map fst ?rs = map fst rqs" using i by (simp add: map_update list_update_same_conv)
  have resp: "map (response replies) ?rs = map (response replies) rqs"
    using i by (simp add: map_update list_update_same_conv)
  have "add_mset (s, Inl command) (tokens_of (peer_of c) ts') = add_mset (s, Inl command) (request_tokens replies ?rs)"
    using new request_tokens_update [OF i(1), of replies "(Ask_command command, Ran n)"] i eq by simp
  then have "tokens_of (peer_of c) ts' = request_tokens replies ?rs" by simp
  moreover have "list_all (request_ok cmds) ?rs" "list_all (\<lambda>r. \<nexists>m. fst r = Ask_fatal m) ?rs"
    using inv n i by (auto simp: conn_inv_def list_all_iff dest!: set_update_subset_insert [THEN subsetD])
  ultimately have "conn_inv cmds replies ts' wire ?rs c"
    using inv by (simp add: conn_inv_def fst resp answers_def)
  then show ?thesis ..
qed

lemma server_inv_worker_exec:
  assumes inv: "server_inv hash st cfg log replies rqs sv"
    and j: "j < length (sv_workers sv)" "sv_workers sv ! j = Working item"
    and exec: "worker_exec hash (sv_store sv) now item = Inr (w, st')"
  shows "\<exists>replies' rqs'. server_inv hash st cfg (log @ [(now, Command_section (wi_command item))]) replies' rqs'
    (sv\<lparr>sv_store := st', sv_workers := (sv_workers sv)[j := w]\<rparr>)"
proof -
  from exec obtain resp where d: "command_section hash (sv_store sv) now (wi_command item) = Inr (resp, st')"
    and w: "worker_tokens w = {#completion_token (completion_of item resp)#}"
    by (auto elim!: worker_exec_cases)
  let ?log = "log @ [(now, Command_section (wi_command item))]" and ?replies = "replies @ [resp]"
  let ?sv = "sv\<lparr>sv_store := st'\<rparr>" and ?p = "(wi_connection_id item, wi_connection_generation item)"
  let ?sv' = "?sv\<lparr>sv_workers := (sv_workers sv)[j := w]\<rparr>"
  have inv1: "server_inv hash st cfg ?log ?replies rqs ?sv"
    using d by (intro server_inv_section [OF inv]) simp
  have "add_mset (item_token item) (tokens ?sv') =
      add_mset (completion_token (completion_of item resp)) (tokens ?sv)"
    using sum_list_map_update [OF j(1), of worker_tokens w] j(2) by (simp add: tokens_def w)
  then have ts: "add_mset (?p, wi_sequence item, Inl (wi_command item)) (tokens ?sv') =
      add_mset (?p, wi_sequence item, Inr resp) (tokens ?sv)"
    by (simp add: item_token_def completion_token_def completion_of_def)
  have other: "filter_mset (\<lambda>t. fst t \<noteq> ?p) (tokens ?sv') = filter_mset (\<lambda>t. fst t \<noteq> ?p) (tokens ?sv)"
    using arg_cong [OF ts, of "filter_mset (\<lambda>t. fst t \<noteq> ?p)"] by simp
  have new: "add_mset (wi_sequence item, Inl (wi_command item)) (tokens_of ?p (tokens ?sv')) =
      add_mset (wi_sequence item, Inr resp) (tokens_of ?p (tokens ?sv))"
    using arg_cong [OF ts, of "tokens_of ?p"] by simp
  have "(?p, wi_sequence item, Inl (wi_command item)) \<in># tokens ?sv"
    using ts [THEN arg_cong, of "\<lambda>m. (?p, wi_sequence item, Inl (wi_command item)) \<in># m"] by simp
  then have old: "(wi_sequence item, Inl (wi_command item)) \<in># tokens_of ?p (tokens ?sv)"
    and p: "unat (snd ?p) \<le> sv_accepted ?sv"
    using server_invD(6) [OF inv1] by (force simp: tokens_of_def)+
  note upd = server_inv_others [OF inv1 p, of ?sv' "sv_wire sv ?p"]
  show ?thesis
  proof (cases "\<exists>i c. find_current (el_connections (sv_loop sv)) i = Some c \<and> peer_of c = ?p")
    case True
    then obtain i c where c: "find_current (el_connections (sv_loop sv)) i = Some c" "peer_of c = ?p" by blast
    have inv_c: "conn_inv (log_commands ?log) ?replies (tokens ?sv) (sv_wire sv ?p) (rqs ?p) c"
      using server_invD(5) [OF inv1, of i c] c by simp
    have n: "length replies < length (log_commands ?log)" "log_commands ?log ! length replies = wi_command item"
      using server_invD(1) [OF inv] by (simp_all add: nth_append)
    have "\<exists>rs. conn_inv (log_commands ?log) ?replies (tokens ?sv') (sv_wire sv ?p) rs c"
      by (rule conn_inv_ran [OF inv_c n]) (use old new c in simp_all)
    then obtain rs where rs: "conn_inv (log_commands ?log) ?replies (tokens ?sv') (sv_wire sv ?p) rs c" ..
    have "server_inv hash st cfg ?log ?replies (rqs(?p := rs)) ?sv'"
    proof (rule upd)
      show "peer_of d \<noteq> ?p \<and> find_current (el_connections (sv_loop ?sv)) k = Some d \<or>
          k = fst ?p \<and> peer_of d = ?p \<and> conn_inv (log_commands ?log) ?replies (tokens ?sv') (sv_wire sv ?p) rs d"
        if "find_current (el_connections (sv_loop ?sv')) k = Some d" for k d
        using that rs c server_invD(3) [OF inv, of k d] server_invD(3) [OF inv, of i c] by (auto simp: peer_of_def)
      show "history_ok (log_commands ?log) ?replies (sv_wire sv ?p) rs" by (rule conn_inv_history [OF rs])
    qed (use other in simp_all)
    then show ?thesis by (intro exI)
  next
    case False
    have "server_inv hash st cfg ?log ?replies (rqs(?p := rqs ?p)) ?sv'"
    proof (rule upd)
      show "history_ok (log_commands ?log) ?replies (sv_wire sv ?p) (rqs ?p)"
        using server_invD(2) [OF inv1, of ?p] by simp
    qed (use False other in auto)
    then show ?thesis by (intro exI)
  qed
qed

end
