(* ===== verification/Server_Correct.thy ===== *)
theory Server_Correct
  imports Server_Workers
begin

text \<open>
  The steps of the event loop keep the invariant, and what follows for the clients.
\<close>

subsection \<open>Reading and writing\<close>

lemma read_into_bytes:
  assumes "recv_bounded os" and "buffer_ok b" and "read_into os w fd b = (outcome, b', w')"
  shows "bb_data b' = bb_data b @ recv_bytes os w fd b \<and> buffer_ok b'"
proof -
  have le: "length (bb_data b) \<le> bb_capacity b" using assms(2) by (simp add: buffer_ok_def)
  let ?n = "min (bb_capacity b - length (bb_data b)) kReadChunkSize"
  obtain r w1 where r: "os_recv os w fd ?n = (r, w1)" by (cases "os_recv os w fd ?n")
  have "bb_data (snd (buffer_append b ds)) = bb_data b @ ds" if "r = Inr ds" for ds
  proof -
    have "length ds \<le> ?n" using assms(1) r that unfolding recv_bounded_def by blast
    with le show ?thesis by (simp add: buffer_append_def)
  qed
  then have "bb_data b' = bb_data b @ recv_bytes os w fd b"
    using assms(3) r le by (auto simp: read_into_def recv_bytes_def Let_def split: if_splits sum.splits)
  with read_into_ok [OF assms(2,3)] show ?thesis by blast
qed

lemma write_from_bytes:
  "write_from os w fd b = (outcome, b', w') \<Longrightarrow> send_bytes os w fd b @ bb_data b' = bb_data b"
  by (auto simp: write_from_def send_bytes_def split: if_splits prod.splits sum.splits)

lemma no_fatal: "list_all (\<lambda>r. \<nexists>m. fst r = Ask_fatal m) rqs \<Longrightarrow> \<nexists>m. Ask_fatal m \<in> set (map fst rqs)"
  by (fastforce simp: list_all_iff)

lemma tokens_world [simp]: "tokens (sv\<lparr>sv_loop := (sv_loop sv)\<lparr>el_world := w\<rparr>\<rparr>) = tokens sv"
  by (simp add: tokens_def)

lemma server_inv_read:
  assumes inv: "server_inv hash st cfg log replies rqs sv" and os: "recv_bounded os"
    and c: "find_current (el_connections (sv_loop sv)) i = Some c"
    and r: "read_into os (el_world (sv_loop sv)) (cn_fd c) (cn_input c) = (outcome, input, w)"
  shows "\<exists>rqs'. server_inv hash st cfg log replies rqs'
    (sv\<lparr>sv_loop := put_back ((sv_loop sv)\<lparr>el_world := w\<rparr>) (c\<lparr>cn_input := input\<rparr>),
        sv_wire := received_on (peer_of c) (recv_bytes os (el_world (sv_loop sv)) (cn_fd c) (cn_input c)) (sv_wire sv)\<rparr>)"
proof -
  note ci = server_invD(5) [OF inv c]
  let ?bytes = "recv_bytes os (el_world (sv_loop sv)) (cn_fd c) (cn_input c)" and ?rs = "rqs (peer_of c)"
  have i: "bb_data input = bb_data (cn_input c) @ ?bytes" "buffer_ok input"
    using read_into_bytes [OF os _ r] ci by (auto simp: conn_inv_def)
  have "parses (map fst ?rs) (fst (sv_wire sv (peer_of c)) @ ?bytes) (bb_data input)"
    unfolding i(1) using ci by (intro parses_append no_fatal) (simp_all add: conn_inv_def)
  then have new: "conn_inv (log_commands log) replies (tokens sv)
      (fst (sv_wire sv (peer_of c)) @ ?bytes, snd (sv_wire sv (peer_of c))) ?rs (c\<lparr>cn_input := input\<rparr>)"
    using ci i by (simp add: conn_inv_def peer_of_def)
  show ?thesis
    by (rule exI, rule server_inv_update [OF inv c, of "(sv_loop sv)\<lparr>el_world := w\<rparr>" "c\<lparr>cn_input := input\<rparr>"
          _ "(fst (sv_wire sv (peer_of c)) @ ?bytes, snd (sv_wire sv (peer_of c)))" ?rs])
      (use new in \<open>simp_all add: received_on_def\<close>)
qed

lemma server_inv_write:
  assumes inv: "server_inv hash st cfg log replies rqs sv"
    and c: "find_current (el_connections (sv_loop sv)) i = Some c"
    and r: "write_from os (el_world (sv_loop sv)) (cn_fd c) (cn_output c) = (outcome, out, w)"
  shows "\<exists>rqs'. server_inv hash st cfg log replies rqs'
    (sv\<lparr>sv_loop := put_back ((sv_loop sv)\<lparr>el_world := w\<rparr>) (c\<lparr>cn_output := out\<rparr>),
        sv_wire := sent_on (peer_of c) (send_bytes os (el_world (sv_loop sv)) (cn_fd c) (cn_output c)) (sv_wire sv)\<rparr>)"
proof -
  let ?bytes = "send_bytes os (el_world (sv_loop sv)) (cn_fd c) (cn_output c)" and ?rs = "rqs (peer_of c)"
  have new: "conn_inv (log_commands log) replies (tokens sv)
      (fst (sv_wire sv (peer_of c)), snd (sv_wire sv (peer_of c)) @ ?bytes) ?rs (c\<lparr>cn_output := out\<rparr>)"
    using server_invD(5) [OF inv c] write_from_bytes [OF r] by (simp add: conn_inv_def peer_of_def)
  show ?thesis
    by (rule exI, rule server_inv_update [OF inv c, of "(sv_loop sv)\<lparr>el_world := w\<rparr>" "c\<lparr>cn_output := out\<rparr>"
          _ "(fst (sv_wire sv (peer_of c)), snd (sv_wire sv (peer_of c)) @ ?bytes)" ?rs])
      (use new in \<open>simp_all add: sent_on_def frame_defs\<close>)
qed

lemma put_back_same:
  "find_current (el_connections el) i = Some c \<Longrightarrow> cn_id c = i \<Longrightarrow> put_back el c = el"
  by (auto simp: put_back_def put_connection_def find_current_def fun_upd_idem)

lemma server_inv_close_only:
  assumes inv: "server_inv hash st cfg log replies rqs sv"
    and c: "find_current (el_connections (sv_loop sv)) i = Some c"
  shows "\<exists>rqs'. server_inv hash st cfg log replies rqs' (close_peer os sv (sv_loop sv) i (cn_generation c))"
proof -
  note ci = server_invD(5) [OF inv c]
  have "history_ok (log_commands log) replies
      (fst (sv_wire sv (peer_of c)), snd (sv_wire sv (peer_of c)) @ bb_data (cn_output c)) (rqs (peer_of c))"
    using ci by (auto simp: conn_inv_def history_ok_def)
  from server_inv_close [OF inv c refl refl refl same_refl(1) _ this, of os] show ?thesis
    by (auto simp: put_back_same [OF c server_invD(3) [OF inv c]])
qed

subsection \<open>Accepting\<close>

lemma admit_client_connections:
  assumes "admit_client os el a = Inr el'"
  shows "cr_next_generation (el_connections el') = cr_next_generation (el_connections el) + 1"
    and "el_config el' = el_config el" "el_work_queue el' = el_work_queue el"
      "el_completion_queue el' = el_completion_queue el"
    and "find_current (el_connections el') i = Some c \<Longrightarrow>
      i \<noteq> ac_fd a \<and> find_current (el_connections el) i = Some c \<or>
      i = ac_fd a \<and> cn_id c = i \<and> cn_generation c = cr_next_generation (el_connections el) \<and> buffer_ok (cn_input c) \<and>
      bb_data (cn_input c) = [] \<and> bb_data (cn_output c) = [] \<and> cn_sequencer c = new_sequencer"
proof -
  from assms obtain n cl r where add: "registry_add (el_connections el) (ac_fd a) (ac_peer_address a)
      (ec_max_input_bytes (el_config el)) (ec_max_output_bytes (el_config el)) = Inr (n, cl, r)"
    by (auto simp: admit_client_def split: sum.splits)
  note r = registry_add_Inr [OF add]
  have mk: "make_connection (ac_fd a) (cr_next_generation (el_connections el)) (ac_fd a) (ac_peer_address a)
      (ec_max_input_bytes (el_config el)) (ec_max_output_bytes (el_config el)) = Inr n"
    using add by (auto simp: registry_add_def Let_def split: prod.splits sum.splits)
  obtain b cl' r' where close: "registry_close r (cn_id n) (cn_generation n) = (b, cl', r')"
    by (cases "registry_close r (cn_id n) (cn_generation n)") auto
  have r': "r' = r\<lparr>cr_connections := (cr_connections r)(ac_fd a := None)\<rparr>"
    using close r by (auto elim!: registry_close_cases simp: registry_close_def registry_erase_def)
  have el': "(el_connections el' = r \<or> el_connections el' = r') \<and> el_config el' = el_config el \<and>
      el_work_queue el' = el_work_queue el \<and> el_completion_queue el' = el_completion_queue el"
    using assms add close
    by (auto simp: admit_client_def Let_def warn_def split: sum.splits prod.splits option.splits)
  then show "cr_next_generation (el_connections el') = cr_next_generation (el_connections el) + 1"
    "el_config el' = el_config el" "el_work_queue el' = el_work_queue el"
    "el_completion_queue el' = el_completion_queue el" using r r' by auto
  show "i \<noteq> ac_fd a \<and> find_current (el_connections el) i = Some c \<or>
      i = ac_fd a \<and> cn_id c = i \<and> cn_generation c = cr_next_generation (el_connections el) \<and> buffer_ok (cn_input c) \<and>
      bb_data (cn_input c) = [] \<and> bb_data (cn_output c) = [] \<and> cn_sequencer c = new_sequencer"
    if "find_current (el_connections el') i = Some c"
    using that el' r r' make_connection_Inr [OF mk]
    by (auto simp: find_current_def connection_ok_def split: if_splits)
qed

lemma server_inv_accept:
  assumes inv: "server_inv hash st cfg log replies rqs sv" and a: "admit_client os (sv_loop sv) accepted = Inr el"
    and room: "Suc (sv_accepted sv) < 2 ^ 64 - 1"
  shows "\<exists>rqs'. server_inv hash st cfg log replies rqs' (sv\<lparr>sv_loop := el, sv_accepted := Suc (sv_accepted sv)\<rparr>)"
proof -
  note adm = admit_client_connections [OF a]
  let ?g = "cr_next_generation (el_connections (sv_loop sv))"
  let ?p = "(ac_fd accepted, ?g)" and ?sv = "sv\<lparr>sv_loop := el, sv_accepted := Suc (sv_accepted sv)\<rparr>"
  have g: "?g = word_of_nat (Suc (sv_accepted sv))" using inv by (simp add: server_inv_def)
  then have ug: "unat ?g = Suc (sv_accepted sv)" using room by (simp add: unat_of_nat take_bit_nat_eq_self del: of_nat_Suc)
  have wire: "sv_wire sv ?p = ([], [])" using server_invD(7) [OF inv, of ?p] ug by simp
  have tok: "tokens ?sv = tokens sv" by (simp add: tokens_def adm)
  have "set_mset (tokens_of ?p (tokens sv)) = {}"
    using server_invD(6) [OF inv] ug by (fastforce simp: tokens_of_def)
  then have none: "tokens_of ?p (tokens sv) = {#}" by simp
  have conn: "cn_id c = i \<and> unat (cn_generation c) \<le> Suc (sv_accepted sv) \<and>
      conn_inv (log_commands log) replies (tokens sv) (sv_wire sv (peer_of c)) ((rqs(?p := [])) (peer_of c)) c"
    if "find_current (el_connections el) i = Some c" for i c
    using adm(5) [OF that]
  proof
    assume o: "i \<noteq> ac_fd accepted \<and> find_current (el_connections (sv_loop sv)) i = Some c"
    then have "peer_of c \<noteq> ?p" using server_invD(3) [OF inv, of i c] by (auto simp: peer_of_def)
    with o server_invD(3-5) [OF inv, of i c] show ?thesis by auto
  next
    assume n: "i = ac_fd accepted \<and> cn_id c = i \<and> cn_generation c = ?g \<and> buffer_ok (cn_input c) \<and>
      bb_data (cn_input c) = [] \<and> bb_data (cn_output c) = [] \<and> cn_sequencer c = new_sequencer"
    then have "peer_of c = ?p" by (simp add: peer_of_def)
    with n wire none ug show ?thesis
      by (simp add: conn_inv_def answers_def released_def sequencer_ok_def new_sequencer_def pending_from_def
          request_tokens_def)
  qed
  have "server_inv hash st cfg log replies (rqs(?p := [])) ?sv"
    unfolding server_inv_def
    using inv adm conn tok server_invD(2,6,7) [OF inv] wire g
    by (auto simp: server_inv_def history_ok_def answers_def released_def le_Suc_eq simp del: split_paired_All
        intro: Suc_lessD)
  then show ?thesis by (intro exI)
qed

subsection \<open>Input\<close>

text \<open>The three outcomes of a round of the input loop.\<close>

lemma process_one_cases:
  assumes "process_one os el c = (r, c', el')"
  obtains (idle) "r = Some True" "c' = c" "el' = el"
  | (queued) command n sequence wq cb where
      "unat (in_flight_count (cn_sequencer c)) < ec_max_in_flight_per_connection (el_config el)"
      "parse_command (bb_data (cn_input c)) = ParsedCommand command n"
      "take_sequence (c\<lparr>cn_input := buffer_consume (cn_input c) n\<rparr>) = (sequence, c')"
      "try_push (el_work_queue el) \<lparr>wi_connection_id = cn_id c', wi_connection_generation = cn_generation c',
        wi_sequence = sequence, wi_command = command\<rparr> = (PushOk, wq, cb)"
      "el' = run_callback os cb (el\<lparr>el_work_queue := wq\<rparr>)" "r = None"
  | (answered) a reply inp sequence c1 el1 ok where
      "unat (in_flight_count (cn_sequencer c)) < ec_max_in_flight_per_connection (el_config el)"
      "parses [a] (bb_data (cn_input c)) (bb_data inp)" "buffer_ok (cn_input c) \<Longrightarrow> buffer_ok inp"
      "\<And>cmds. request_ok cmds (a, Refused reply)"
      "take_sequence (c\<lparr>cn_input := inp\<rparr>) = (sequence, c1)" "same_service el el1"
      "record_and_push os el1 c1 sequence reply = (ok, c', el')"
      "r \<noteq> Some False \<Longrightarrow> ok \<and> (\<nexists>m. a = Ask_fatal m)"
proof (cases "ec_max_in_flight_per_connection (el_config el) \<le> unat (in_flight_count (cn_sequencer c))")
  case True
  with assms show ?thesis by (intro idle) (simp_all add: process_one_def)
next
  case room: False
  have ok: "buffer_ok (buffer_consume b n)" if "buffer_ok b" for b n using that by (rule buffer_consume_ok)
  have warn: "same_service el (warn os el m)" for m
    by (simp add: warn_def same_service_def split: option.splits)
  show ?thesis
  proof (cases "parse_command (bb_data (cn_input c))")
    case NeedMoreData
    with assms room show ?thesis by (intro idle) (simp_all add: process_one_def)
  next
    case (ParsedCommand command n)
    let ?inp = "buffer_consume (cn_input c) n"
    obtain s c1 where t: "take_sequence (c\<lparr>cn_input := ?inp\<rparr>) = (s, c1)"
      by (cases "take_sequence (c\<lparr>cn_input := ?inp\<rparr>)")
    let ?item = "\<lparr>wi_connection_id = cn_id c1, wi_connection_generation = cn_generation c1,
      wi_sequence = s, wi_command = command\<rparr>"
    obtain status q cb where p: "try_push (el_work_queue el) ?item = (status, q, cb)"
      by (cases "try_push (el_work_queue el) ?item") auto
    show ?thesis
    proof (cases "status = PushOk")
      case True
      with assms room ParsedCommand t p show ?thesis by (intro queued [of command n s q cb]) (auto simp: process_one_def)
    next
      case False
      define el1 where "el1 = (if status = PushFull
        then warn os el ''resource limit: work queue full, replying busy'' else el)"
      define reply where "reply = (if status = PushClosed then encode_error ''ERR server shutting down''
        else encode_error ''ERR server busy, try again'')"
      have q: "q = el_work_queue el" "cb = None" using p False by (auto simp: try_push_def split: if_splits)
      obtain ok c2 el2 where rp: "record_and_push os el1 c1 s reply = (ok, c2, el2)"
        by (cases "record_and_push os el1 c1 s reply")
      have cb: "run_callback os cb (el\<lparr>el_work_queue := q\<rparr>) = el" by (simp add: q run_callback_def)
      have "r = (if ok then None else Some False)" "c' = c2" "el' = el2"
        using assms room ParsedCommand t p False rp
        by (simp_all add: process_one_def Let_def cb el1_def [symmetric] reply_def [symmetric] cong: if_cong)
      with room ParsedCommand ok t rp warn show ?thesis
        by (intro answered [of "Ask_command command" ?inp reply s c1 el1 ok])
          (auto simp: reply_def busy_replies_def el1_def same_service_def split: if_splits)
    qed
  next
    case (ParseError e)
    define inp where "inp = (if pe_recoverable e then buffer_consume (cn_input c) (pe_consumed_bytes e) else cn_input c)"
    define el1 where "el1 = (if pe_recoverable e then el else warn os el ''malformed request: closing connection'')"
    define a where "a = (if pe_recoverable e then Ask_malformed (pe_message e) else Ask_fatal (pe_message e))"
    obtain s c1 where t: "take_sequence (c\<lparr>cn_input := inp\<rparr>) = (s, c1)" by (cases "take_sequence (c\<lparr>cn_input := inp\<rparr>)")
    obtain ok c2 el2 where rp: "record_and_push os el1 c1 s (encode_error (pe_message e)) = (ok, c2, el2)"
      by (cases "record_and_push os el1 c1 s (encode_error (pe_message e))")
    have "r = (if ok \<and> pe_recoverable e then None else Some False)" "c' = c2" "el' = el2"
      using assms room ParseError t rp by (auto simp: process_one_def inp_def el1_def split: if_splits)
    with room ParseError ok t rp warn show ?thesis
      by (intro answered [of a inp "encode_error (pe_message e)" s c1 el1 ok])
        (auto simp: a_def inp_def el1_def same_service_def split: if_splits)
  qed
qed

lemma take_sequence_ok_next:
  assumes "sequencer_ok R (length (released R)) (cn_sequencer c)" and "take_sequence c = (sequence, c')"
    and "unat (in_flight_count (cn_sequencer c)) < m" and "m < 2 ^ 64"
  shows "sequence = word_of_nat (length R)" and
    "sequencer_ok (R @ [None]) (length (released (R @ [None]))) (cn_sequencer c')"
proof -
  from in_flight_count_eq [OF assms(1)] assms(3,4) have "Suc (length R) - length (released R) < 2 ^ 64" by simp
  with assms(1,2) show "sequence = word_of_nat (length R)"
    "sequencer_ok (R @ [None]) (length (released (R @ [None]))) (cn_sequencer c')"
    by (auto simp: take_sequence_def next_request_sequence_def sequencer_ok_def released_snoc pending_from_snoc
        length_released_le le_SucI)
qed

text \<open>A request that the event loop answers itself.\<close>

lemma conn_inv_answered:
  assumes inv: "conn_inv cmds replies ts wire rqs c"
    and room: "unat (in_flight_count (cn_sequencer c)) < m" "m < 2 ^ 64"
    and a: "parses [a] (bb_data (cn_input c)) (bb_data inp)" "buffer_ok (cn_input c) \<Longrightarrow> buffer_ok inp"
      "request_ok cmds (a, Refused reply)"
    and t: "take_sequence (c\<lparr>cn_input := inp\<rparr>) = (sequence, c1)"
    and p: "record_and_push os el c1 sequence reply = (ok, c', el')"
  shows "history_ok cmds replies (fst wire, snd wire @ bb_data (cn_output c')) (rqs @ [(a, Refused reply)])"
    and "ok \<Longrightarrow> \<nexists>m. a = Ask_fatal m \<Longrightarrow> conn_inv cmds replies ts wire (rqs @ [(a, Refused reply)]) c'"
proof -
  let ?rs = "rqs @ [(a, Refused reply)]" and ?R = "map (response replies) rqs @ [None]"
  have "sequencer_ok (map (response replies) rqs) (length (released (map (response replies) rqs)))
      (cn_sequencer (c\<lparr>cn_input := inp\<rparr>))" using inv by (simp add: conn_inv_def)
  note s = take_sequence_ok_next [OF this t] take_sequence_frame [OF t]
  have "sequence = word_of_nat (length rqs)" and s1: "sequencer_ok ?R (length (released ?R)) (cn_sequencer c1)"
    using s(1,2) room by simp_all
  note out = record_and_push_output [OF s1 _ _ p [unfolded \<open>sequence = _\<close>]] and fr = record_and_push_frame [OF p]
  have R: "?R[length rqs := Some reply] = map (response replies) ?rs"
    by (simp add: list_update_append)
  have parse: "parses (map fst ?rs) (fst wire) (bb_data inp)"
    using inv parses_snoc [OF _ no_fatal a(1), of rqs "fst wire"] by (simp add: conn_inv_def)
  have rok: "list_all (request_ok cmds) ?rs" using inv a(3) by (simp add: conn_inv_def)
  have d: "bb_data (cn_output c1) = bb_data (cn_output c)" using s(3) by simp
  have o: "snd wire @ bb_data (cn_output c) = concat (released ?R)"
    using inv by (simp add: conn_inv_def answers_def released_snoc)
  from out(2) d obtain bytes where bytes: "bb_data (cn_output c') = bb_data (cn_output c) @ bytes"
    "prefix (concat (released ?R) @ bytes) (answers replies ?rs)"
    "ok \<longrightarrow> concat (released ?R) @ bytes = answers replies ?rs"
    by (auto simp: answers_def R nth_append)
  have seq: "sequencer_ok (map (response replies) ?rs) (length (released (map (response replies) ?rs))) (cn_sequencer c')"
    using out(1) by (simp add: R nth_append)
  show "history_ok cmds replies (fst wire, snd wire @ bb_data (cn_output c')) ?rs"
    using parse rok bytes(1,2) o by (auto simp: history_ok_def simp flip: append_assoc)
  show "conn_inv cmds replies ts wire ?rs c'" if "ok" "\<nexists>m. a = Ask_fatal m"
    using inv parse rok seq bytes o fr s(3) a(2) that
    by (auto simp: conn_inv_def request_tokens_snoc peer_of_def same_peer_def simp flip: append_assoc)
qed

text \<open>A request that goes to the workers.\<close>

lemma conn_inv_queued:
  assumes inv: "conn_inv cmds replies ts wire rqs c"
    and room: "unat (in_flight_count (cn_sequencer c)) < m" "m < 2 ^ 64"
    and parse: "parse_command (bb_data (cn_input c)) = ParsedCommand command n"
    and t: "take_sequence (c\<lparr>cn_input := buffer_consume (cn_input c) n\<rparr>) = (sequence, c')"
  shows "conn_inv cmds replies (add_mset (peer_of c, sequence, Inl command) ts) wire
    (rqs @ [(Ask_command command, Waiting)]) c'"
proof -
  let ?inp = "buffer_consume (cn_input c) n"
  have "sequencer_ok (map (response replies) rqs) (length (released (map (response replies) rqs)))
      (cn_sequencer (c\<lparr>cn_input := ?inp\<rparr>))" using inv by (simp add: conn_inv_def)
  note s = take_sequence_ok_next [OF this t] take_sequence_frame [OF t]
  have "parses [Ask_command command] (bb_data (cn_input c)) (bb_data ?inp)" by (simp add: parse)
  from parses_snoc [OF _ no_fatal this, of rqs "fst wire"] inv
  have "parses (map fst rqs @ [Ask_command command]) (fst wire) (bb_data ?inp)" by (simp add: conn_inv_def)
  with inv s room buffer_consume_ok [of "cn_input c" n] show ?thesis
    by (auto simp: conn_inv_def request_tokens_snoc peer_of_def same_peer_def answers_def released_snoc)
qed

lemma server_inv_input:
  assumes inv: "server_inv hash st cfg log replies rqs sv" and cfg: "ec_max_in_flight_per_connection cfg < 2 ^ 64"
    and c: "find_current (el_connections (sv_loop sv)) i = Some c"
    and p: "process_one os (sv_loop sv) c = (r, c', el)"
  shows "r \<noteq> Some False \<Longrightarrow> \<exists>rqs'. server_inv hash st cfg log replies rqs' (sv\<lparr>sv_loop := put_back el c'\<rparr>)"
    and "r = Some False \<Longrightarrow> \<exists>rqs'. server_inv hash st cfg log replies rqs'
      (close_peer os sv (put_back el c') i (cn_generation c))"
proof -
  let ?rs = "rqs (peer_of c)" and ?wire = "sv_wire sv (peer_of c)"
  note ci = server_invD(5) [OF inv c] and id = server_invD(3) [OF inv c]
  have m: "ec_max_in_flight_per_connection (el_config (sv_loop sv)) < 2 ^ 64"
    using inv cfg by (simp add: server_inv_def)
  have wire: "sv_wire sv = (sv_wire sv)(peer_of c := ?wire)" by simp
  from p have "(r \<noteq> Some False \<longrightarrow> (\<exists>rqs'. server_inv hash st cfg log replies rqs' (sv\<lparr>sv_loop := put_back el c'\<rparr>))) \<and>
    (r = Some False \<longrightarrow> (\<exists>rqs'. server_inv hash st cfg log replies rqs'
      (close_peer os sv (put_back el c') i (cn_generation c))))"
  proof (cases rule: process_one_cases)
    case idle
    have "sv\<lparr>sv_loop := sv_loop sv\<rparr> = sv" by simp
    with idle inv put_back_same [OF c id] show ?thesis by auto
  next
    case (queued command n sequence wq cb)
    note new = conn_inv_queued [OF ci queued(1) m queued(2,3)]
    have same: "same_peer c c'" using take_sequence_frame [OF queued(3)] by simp
    have items: "bq_items wq = bq_items (el_work_queue (sv_loop sv)) @
        [\<lparr>wi_connection_id = cn_id c', wi_connection_generation = cn_generation c', wi_sequence = sequence,
          wi_command = command\<rparr>]"
      using queued(4) by (auto simp: try_push_def split: if_splits)
    have tok: "tokens (sv\<lparr>sv_loop := el\<rparr>) = add_mset (peer_of c, sequence, Inl command) (tokens sv)"
      using same by (simp add: queued(5) tokens_def items item_token_def peer_of_def same_peer_def)
    have "server_inv hash st cfg log replies (rqs(peer_of c := ?rs @ [(Ask_command command, Waiting)]))
        (sv\<lparr>sv_loop := put_back el c'\<rparr>)"
      by (rule server_inv_update [OF inv c _ _ _ same _ _ _ _ _ _ new [folded tok]])
        (simp_all add: queued(5) tok [unfolded queued(5)])
    with queued(6) show ?thesis by auto
  next
    case (answered a reply inp sequence c1 el1 ok)
    note new = conn_inv_answered [OF ci answered(1) m answered(2-5,7)]
    have same: "same_peer c c'"
      using take_sequence_frame [OF answered(5)] record_and_push_frame [OF answered(7)] by (auto intro: same_trans)
    have el: "el_connections el = el_connections (sv_loop sv)" "el_config el = el_config (sv_loop sv)"
      "el_work_queue el = el_work_queue (sv_loop sv)" "el_completion_queue el = el_completion_queue (sv_loop sv)"
      using record_and_push_frame [OF answered(7)] answered(6) by (auto simp: same_service_def same_loop_def)
    have tok: "tokens (sv\<lparr>sv_loop := el\<rparr>) = tokens sv" by (simp add: tokens_def el)
    have "server_inv hash st cfg log replies (rqs(peer_of c := ?rs @ [(a, Refused reply)]))
        (close_peer os sv (put_back el c') i (cn_generation c))"
      by (rule server_inv_close [OF inv c _ _ _ same _ new(1)]) (simp_all add: el tok)
    moreover have "server_inv hash st cfg log replies (rqs(peer_of c := ?rs @ [(a, Refused reply)]))
        (sv\<lparr>sv_loop := put_back el c'\<rparr>)" if "r \<noteq> Some False"
      by (rule server_inv_update [OF inv c _ _ _ same _ _ _ _ _ _ new(2) [folded tok]])
        (use answered(8) [OF that] in \<open>simp_all add: el tok\<close>)
    ultimately show ?thesis by blast
  qed
  then show "r \<noteq> Some False \<Longrightarrow> \<exists>rqs'. server_inv hash st cfg log replies rqs' (sv\<lparr>sv_loop := put_back el c'\<rparr>)"
    and "r = Some False \<Longrightarrow> \<exists>rqs'. server_inv hash st cfg log replies rqs'
      (close_peer os sv (put_back el c') i (cn_generation c))"
    by blast+
qed

subsection \<open>Completions\<close>

lemma conn_inv_recorded:
  assumes inv: "conn_inv cmds replies ts wire rqs c" and ts: "ts = add_mset (peer_of c, sequence, Inr reply) ts'"
    and p: "record_and_push os el c sequence reply = (ok, c', el')"
  shows "\<exists>rs. history_ok cmds replies (fst wire, snd wire @ bb_data (cn_output c')) rs \<and>
    (ok \<longrightarrow> conn_inv cmds replies ts' wire rs c')"
proof -
  have eq: "add_mset (sequence, Inr reply) (tokens_of (peer_of c) ts') = request_tokens replies rqs"
    using inv by (simp add: conn_inv_def ts)
  have "(sequence, Inr reply) \<in># request_tokens replies rqs" by (simp flip: eq)
  then obtain i a n where i: "i < length rqs" "rqs ! i = (a, Ran n)" "sequence = word_of_nat i" "reply = replies ! n"
    by (rule ran_token)
  have "request_ok cmds (rqs ! i)" using inv i(1) by (simp add: conn_inv_def list_all_length)
  then obtain command where a: "a = Ask_command command" "n < length cmds" "cmds ! n = command"
    by (cases a) (auto simp: i(2))
  let ?R = "map (response replies) rqs" and ?rs = "rqs[i := (a, Answered n)]"
  have R: "?R[i := Some reply] = map (response replies) ?rs" by (simp add: map_update i(4))
  have none: "?R ! i = None" using i by simp
  have "sequencer_ok ?R (length (released ?R)) (cn_sequencer c)" using inv by (simp add: conn_inv_def)
  note out = record_and_push_output [OF this _ none p [unfolded i(3)], unfolded R] and fr = record_and_push_frame [OF p]
  have fst: "map fst ?rs = map fst rqs" using i by (simp add: map_update list_update_same_conv)
  have rok: "list_all (request_ok cmds) ?rs" "list_all (\<lambda>r. \<nexists>m. fst r = Ask_fatal m) ?rs"
    using inv a by (auto simp: conn_inv_def list_all_iff dest!: set_update_subset_insert [THEN subsetD])
  have "add_mset (sequence, Inr reply) (request_tokens replies ?rs) = add_mset (sequence, Inr reply) (tokens_of (peer_of c) ts')"
    using request_tokens_update [OF i(1), of replies "(a, Answered n)"] eq i a(1) by simp
  then have tok: "request_tokens replies ?rs = tokens_of (peer_of c) ts'" by simp
  have o: "snd wire @ bb_data (cn_output c) = concat (released ?R)" using inv by (simp add: conn_inv_def answers_def)
  from out(2) i(1) obtain bytes where bytes: "bb_data (cn_output c') = bb_data (cn_output c) @ bytes"
    "prefix (concat (released ?R) @ bytes) (answers replies ?rs)"
    "ok \<longrightarrow> concat (released ?R) @ bytes = answers replies ?rs"
    by (auto simp: answers_def)
  have "history_ok cmds replies (fst wire, snd wire @ bb_data (cn_output c')) ?rs"
    using inv rok bytes(1,2) o fst by (auto simp: history_ok_def conn_inv_def simp flip: append_assoc)
  moreover have "conn_inv cmds replies ts' wire ?rs c'" if "ok"
    using inv rok bytes o fr out(1) i(1) that tok
    by (auto simp: conn_inv_def fst peer_of_def same_peer_def simp flip: append_assoc)
  ultimately show ?thesis by blast
qed

lemma tokens_pop:
  assumes "try_pop (el_completion_queue (sv_loop sv)) = (Some completion, q)"
  shows "tokens sv = add_mset (completion_token completion) (tokens (sv\<lparr>sv_loop := (sv_loop sv)\<lparr>el_completion_queue := q\<rparr>\<rparr>))"
    and "bq_closed q = bq_closed (el_completion_queue (sv_loop sv))"
  using assms by (auto simp: tokens_def try_pop_def split: list.splits)

lemma server_inv_stale_completion:
  assumes inv: "server_inv hash st cfg log replies rqs sv"
    and pop: "try_pop (el_completion_queue (sv_loop sv)) = (Some completion, q)"
    and stale: "find_connection (el_connections (sv_loop sv)) (co_connection_id completion)
      (co_connection_generation completion) = None"
  shows "\<exists>rqs'. server_inv hash st cfg log replies rqs' (sv\<lparr>sv_loop := (sv_loop sv)\<lparr>el_completion_queue := q\<rparr>\<rparr>)"
proof -
  let ?p = "(co_connection_id completion, co_connection_generation completion)"
  let ?sv = "sv\<lparr>sv_loop := (sv_loop sv)\<lparr>el_completion_queue := q\<rparr>\<rparr>"
  note tok = tokens_pop(1) [OF pop]
  have p: "unat (snd ?p) \<le> sv_accepted sv"
    using server_invD(6) [OF inv, of "completion_token completion"] by (simp add: tok completion_token_def)
  have "server_inv hash st cfg log replies (rqs(?p := rqs ?p)) ?sv"
  proof (rule server_inv_others [OF inv p, where w = "sv_wire sv ?p"])
    show "peer_of c \<noteq> ?p \<and> find_current (el_connections (sv_loop sv)) i = Some c \<or>
        i = fst ?p \<and> peer_of c = ?p \<and> conn_inv (log_commands log) replies (tokens ?sv) (sv_wire sv ?p) (rqs ?p) c"
      if "find_current (el_connections (sv_loop ?sv)) i = Some c" for i c
      using that stale server_invD(3) [OF inv, of i c]
      by (auto simp: peer_of_def find_connection_def find_current_def split: option.splits if_splits)
    show "filter_mset (\<lambda>t. fst t \<noteq> ?p) (tokens ?sv) = filter_mset (\<lambda>t. fst t \<noteq> ?p) (tokens sv)"
      by (simp add: tok completion_token_def)
  qed (use tokens_pop(2) [OF pop] server_invD(2) [OF inv, of ?p] in simp_all)
  then show ?thesis by (intro exI)
qed

lemma server_inv_completion:
  assumes inv: "server_inv hash st cfg log replies rqs sv"
    and pop: "try_pop (el_completion_queue (sv_loop sv)) = (Some completion, q)"
    and c: "find_connection (el_connections (sv_loop sv)) (co_connection_id completion)
      (co_connection_generation completion) = Some c"
    and p: "record_and_push os ((sv_loop sv)\<lparr>el_completion_queue := q\<rparr>) c (co_sequence completion)
      (co_response completion) = (ok, c', el)"
  shows "\<exists>rqs'. server_inv hash st cfg log replies rqs'
    (if ok then sv\<lparr>sv_loop := put_back el c'\<rparr>
     else close_peer os sv (put_back el c') (co_connection_id completion) (co_connection_generation completion))"
proof -
  from find_connection_current [OF c] have fc: "find_current (el_connections (sv_loop sv)) (co_connection_id completion) = Some c"
    and g: "cn_generation c = co_connection_generation completion" by auto
  note fr = record_and_push_frame [OF p] and id = server_invD(3) [OF inv fc]
  have el: "el_connections el = el_connections (sv_loop sv)" "el_config el = el_config (sv_loop sv)"
    "el_work_queue el = el_work_queue (sv_loop sv)" "el_completion_queue el = q"
    using fr by (auto simp: same_loop_def)
  have tok: "tokens sv = add_mset (peer_of c, co_sequence completion, Inr (co_response completion)) (tokens (sv\<lparr>sv_loop := el\<rparr>))"
    using tokens_pop(1) [OF pop] id g by (simp add: tokens_def el completion_token_def peer_of_def)
  from conn_inv_recorded [OF server_invD(5) [OF inv fc] tok p] obtain rs where
    hist: "history_ok (log_commands log) replies (fst (sv_wire sv (peer_of c)),
      snd (sv_wire sv (peer_of c)) @ bb_data (cn_output c')) rs"
    and new: "ok \<longrightarrow> conn_inv (log_commands log) replies (tokens (sv\<lparr>sv_loop := el\<rparr>)) (sv_wire sv (peer_of c)) rs c'"
    by blast
  have others: "filter_mset (\<lambda>t. fst t \<noteq> peer_of c) (tokens (sv\<lparr>sv_loop := el\<rparr>)) = filter_mset (\<lambda>t. fst t \<noteq> peer_of c) (tokens sv)"
    by (simp add: tok)
  have q: "bq_closed (el_completion_queue el) = bq_closed (el_completion_queue (sv_loop sv))"
    using tokens_pop(2) [OF pop] by (simp add: el)
  have same: "same_peer c c'" using fr by simp
  have "server_inv hash st cfg log replies (rqs(peer_of c := rs)) (sv\<lparr>sv_loop := put_back el c'\<rparr>)" if ok
    by (rule server_inv_update [OF inv fc el(1,2) q same others]) (use new that in simp_all)
  moreover note server_inv_close [OF inv fc el(1,2) q same others hist, of os]
  ultimately show ?thesis by (auto simp: g)
qed

subsection \<open>All steps\<close>

lemma server_step_accepted: "server_step hash os sv sv' \<Longrightarrow> sv_accepted sv \<le> sv_accepted sv'"
  by (induction rule: server_step.induct) (auto simp: close_peer_def)

lemma server_step_inv:
  assumes step: "server_step hash os sv sv'" and inv: "server_inv hash st cfg log replies rqs sv"
    and os: "recv_bounded os" and cfg: "ec_max_in_flight_per_connection cfg < 2 ^ 64"
    and room: "sv_accepted sv' < 2 ^ 64 - 1"
  shows "\<exists>log' replies' rqs'. server_inv hash st cfg log' replies' rqs' sv'"
  using step
proof cases
  case (step_quiet el)
  have "server_inv hash st cfg log replies rqs (sv\<lparr>sv_loop := el, sv_workers := sv_workers sv\<rparr>)"
    using step_quiet(2) by (intro server_inv_same [OF inv]) (simp_all add: same_service_def tokens_def)
  then show ?thesis unfolding step_quiet(1) by auto
next
  case (step_accept accepted el)
  have "\<exists>rqs'. server_inv hash st cfg log replies rqs' sv'"
    unfolding step_accept(1) by (rule server_inv_accept [OF inv step_accept(2)]) (use room step_accept(1) in simp)
  then show ?thesis by blast
next
  case (step_read i c outcome input w)
  from server_inv_read [OF inv os step_read(2,3)] show ?thesis unfolding step_read(1) by blast
next
  case (step_input i c r c' el)
  from server_inv_input(1) [OF inv cfg step_input(2-4)] show ?thesis unfolding step_input(1) by blast
next
  case (step_input_close i c c' el)
  from server_inv_input(2) [OF inv cfg step_input_close(2,3)] show ?thesis unfolding step_input_close(1) by blast
next
  case (step_stale_completion completion q)
  from server_inv_stale_completion [OF inv step_stale_completion(2,3)] show ?thesis
    unfolding step_stale_completion(1) by blast
next
  case (step_completion completion q c ok c' el)
  from server_inv_completion [OF inv step_completion(2-4)] show ?thesis unfolding step_completion(1) by blast
next
  case (step_write i c outcome out w)
  from server_inv_write [OF inv step_write(2,3)] show ?thesis unfolding step_write(1) by blast
next
  case (step_close i c)
  from server_inv_close_only [OF inv step_close(2)] show ?thesis unfolding step_close(1) by blast
next
  case (step_worker_pop j stop_requested w q)
  from server_inv_worker_pop [OF inv step_worker_pop(2-4)] show ?thesis unfolding step_worker_pop(1) by blast
next
  case (step_worker_exec j item now w st')
  from server_inv_worker_exec [OF inv step_worker_exec(2-4)] show ?thesis unfolding step_worker_exec(1) by blast
next
  case (step_worker_erase j key now completion)
  from server_inv_worker_erase [OF inv step_worker_erase(2,3)] show ?thesis unfolding step_worker_erase(1) by blast
next
  case (step_worker_push j completion w q cb)
  from server_inv_worker_push [OF inv step_worker_push(2-4)] show ?thesis unfolding step_worker_push(1) by blast
next
  case (step_sweep now k max_items)
  have "server_inv hash st cfg (log @ [(now, Sweep_section k max_items)]) (replies @ []) rqs sv'"
    unfolding step_sweep(1) by (rule server_inv_section [OF inv]) simp
  then show ?thesis by blast
next
  case step_close_work
  have "server_inv hash st cfg log replies rqs (sv\<lparr>sv_loop := (sv_loop sv)\<lparr>el_work_queue :=
      close_queue (el_work_queue (sv_loop sv))\<rparr>, sv_workers := sv_workers sv\<rparr>)"
    by (rule server_inv_same [OF inv]) (simp_all add: tokens_def close_queue_def)
  then show ?thesis unfolding step_close_work(1) by auto
qed

lemma start_server_inv:
  assumes "start_server os cfg logger shard_count queue_capacity worker_count w = Inr sv"
  shows "server_inv hash (sv_store sv) cfg [] [] (\<lambda>p. []) sv" and "make_store shard_count = Inr (sv_store sv)"
proof -
  from assms obtain st wq cq el w' workers where st: "make_store shard_count = Inr st"
    and q: "make_queue queue_capacity = Inr wq" "make_queue queue_capacity = Inr cq"
    and el: "make_event_loop os cfg logger wq cq w = (Inr el, w')" and ws: "make_workers worker_count = Inr workers"
    and sv: "sv = \<lparr>sv_loop = el, sv_workers = workers, sv_store = st, sv_wire = (\<lambda>p. ([], [])), sv_accepted = 0\<rparr>"
    by (auto simp: start_server_def split: sum.splits prod.splits)
  show "make_store shard_count = Inr (sv_store sv)" using st by (simp add: sv)
  have el': "el_connections el = empty_registry" "el_config el = cfg" "el_work_queue el = wq"
    "el_completion_queue el = set_on_push cq (Some WakeEventLoop)"
    using el by (auto simp: make_event_loop_def Let_def split: prod.splits sum.splits)
  have "bq_items wq = []" "bq_items cq = []" "\<not> bq_closed cq" using q by (auto simp: make_queue_def split: if_splits)
  moreover have "workers = replicate worker_count Popping" using ws by (auto simp: make_workers_def split: if_splits)
  moreover have "sum_list (map worker_tokens (replicate n Popping)) = {#}" for n by (induction n) simp_all
  ultimately have "tokens sv = {#}" by (simp add: tokens_def sv el' set_on_push_def)
  then show "server_inv hash (sv_store sv) cfg [] [] (\<lambda>p. []) sv"
    using \<open>\<not> bq_closed cq\<close>
    by (simp add: server_inv_def sv el' empty_registry_def find_current_def history_ok_def answers_def released_def
        set_on_push_def)
qed

lemma server_reachable_inv:
  assumes start: "start_server os cfg logger shard_count queue_capacity worker_count w = Inr sv0"
    and steps: "(server_step hash os)\<^sup>*\<^sup>* sv0 sv" and os: "recv_bounded os"
    and cfg: "ec_max_in_flight_per_connection cfg < 2 ^ 64" and room: "sv_accepted sv < 2 ^ 64 - 1"
  shows "\<exists>log replies rqs. server_inv hash (sv_store sv0) cfg log replies rqs sv"
  using steps room
proof (induction)
  case base
  show ?case using start_server_inv(1) [OF start] by blast
next
  case (step sv1 sv2)
  from server_step_accepted [OF step(2)] step.prems have "sv_accepted sv1 < 2 ^ 64 - 1" by linarith
  with step.IH obtain log replies rqs where "server_inv hash (sv_store sv0) cfg log replies rqs sv1" by blast
  from server_step_inv [OF step(2) this os cfg step.prems] show ?case .
qed

end
