(* ===== verification/Server_Handlers.thy ===== *)
theory Server_Handlers
  imports Server_Steps
begin

text \<open>
  Every handler of the event loop is a sequence of steps of the server. \<open>serves hash os el el'\<close>
  says so of a change of the loop's state from \<open>el\<close> to \<open>el'\<close>, whatever the workers and the
  store are doing.
\<close>

definition serves :: "(string \<Rightarrow> u64) \<Rightarrow> 'w Os \<Rightarrow> 'w EventLoop \<Rightarrow> 'w EventLoop \<Rightarrow> bool" where
  "serves hash os el el' \<longleftrightarrow> (\<forall>sv. sv_loop sv = el \<longrightarrow>
     (\<exists>wire n. (server_step hash os)\<^sup>*\<^sup>* sv (sv\<lparr>sv_loop := el', sv_wire := wire, sv_accepted := n\<rparr>)))"

lemma servesI:
  assumes "\<And>sv. sv_loop sv = el \<Longrightarrow>
    server_step hash os sv (sv\<lparr>sv_loop := el', sv_wire := wire sv, sv_accepted := n sv\<rparr>)"
  shows "serves hash os el el'"
  unfolding serves_def using assms by blast

lemma serves_refl [simp, intro]: "serves hash os el el"
  unfolding serves_def
proof (intro allI impI)
  fix sv :: "'a Server"
  assume "sv_loop sv = el"
  then have "sv\<lparr>sv_loop := el, sv_wire := sv_wire sv, sv_accepted := sv_accepted sv\<rparr> = sv" by auto
  then show "\<exists>wire n. (server_step hash os)\<^sup>*\<^sup>* sv (sv\<lparr>sv_loop := el, sv_wire := wire, sv_accepted := n\<rparr>)"
    by (metis rtranclp.rtrancl_refl)
qed

lemma serves_trans [trans]:
  assumes "serves hash os el el1" and "serves hash os el1 el2"
  shows "serves hash os el el2"
  unfolding serves_def
proof (intro allI impI)
  fix sv :: "'a Server"
  assume "sv_loop sv = el"
  with assms(1) obtain wire n where
    s1: "(server_step hash os)\<^sup>*\<^sup>* sv (sv\<lparr>sv_loop := el1, sv_wire := wire, sv_accepted := n\<rparr>)"
    unfolding serves_def by blast
  let ?sv = "sv\<lparr>sv_loop := el1, sv_wire := wire, sv_accepted := n\<rparr>"
  from assms(2) have "\<exists>wire n. (server_step hash os)\<^sup>*\<^sup>* ?sv (?sv\<lparr>sv_loop := el2, sv_wire := wire, sv_accepted := n\<rparr>)"
    using assms(2) [unfolded serves_def, rule_format, of ?sv] by simp
  with s1 show "\<exists>wire n. (server_step hash os)\<^sup>*\<^sup>* sv (sv\<lparr>sv_loop := el2, sv_wire := wire, sv_accepted := n\<rparr>)"
    by (auto intro: rtranclp_trans)
qed

subsection \<open>Single steps\<close>

lemma serves_quiet: "same_service el el' \<Longrightarrow> serves hash os el el'"
  by (rule servesI [where wire = sv_wire and n = sv_accepted]) (auto intro: step_quiet)

lemma serves_close:
  "find_current (el_connections el) i = Some c \<Longrightarrow> serves hash os el (close_connection os el i (cn_generation c))"
  using step_close [where os = os and hash = hash]
  by (intro servesI [where wire = "\<lambda>sv. close_wire os el i (cn_generation c) (sv_wire sv)" and n = sv_accepted])
    (auto simp: close_peer_def)

lemma serves_input:
  assumes "find_current (el_connections el) i = Some c" and "process_one os el c = (r, c', el')" and "r \<noteq> Some False"
  shows "serves hash os el (put_back el' c')"
  by (rule servesI [where wire = sv_wire and n = sv_accepted]) (use assms in \<open>auto intro: step_input\<close>)

lemma serves_input_close:
  assumes "find_current (el_connections el) i = Some c" and "process_one os el c = (Some False, c', el')"
  shows "serves hash os el (close_connection os (put_back el' c') i (cn_generation c))"
  using step_input_close [where os = os and hash = hash, of _ i c c' el'] assms
  by (intro servesI [where wire = "\<lambda>sv. close_wire os (put_back el' c') i (cn_generation c) (sv_wire sv)" and n = sv_accepted])
    (auto simp: close_peer_def)

lemma serves_read:
  assumes "find_current (el_connections el) i = Some c"
    and "read_into os (el_world el) (cn_fd c) (cn_input c) = (outcome, input, w)"
  shows "serves hash os el (put_back (el\<lparr>el_world := w\<rparr>) (c\<lparr>cn_input := input\<rparr>))"
  using step_read [where os = os and hash = hash, of _ i c outcome input w] assms
  by (intro servesI [where n = sv_accepted and wire = "\<lambda>sv. received_on (peer_of c)
      (recv_bytes os (el_world el) (cn_fd c) (cn_input c)) (sv_wire sv)"]) auto

lemma serves_write:
  assumes "find_current (el_connections el) i = Some c"
    and "write_from os (el_world el) (cn_fd c) (cn_output c) = (outcome, out, w)"
  shows "serves hash os el (put_back (el\<lparr>el_world := w\<rparr>) (c\<lparr>cn_output := out\<rparr>))"
  using step_write [where os = os and hash = hash, of _ i c outcome out w] assms
  by (intro servesI [where n = sv_accepted and wire = "\<lambda>sv. sent_on (peer_of c)
      (send_bytes os (el_world el) (cn_fd c) (cn_output c)) (sv_wire sv)"]) auto

lemma serves_accept: "admit_client os el accepted = Inr el' \<Longrightarrow> serves hash os el el'"
  using step_accept [where os = os and hash = hash]
  by (intro servesI [where wire = sv_wire and n = "\<lambda>sv. Suc (sv_accepted sv)"]) auto

lemma serves_stale_completion:
  assumes "try_pop (el_completion_queue el) = (Some co, q)"
    and "find_connection (el_connections el) (co_connection_id co) (co_connection_generation co) = None"
  shows "serves hash os el (el\<lparr>el_completion_queue := q\<rparr>)"
  by (rule servesI [where wire = sv_wire and n = sv_accepted]) (use assms in \<open>auto intro: step_stale_completion\<close>)

lemma serves_completion:
  assumes "try_pop (el_completion_queue el) = (Some co, q)"
    and "find_connection (el_connections el) (co_connection_id co) (co_connection_generation co) = Some c"
    and "record_and_push os (el\<lparr>el_completion_queue := q\<rparr>) c (co_sequence co) (co_response co) = (ok, c', el')"
  shows "serves hash os el (if ok then put_back el' c'
    else close_connection os (put_back el' c') (co_connection_id co) (co_connection_generation co))"
  using step_completion [where os = os and hash = hash, of _ co q c ok c' el'] assms
  by (intro servesI [where n = sv_accepted and wire = "\<lambda>sv. if ok then sv_wire sv else
      close_wire os (put_back el' c') (co_connection_id co) (co_connection_generation co) (sv_wire sv)"])
    (auto simp: close_peer_def)

subsection \<open>The input loop\<close>

text \<open>The input loop does not look at the registry, so it works as well on a state where it is current.\<close>

lemma warn_conns: "warn os (el\<lparr>el_connections := r\<rparr>) m = (warn os el m)\<lparr>el_connections := r\<rparr>"
  by (cases el) (simp add: warn_def split: option.splits)

lemma run_callback_conns:
  "run_callback os cb (el\<lparr>el_connections := r, el_work_queue := q\<rparr>) =
   (run_callback os cb (el\<lparr>el_work_queue := q\<rparr>))\<lparr>el_connections := r\<rparr>"
  by (cases el) (simp add: run_callback_def wake_def split: option.splits callback.splits)

lemma push_responses_conns:
  "push_responses os (el\<lparr>el_connections := r\<rparr>) c ready =
     (case push_responses os el c ready of (ok, c', el') \<Rightarrow> (ok, c', el'\<lparr>el_connections := r\<rparr>))"
  by (induction ready arbitrary: c) (auto simp: warn_conns split: prod.splits bool.splits)

lemma record_and_push_conns:
  "record_and_push os (el\<lparr>el_connections := r\<rparr>) c s resp =
     (case record_and_push os el c s resp of (ok, c', el') \<Rightarrow> (ok, c', el'\<lparr>el_connections := r\<rparr>))"
  by (simp add: record_and_push_def push_responses_conns split: prod.splits)

lemma process_one_conns:
  "process_one os (el\<lparr>el_connections := r\<rparr>) c =
     (case process_one os el c of (b, c', el') \<Rightarrow> (b, c', el'\<lparr>el_connections := r\<rparr>))"
  by (auto simp: process_one_def Let_def warn_conns run_callback_conns record_and_push_conns
      split: ParseResult.splits prod.splits)

lemma process_one_put:
  assumes "process_one os el c = (r, c', el')"
  shows "process_one os (put_back el d) c = (r, c', el'\<lparr>el_connections := put_connection (el_connections el) d\<rparr>)"
    and "cn_id d = cn_id c \<Longrightarrow>
      put_back (el'\<lparr>el_connections := put_connection (el_connections el) d\<rparr>) c' = put_back el' c'"
  using assms process_one_frame [OF assms]
  by (auto simp: put_back_def process_one_conns put_connection_def same_peer_def same_loop_def)

lemma find_put_back [simp]: "find_current (el_connections (put_back el c)) (cn_id c) = Some c"
  by (simp add: put_back_def put_connection_def find_current_def)

lemma serves_process_input:
  "process_input os el c = (ok, c', el') \<Longrightarrow>
   serves hash os (put_back el c) (if ok then put_back el' c'
     else close_connection os (put_back el' c') (cn_id c) (cn_generation c))"
proof (induction os el c rule: process_input.induct)
  case (1 os el c)
  obtain r c1 el1 where p: "process_one os el c = (r, c1, el1)" by (cases "process_one os el c")
  note put = process_one_put(1) [OF p, of c] process_one_put(2) [OF p, of c, OF refl]
  have id: "cn_id c1 = cn_id c" "cn_generation c1 = cn_generation c"
    using process_one_frame [OF p] by (simp_all add: same_peer_def)
  show ?case
  proof (cases r)
    case None
    have "serves hash os (put_back el c) (put_back el1 c1)"
      using serves_input [OF find_put_back put(1)] None put(2) by simp
    also have "process_input os el1 c1 = (ok, c', el')"
      using "1.prems" p None by (simp add: process_input.simps [of os el c])
    note "1.IH" [OF p [symmetric] None refl this]
    finally show ?thesis unfolding id .
  next
    case (Some b)
    with "1.prems" p have eq: "b = ok" "c' = c1" "el' = el1" by (simp_all add: process_input.simps [of os el c])
    show ?thesis
    proof (cases ok)
      case True
      with serves_input [OF find_put_back put(1), of hash] Some put(2) eq show ?thesis by simp
    next
      case False
      with serves_input_close [OF find_put_back, of os el c c1 _ hash] Some put eq show ?thesis by simp
    qed
  qed
qed

subsection \<open>Writing\<close>

lemma serves_write_loop:
  "write_loop os (el_world el) (cn_fd c) (cn_output c) = (ok, out, w) \<Longrightarrow>
   find_current (el_connections el) (cn_id c) = Some c \<Longrightarrow>
   serves hash os el (put_back (el\<lparr>el_world := w\<rparr>) (c\<lparr>cn_output := out\<rparr>))"
proof (induction os "el_world el" "cn_fd c" "cn_output c" arbitrary: el c rule: write_loop.induct)
  case (1 os el c)
  show ?case
  proof (cases "bb_data (cn_output c) = []")
    case True
    with "1.prems" have "out = cn_output c" "w = el_world el"
      by (simp_all add: write_loop.simps [of os _ _ "cn_output c"])
    with "1.prems"(2) have "put_back (el\<lparr>el_world := w\<rparr>) (c\<lparr>cn_output := out\<rparr>) = el"
      by (auto simp: put_back_def put_connection_def find_current_def fun_upd_idem)
    then show ?thesis by simp
  next
    case False
    obtain oc out1 w1 where wf: "write_from os (el_world el) (cn_fd c) (cn_output c) = (oc, out1, w1)"
      by (cases "write_from os (el_world el) (cn_fd c) (cn_output c)")
    let ?c = "c\<lparr>cn_output := out1\<rparr>"
    let ?el = "put_back (el\<lparr>el_world := w1\<rparr>) ?c"
    have s: "serves hash os el ?el" by (rule serves_write [OF "1.prems"(2) wf])
    show ?thesis
    proof (cases "wo_status oc = WroteSome")
      case True
      then have wl: "write_loop os (el_world ?el) (cn_fd ?c) (cn_output ?c) = (ok, out, w)"
        using "1.prems"(1) wf False by (simp add: write_loop.simps [of os _ _ "cn_output c"] put_back_def)
      have "serves hash os ?el (put_back (?el\<lparr>el_world := w\<rparr>) (?c\<lparr>cn_output := out\<rparr>))"
        by (rule "1.hyps" [OF False wf [symmetric] _ True _ wl])
          (simp_all add: put_back_def put_connection_def find_current_def)
      with s have "serves hash os el (put_back (?el\<lparr>el_world := w\<rparr>) (?c\<lparr>cn_output := out\<rparr>))" by (rule serves_trans)
      then show ?thesis by (simp add: put_back_def put_connection_def)
    next
      case False
      with \<open>bb_data (cn_output c) \<noteq> []\<close> "1.prems"(1) wf have "out = out1" "w = w1"
        by (auto simp: write_loop.simps [of os _ _ "cn_output c"] split: if_splits)
      with s show ?thesis by simp
    qed
  qed
qed

lemma serves_writable:
  assumes "loop_ok cfg cap el"
  shows "serves hash os el (handle_connection_writable os el i)"
proof (cases "find_current (el_connections el) i")
  case None
  then show ?thesis by (simp add: handle_connection_writable_def)
next
  case (Some c)
  have id: "cn_id c = i" using loop_ok_conn [OF assms Some] by simp
  obtain ok out w where wl: "write_loop os (el_world el) (cn_fd c) (cn_output c) = (ok, out, w)"
    by (cases "write_loop os (el_world el) (cn_fd c) (cn_output c)")
  let ?c = "c\<lparr>cn_output := out\<rparr>"
  let ?el = "put_back (el\<lparr>el_world := w\<rparr>) ?c"
  have "serves hash os el ?el" using wl Some id by (intro serves_write_loop) simp_all
  also have "serves hash os ?el (handle_connection_writable os el i)"
  proof (cases ok)
    case True
    have "same_service ?el (update_epoll_interest os ?el ?c)" by (simp add: same_service_def update_epoll_interest_def)
    from serves_quiet [OF this] True show ?thesis by (simp add: handle_connection_writable_def Some wl Let_def)
  next
    case False
    have "find_current (el_connections ?el) i = Some ?c" using find_put_back [of "el\<lparr>el_world := w\<rparr>" ?c] id by simp
    from serves_close [OF this] False show ?thesis by (simp add: handle_connection_writable_def Some wl Let_def)
  qed
  finally show ?thesis .
qed

subsection \<open>Completions\<close>

lemma serves_handle_completion:
  assumes "try_pop (el_completion_queue el) = (Some co, q)" and "loop_ok cfg cap el"
  shows "serves hash os el (handle_completion os (el\<lparr>el_completion_queue := q\<rparr>) co)"
proof (cases "find_connection (el_connections el) (co_connection_id co) (co_connection_generation co)")
  case None
  with serves_stale_completion [OF assms(1) None] show ?thesis by (simp add: handle_completion_def)
next
  case (Some c)
  let ?el = "el\<lparr>el_completion_queue := q\<rparr>" and ?i = "co_connection_id co" and ?g = "co_connection_generation co"
  note fc = find_connection_current [OF Some] and ok = loop_ok_completion_queue [OF assms(2,1)]
  have c: "cn_id c = ?i" "cn_generation c = ?g" "conn_ok cfg c" using loop_ok_conn [OF assms(2)] fc by blast+
  obtain ok1 c1 el1 where p: "record_and_push os ?el c (co_sequence co) (co_response co) = (ok1, c1, el1)"
    by (cases "record_and_push os ?el c (co_sequence co) (co_response co)")
  note s1 = serves_completion [OF assms(1) Some p, of hash] and a1 = record_and_push_ok [OF p c(3) ok]
  have id1: "cn_id c1 = ?i" "cn_generation c1 = ?g" using record_and_push_frame [OF p] c by (auto simp: same_peer_def)
  show ?thesis
  proof (cases ok1)
    case False
    with s1 show ?thesis by (simp add: handle_completion_def Some p)
  next
    case True
    obtain ok2 c2 el2 where i: "process_input os el1 c1 = (ok2, c2, el2)" by (cases "process_input os el1 c1")
    note a2 = process_input_ok [OF i a1 [THEN conjunct1] a1 [THEN conjunct2]]
    have "serves hash os el (put_back el1 c1)" using s1 True by simp
    also note serves_process_input [OF i, of hash, unfolded id1]
    also have "serves hash os (if ok2 then put_back el2 c2 else close_connection os (put_back el2 c2) ?i ?g)
        (handle_completion os ?el co)"
      using a2 loop_ok_put [of cfg cap el2 c2]
      by (auto simp: handle_completion_def Some p True i intro: serves_writable split: bool.splits)
    finally show ?thesis .
  qed
qed

lemma serves_drain_completions: "loop_ok cfg cap el \<Longrightarrow> serves hash os el (drain_completions os el)"
proof (induction os el rule: drain_completions.induct)
  case (1 os el)
  obtain x q where p: "try_pop (el_completion_queue el) = (x, q)" by (cases "try_pop (el_completion_queue el)")
  show ?case
  proof (cases x)
    case None
    with p show ?thesis by (simp add: drain_completions.simps [of os el])
  next
    case (Some co)
    let ?el = "handle_completion os (el\<lparr>el_completion_queue := q\<rparr>) co"
    have "serves hash os el ?el" using p Some "1.prems" by (intro serves_handle_completion) simp_all
    also have "serves hash os ?el (drain_completions os ?el)"
      by (rule "1.IH" [OF p [symmetric] Some handle_completion_ok [OF loop_ok_completion_queue [OF "1.prems" p]]])
    finally show ?thesis by (simp add: drain_completions.simps [of os el] p Some)
  qed
qed

lemma serves_world: "serves hash os el (el\<lparr>el_world := w\<rparr>)"
  by (rule serves_quiet) (simp add: same_service_def)

lemma serves_drain_wakeup:
  assumes "drain_wakeup os el = Some el'" and "loop_ok cfg cap el"
  shows "serves hash os el el'"
proof -
  have "loop_ok cfg cap el \<longrightarrow> serves hash os el el'"
  proof (rule drain_wakeup.raw_induct [where P = "\<lambda>os el el'. loop_ok cfg cap el \<longrightarrow> serves hash os el el'", OF _ assms(1)])
    fix f :: "'a Os \<Rightarrow> 'a EventLoop \<Rightarrow> 'a EventLoop option" and os el el'
    assume IH: "\<And>os el el'. f os el = Some el' \<Longrightarrow> loop_ok cfg cap el \<longrightarrow> serves hash os el el'"
      and eq: "(case os_eventfd_read os (el_world el) (el_wakeup_fd el) of
        (more_to_read, w) \<Rightarrow> if more_to_read then f os (el\<lparr>el_world := w\<rparr>)
          else Some (drain_completions os (el\<lparr>el_world := w\<rparr>))) = Some el'"
    obtain b w where r: "os_eventfd_read os (el_world el) (el_wakeup_fd el) = (b, w)"
      by (cases "os_eventfd_read os (el_world el) (el_wakeup_fd el)")
    have "serves hash os (el\<lparr>el_world := w\<rparr>) el'" if "loop_ok cfg cap el"
      using eq r that IH [of os "el\<lparr>el_world := w\<rparr>" el'] by (auto split: if_splits intro: serves_drain_completions)
    then show "loop_ok cfg cap el \<longrightarrow> serves hash os el el'"
      using serves_trans [OF serves_world [of hash os el w]] by blast
  qed
  with assms(2) show ?thesis by blast
qed

subsection \<open>Accepting and reading\<close>

lemma serves_listener:
  assumes "handle_listener_readable os el = Some (Inr el')"
  shows "serves hash os el el'"
proof -
  let ?P = "\<lambda>os el res. \<forall>el'. res = Inr el' \<longrightarrow> serves hash os el el'"
  have "?P os el res" if "handle_listener_readable os el = Some res" for res
  proof (rule handle_listener_readable.raw_induct [where P = ?P, OF _ that])
    fix f :: "'a Os \<Rightarrow> 'a EventLoop \<Rightarrow> (fault + 'a EventLoop) option" and os el res
    assume IH: "\<And>os el res. f os el = Some res \<Longrightarrow> ?P os el res"
      and eq: "(case accept_one os (el_world el) (el_listener el) of
        None \<Rightarrow> None
      | Some (result, w) \<Rightarrow>
          (case result of
             Inl f \<Rightarrow> Some (Inl f)
           | Inr None \<Rightarrow> Some (Inr (el\<lparr>el_world := w\<rparr>))
           | Inr (Some accepted) \<Rightarrow>
               (case admit_client os (el\<lparr>el_world := w\<rparr>) accepted of
                  Inl f \<Rightarrow> Some (Inl f)
                | Inr el' \<Rightarrow> f os el'))) = Some res"
    show "?P os el res"
    proof (intro allI impI)
      fix el'
      assume "res = Inr el'"
      with eq obtain a w where acc: "accept_one os (el_world el) (el_listener el) = Some (Inr a, w)"
        by (auto split: option.splits sum.splits)
      show "serves hash os el el'"
      proof (cases a)
        case None
        with eq acc \<open>res = Inr el'\<close> show ?thesis by (auto intro: serves_world)
      next
        case (Some accepted)
        with eq acc \<open>res = Inr el'\<close> obtain el1 where el1: "admit_client os (el\<lparr>el_world := w\<rparr>) accepted = Inr el1"
          and f: "f os el1 = Some res" by (auto split: sum.splits)
        have "serves hash os el (el\<lparr>el_world := w\<rparr>)" by (rule serves_world)
        also have "serves hash os \<dots> el1" by (rule serves_accept [OF el1])
        also have "serves hash os el1 el'" using IH [OF f] \<open>res = Inr el'\<close> by blast
        finally show ?thesis .
      qed
    qed
  qed
  with assms show ?thesis by blast
qed

lemma serves_read_into:
  assumes "read_into os (el_world el) (cn_fd c) (cn_input c) = (outcome, input, w)"
  shows "serves hash os (put_back el c) (put_back (el\<lparr>el_world := w\<rparr>) (c\<lparr>cn_input := input\<rparr>))"
proof -
  have "serves hash os (put_back el c) (put_back ((put_back el c)\<lparr>el_world := w\<rparr>) (c\<lparr>cn_input := input\<rparr>))"
    by (rule serves_read [OF find_put_back]) (use assms in \<open>simp add: put_back_def\<close>)
  then show ?thesis by (simp add: put_back_def put_connection_def)
qed

text \<open>
  The read loop, with the connection written back: it ends in a state where the connection is
  current, or the last thing it did was to close it.
\<close>

lemma serves_read_loop:
  assumes "read_loop os el c = Some (b, c', el')"
  shows "serves hash os (put_back el c) (if b then put_back el' c'
    else close_connection os (put_back el' c') (cn_id c) (cn_generation c))"
proof -
  let ?P = "\<lambda>os el c res. \<forall>b c' el'. res = (b, c', el') \<longrightarrow> serves hash os (put_back el c) (if b then put_back el' c'
    else close_connection os (put_back el' c') (cn_id c) (cn_generation c))"
  have "?P os el c res" if "read_loop os el c = Some res" for res
  proof (rule read_loop.raw_induct [where P = ?P, OF _ that])
    fix f :: "'a Os \<Rightarrow> 'a EventLoop \<Rightarrow> Connection \<Rightarrow> (bool \<times> Connection \<times> 'a EventLoop) option" and os el c res
    assume IH: "\<And>os el c res. f os el c = Some res \<Longrightarrow> ?P os el c res"
      and eq: "(case read_into os (el_world el) (cn_fd c) (cn_input c) of
        (outcome, input, w) \<Rightarrow>
          let c1 = c\<lparr>cn_input := input\<rparr>; el1 = el\<lparr>el_world := w\<rparr> in
          if ro_status outcome = ReadSome then
            (case process_input os el1 c1 of
               (ok, c2, el2) \<Rightarrow> if ok then f os el2 c2 else Some (False, c2, el2))
          else if ro_status outcome = ReadWouldBlock then Some (True, c1, el1)
          else Some (False, c1,
            if ro_status outcome = ReadBufferFull
            then warn os el1 ''resource limit: connection input buffer cap exceeded, closing connection''
            else el1)) = Some res"
    obtain oc input w where ri: "read_into os (el_world el) (cn_fd c) (cn_input c) = (oc, input, w)"
      by (cases "read_into os (el_world el) (cn_fd c) (cn_input c)")
    let ?c = "c\<lparr>cn_input := input\<rparr>" and ?el = "el\<lparr>el_world := w\<rparr>"
    note read = serves_read_into [OF ri, of hash]
    obtain ok c2 el2 where pi: "process_input os ?el ?c = (ok, c2, el2)" by (cases "process_input os ?el ?c")
    note input = serves_process_input [OF pi, of hash]
    show "?P os el c res"
    proof (intro allI impI)
      fix b c' el'
      assume res: "res = (b, c', el')"
      let ?goal = "if b then put_back el' c' else close_connection os (put_back el' c') (cn_id c) (cn_generation c)"
      show "serves hash os (put_back el c) ?goal"
      proof (cases "ro_status oc = ReadSome")
        case True
        have "serves hash os (put_back ?el ?c) ?goal"
        proof (cases ok)
          case ok: True
          with eq ri pi True have "f os el2 c2 = Some res" by (simp add: Let_def)
          from IH [OF this, rule_format, OF res] process_input_frame [OF pi] have "serves hash os (put_back el2 c2) ?goal"
            by (cases b) (simp_all add: same_peer_def)
          with input ok show ?thesis by (auto intro: serves_trans)
        next
          case False
          with eq ri pi True res have "\<not> b" "c' = c2" "el' = el2" by (simp_all add: Let_def)
          with input False show ?thesis by simp
        qed
        with read show ?thesis by (rule serves_trans)
      next
        case False
        with eq ri res have c': "c' = ?c" and b: "b \<Longrightarrow> el' = ?el" "el' = ?el \<or> (\<exists>m. el' = warn os ?el m)"
          by (auto simp: Let_def split: if_splits)
        have "same_service (put_back ?el ?c) (put_back el' ?c)"
          using b(2) by (auto simp: same_service_def put_back_def warn_def split: option.splits)
        from read serves_quiet [OF this] have s: "serves hash os (put_back el c) (put_back el' c')"
          unfolding c' by (rule serves_trans)
        also have "serves hash os (put_back el' c') ?goal"
          using serves_close [OF find_put_back [of el' c'], of hash os] by (simp add: c')
        finally show ?thesis .
      qed
    qed
  qed
  with assms show ?thesis by blast
qed

lemma serves_readable:
  assumes "handle_connection_readable os el i = Some el'" and "loop_ok cfg cap el"
  shows "serves hash os el el'"
proof (cases "find_current (el_connections el) i")
  case None
  with assms(1) show ?thesis by (simp add: handle_connection_readable_def)
next
  case (Some c)
  have id: "cn_id c = i" "conn_ok cfg c" using loop_ok_conn [OF assms(2) Some] by simp_all
  from assms(1) Some obtain b c1 el1 where r: "read_loop os el c = Some (b, c1, el1)"
    and el': "el' = (if b then handle_connection_writable os (put_back el1 c1) i
      else close_connection os (put_back el1 c1) i (cn_generation c))"
    by (auto simp: handle_connection_readable_def split: option.splits bool.splits)
  have "put_back el c = el"
    using Some id by (auto simp: put_back_def put_connection_def find_current_def fun_upd_idem)
  then have s: "serves hash os el (if b then put_back el1 c1 else close_connection os (put_back el1 c1) i (cn_generation c))"
    using serves_read_loop [OF r, of hash] id by (cases b) simp_all
  show ?thesis
  proof (cases b)
    case True
    from read_loop_ok [OF r id(2) assms(2)] have "loop_ok cfg cap (put_back el1 c1)" by (auto intro: loop_ok_put)
    from serves_trans [OF _ serves_writable [OF this]] s True show ?thesis by (simp add: el')
  qed (use s el' in simp)
qed

subsection \<open>Events\<close>

lemma serves_event:
  assumes "handle_event os el ev = Some (Inr el')" and "loop_ok cfg cap el"
  shows "serves hash os el el'"
proof -
  let ?fd = "ev_fd ev"
  consider "?fd = el_wakeup_fd el" | "?fd \<noteq> el_wakeup_fd el" "?fd = el_listener el"
  | (hangup) "?fd \<noteq> el_wakeup_fd el" "?fd \<noteq> el_listener el" "ev_hup_err ev"
  | (io) "?fd \<noteq> el_wakeup_fd el" "?fd \<noteq> el_listener el" "\<not> ev_hup_err ev" by blast
  then show ?thesis
  proof cases
    case 1
    with assms have "drain_wakeup os el = Some el'" by (auto simp: handle_event_def)
    then show ?thesis using assms(2) by (rule serves_drain_wakeup)
  next
    case 2
    with assms(1) have "handle_listener_readable os el = Some (Inr el')" by (simp add: handle_event_def)
    then show ?thesis by (rule serves_listener)
  next
    case hangup
    with assms(1) show ?thesis by (auto simp: handle_event_def Let_def intro: serves_close split: option.splits)
  next
    case io
    define r where "r = (if ev_in ev then handle_connection_readable os el ?fd else Some el)"
    with assms(1) io obtain el1 where el1: "r = Some el1"
      and el': "el' = (if ev_out ev \<and> find_current (el_connections el1) ?fd \<noteq> None
        then handle_connection_writable os el1 ?fd else el1)"
      by (auto simp: handle_event_def Let_def simp del: not_None_eq split: option.splits if_splits)
    have "serves hash os el el1 \<and> loop_ok cfg cap el1"
      using assms(2) el1 serves_readable [OF _ assms(2), of os ?fd el1] handle_connection_readable_ok [OF _ assms(2), of os ?fd el1]
      by (auto simp: r_def split: if_splits)
    with serves_writable [of cfg cap el1 hash os ?fd] show ?thesis by (auto simp: el' intro: serves_trans)
  qed
qed

lemma serves_events:
  "handle_events os el evs = Some (Inr el') \<Longrightarrow> loop_ok cfg cap el \<Longrightarrow> accept_valid os \<Longrightarrow> serves hash os el el'"
proof (induction os el evs rule: handle_events.induct)
  case (2 os el ev evs)
  from "2.prems"(1) obtain el1 where e: "handle_event os el ev = Some (Inr el1)"
    and rest: "handle_events os el1 evs = Some (Inr el')"
    by (auto split: option.splits sum.splits)
  from serves_trans [OF serves_event [OF e "2.prems"(2)]
      "2.IH" [OF e refl rest handle_event_ok [OF e "2.prems"(2,3)] "2.prems"(3)]] show ?case .
qed simp

end
