(* ===== verification/Server_Service.thy ===== *)
theory Server_Service
  imports Server_Correct Server_Handlers Store_Lagging
begin

text \<open>
  What the server guarantees to its clients, over all components: the parser, the event loop,
  the queues, the workers, the store and the sequencer; and a complete run of the server on the
  scripted operating system.
\<close>

subsection \<open>A run\<close>

datatype demo_step = Do_accept | Do_read | Do_input | Do_work | Do_completion | Do_write

text \<open>One step, of the client on descriptor 7 or of the only worker, where it is possible.\<close>

fun demo_do :: "demo_step \<Rightarrow> Script Server \<Rightarrow> Script Server option" where
  "demo_do Do_accept sv = (case admit_client script_os (sv_loop sv) \<lparr>ac_fd = 7, ac_peer_address = []\<rparr> of
      Inl f \<Rightarrow> None
    | Inr el \<Rightarrow> Some (sv\<lparr>sv_loop := el, sv_accepted := Suc (sv_accepted sv)\<rparr>))"
| "demo_do Do_read sv = (case find_current (el_connections (sv_loop sv)) 7 of
      None \<Rightarrow> None
    | Some c \<Rightarrow> (case read_into script_os (el_world (sv_loop sv)) (cn_fd c) (cn_input c) of
        (outcome, input, w) \<Rightarrow>
          Some (sv\<lparr>sv_loop := put_back ((sv_loop sv)\<lparr>el_world := w\<rparr>) (c\<lparr>cn_input := input\<rparr>),
            sv_wire := received_on (peer_of c)
              (recv_bytes script_os (el_world (sv_loop sv)) (cn_fd c) (cn_input c)) (sv_wire sv)\<rparr>)))"
| "demo_do Do_input sv = (case find_current (el_connections (sv_loop sv)) 7 of
      None \<Rightarrow> None
    | Some c \<Rightarrow> (case process_one script_os (sv_loop sv) c of
        (r, c', el) \<Rightarrow> if r = Some False then None else Some (sv\<lparr>sv_loop := put_back el c'\<rparr>)))"
| "demo_do Do_work sv = (case sv_workers sv of
      [Popping] \<Rightarrow> map_option (\<lambda>(w, q). sv\<lparr>sv_loop := (sv_loop sv)\<lparr>el_work_queue := q\<rparr>, sv_workers := [w]\<rparr>)
        (worker_pop (el_work_queue (sv_loop sv)) False)
    | [Working item] \<Rightarrow> (case worker_exec demo_hash (sv_store sv) 0 item of
        Inl u \<Rightarrow> None
      | Inr (w, st) \<Rightarrow> Some (sv\<lparr>sv_store := st, sv_workers := [w]\<rparr>))
    | [Pushing completion] \<Rightarrow> map_option (\<lambda>(w, q, cb).
        sv\<lparr>sv_loop := run_callback script_os cb ((sv_loop sv)\<lparr>el_completion_queue := q\<rparr>), sv_workers := [w]\<rparr>)
        (worker_push (el_completion_queue (sv_loop sv)) completion)
    | _ \<Rightarrow> None)"
| "demo_do Do_completion sv = (case try_pop (el_completion_queue (sv_loop sv)) of
      (None, q) \<Rightarrow> None
    | (Some co, q) \<Rightarrow>
        (case find_connection (el_connections (sv_loop sv)) (co_connection_id co) (co_connection_generation co) of
           None \<Rightarrow> None
         | Some c \<Rightarrow> (case record_and_push script_os ((sv_loop sv)\<lparr>el_completion_queue := q\<rparr>) c (co_sequence co) (co_response co) of
             (ok, c', el) \<Rightarrow> if ok then Some (sv\<lparr>sv_loop := put_back el c'\<rparr>) else None)))"
| "demo_do Do_write sv = (case find_current (el_connections (sv_loop sv)) 7 of
      None \<Rightarrow> None
    | Some c \<Rightarrow> (case write_from script_os (el_world (sv_loop sv)) (cn_fd c) (cn_output c) of
        (outcome, out, w) \<Rightarrow>
          Some (sv\<lparr>sv_loop := put_back ((sv_loop sv)\<lparr>el_world := w\<rparr>) (c\<lparr>cn_output := out\<rparr>),
            sv_wire := sent_on (peer_of c)
              (send_bytes script_os (el_world (sv_loop sv)) (cn_fd c) (cn_output c)) (sv_wire sv)\<rparr>)))"

fun demo_run :: "demo_step list \<Rightarrow> Script Server \<Rightarrow> Script Server option" where
  "demo_run [] sv = Some sv"
| "demo_run (k # ks) sv = (case demo_do k sv of None \<Rightarrow> None | Some sv' \<Rightarrow> demo_run ks sv')"

text \<open>A client connects, sends PING twice in one write, and gets the first answer.\<close>

definition demo_world :: Script where
  "demo_world = no_script\<lparr>sc_recv := [(7, ping_frame @ ping_frame)]\<rparr>"

definition demo_server :: "Script Server" where
  "demo_server = projr (start_server script_os demo_config None 2 2 1 demo_world)"

definition demo_script :: "demo_step list" where
  "demo_script = [Do_accept, Do_read, Do_input, Do_work, Do_work, Do_work, Do_completion, Do_write]"

definition demo_answered :: "Script Server" where
  "demo_answered = the (demo_run demo_script demo_server)"

lemma demo_server_start: "start_server script_os demo_config None 2 2 1 demo_world = Inr demo_server"
proof -
  have "\<not> isl (start_server script_os demo_config None 2 2 1 demo_world)" by code_simp
  then show ?thesis by (simp add: demo_server_def)
qed

lemma demo_do_work:
  assumes "demo_do Do_work sv = Some sv'"
  shows "server_step demo_hash script_os sv sv'"
proof -
  from assms obtain w where ws: "sv_workers sv = [w]" by (auto split: list.splits Worker.splits)
  show ?thesis
  proof (cases w)
    case Popping
    with assms ws step_worker_pop [of 0 sv False] show ?thesis by auto
  next
    case (Working item)
    with assms ws step_worker_exec [of 0 sv item demo_hash 0] show ?thesis by (auto split: sum.splits)
  next
    case (Pushing completion)
    with assms ws step_worker_push [of 0 sv completion] show ?thesis by auto
  qed (use assms ws in simp_all)
qed

lemma demo_do_step:
  assumes "demo_do k sv = Some sv'"
  shows "server_step demo_hash script_os sv sv'"
proof (cases k)
  case Do_accept
  with assms show ?thesis by (auto split: sum.splits intro: step_accept)
next
  case Do_read
  with assms show ?thesis by (auto split: option.splits prod.splits intro: step_read)
next
  case Do_input
  with assms show ?thesis by (auto split: option.splits prod.splits if_splits intro: step_input)
next
  case Do_work
  with assms show ?thesis by (metis demo_do_work)
next
  case Do_completion
  with assms show ?thesis
    using step_completion [where sv = sv and os = script_os and hash = demo_hash and ok = True]
    by (auto split: option.splits prod.splits if_splits)
next
  case Do_write
  with assms show ?thesis by (auto split: option.splits prod.splits intro: step_write)
qed

lemma demo_run_steps: "demo_run ks sv = Some sv' \<Longrightarrow> (server_step demo_hash script_os)\<^sup>*\<^sup>* sv sv'"
  by (induction ks arbitrary: sv)
    (auto split: option.splits dest: demo_do_step intro: converse_rtranclp_into_rtranclp)

lemma demo_answered_check:
  "case demo_run demo_script demo_server of
     None \<Rightarrow> False
   | Some sv \<Rightarrow> sv_accepted sv = 1 \<and> sv_wire sv (7, 1) = (ping_frame @ ping_frame, ''+PONG'' @ crlf) \<and>
     (case find_current (el_connections (sv_loop sv)) 7 of None \<Rightarrow> False | Some c \<Rightarrow>
       cn_id c = 7 \<and> cn_generation c = 1 \<and> bb_data (cn_output c) = [] \<and> bb_data (cn_input c) = ping_frame) \<and>
     bq_items (el_work_queue (sv_loop sv)) = [] \<and> bq_items (el_completion_queue (sv_loop sv)) = [] \<and>
     sv_workers sv = [Popping]"
  by code_simp

lemma demo_answered:
  shows "(server_step demo_hash script_os)\<^sup>*\<^sup>* demo_server demo_answered" and "sv_accepted demo_answered < 2 ^ 64 - 1"
    and "sv_wire demo_answered (7, 1) = (ping_frame @ ping_frame, ''+PONG'' @ crlf)"
    and "\<exists>c. find_current (el_connections (sv_loop demo_answered)) 7 = Some c \<and> peer_of c = (7, 1) \<and>
      bb_data (cn_input c) = ping_frame \<and> bb_data (cn_output c) = []"
    and "bq_items (el_work_queue (sv_loop demo_answered)) = []"
    and "bq_items (el_completion_queue (sv_loop demo_answered)) = []" "sv_workers demo_answered = [Popping]"
  using demo_answered_check
  by (auto simp: demo_answered_def peer_of_def intro: demo_run_steps split: option.splits)

lemma demo_in_flight: "ec_max_in_flight_per_connection demo_config < 2 ^ 64"
  by (simp add: demo_config_def)

subsection \<open>The service\<close>

text \<open>
  C1. The server as a whole. Take any run of the server from its start, with any interleaving of
  the event loop, the workers and the sweeper, any number of clients (short of 64 bits of them)
  and any behaviour of the network. There is one history of critical sections of the store, whose
  replies are those of an abstract map with deadlines (each command at its own clock reading or
  at a later one that was used before it, and by the command table when the readings are in
  order), such that for every client, connected or gone: the requests are what the parser reads off the bytes
  received; each is refused or executed once in that history; and the bytes sent are a prefix of
  the answers in the order of the requests. For a connected client, sent and buffered bytes
  together are exactly the answers up to the first request that is still open.
\<close>

theorem server_serves_clients:
  assumes "start_server os cfg logger shard_count queue_capacity worker_count w = Inr sv0"
    and "(server_step hash os)\<^sup>*\<^sup>* sv0 sv" and "recv_bounded os"
    and "ec_max_in_flight_per_connection cfg < 2 ^ 64" and "sv_accepted sv < 2 ^ 64 - 1"
  shows "\<exists>log replies rqs.
    run_sections hash (sv_store sv0) log = Inr (replies, sv_store sv) \<and>
    (\<exists>ts. effective {} log ts \<and> replies = map encode_reply (timed_events Map.empty (zip ts (log_commands log)))) \<and>
    (clock_in_order log \<longrightarrow> replies = map encode_reply (spec_events Map.empty (commands_run log))) \<and>
    (\<forall>p. history_ok (log_commands log) replies (sv_wire sv p) (rqs p)) \<and>
    (\<forall>i c. find_current (el_connections (sv_loop sv)) i = Some c \<longrightarrow>
       parses (map fst (rqs (peer_of c))) (fst (sv_wire sv (peer_of c))) (bb_data (cn_input c)) \<and>
       snd (sv_wire sv (peer_of c)) @ bb_data (cn_output c) = answers replies (rqs (peer_of c)))"
proof -
  from server_reachable_inv [OF assms] obtain log replies rqs
    where inv: "server_inv hash (sv_store sv0) cfg log replies rqs sv" by blast
  then have run: "run_sections hash (sv_store sv0) log = Inr (replies, sv_store sv)" by (simp add: server_inv_def)
  note reps = run_sections_replies [OF start_server_inv(2) [OF assms(1)] run]
  from reps run server_invD(2,5) [OF inv] show ?thesis
    unfolding conn_inv_def by (intro exI [of _ log] exI [of _ replies] exI [of _ rqs]) blast
qed

theorem server_serves_clients_witness:
  "\<exists>log replies rs. run_sections demo_hash (sv_store demo_server) log = Inr (replies, sv_store demo_answered) \<and>
     history_ok (log_commands log) replies (ping_frame @ ping_frame, ''+PONG'' @ crlf) rs \<and>
     parses (map fst rs) (ping_frame @ ping_frame) ping_frame \<and> answers replies rs = ''+PONG'' @ crlf"
proof -
  from demo_answered(4) obtain c where c: "find_current (el_connections (sv_loop demo_answered)) 7 = Some c"
    "peer_of c = (7, 1)" "bb_data (cn_input c) = ping_frame" "bb_data (cn_output c) = []" by blast
  from server_serves_clients [OF demo_server_start demo_answered(1) script_recv_bounded demo_in_flight demo_answered(2)]
  obtain log replies rqs where r: "run_sections demo_hash (sv_store demo_server) log = Inr (replies, sv_store demo_answered)"
    and h: "\<And>p. history_ok (log_commands log) replies (sv_wire demo_answered p) (rqs p)"
    and l: "\<And>i c. find_current (el_connections (sv_loop demo_answered)) i = Some c \<Longrightarrow>
       parses (map fst (rqs (peer_of c))) (fst (sv_wire demo_answered (peer_of c))) (bb_data (cn_input c)) \<and>
       snd (sv_wire demo_answered (peer_of c)) @ bb_data (cn_output c) = answers replies (rqs (peer_of c))"
    by blast
  from r h [of "(7, 1)"] l [OF c(1)] c show ?thesis
    by (intro exI [of _ log] exI [of _ replies] exI [of _ "rqs (7, 1)"]) (simp add: demo_answered(3))
qed

text \<open>The heart of the next property: an idle server has no tokens left, so no request is open.\<close>

lemma idle_answered:
  assumes inv: "server_inv hash st cfg log replies rqs sv"
    and idle: "bq_items (el_work_queue (sv_loop sv)) = []" "bq_items (el_completion_queue (sv_loop sv)) = []"
      "\<forall>wk\<in>set (sv_workers sv). wk = Popping \<or> wk = Exited"
    and c: "find_current (el_connections (sv_loop sv)) i = Some c"
  shows "\<forall>r\<in>set (rqs (peer_of c)). response replies r \<noteq> None"
    and "snd (sv_wire sv (peer_of c)) @ bb_data (cn_output c) =
      concat (map (\<lambda>r. the (response replies r)) (rqs (peer_of c)))"
    and "in_flight_count (cn_sequencer c) = 0"
proof -
  let ?rs = "rqs (peer_of c)"
  note ci = server_invD(5) [OF inv c]
  have "sum_list (map worker_tokens ws) = {#}" if "\<forall>wk\<in>set ws. wk = Popping \<or> wk = Exited" for ws
    using that by (induction ws) auto
  with idle have "tokens sv = {#}" by (simp add: tokens_def)
  with ci have none: "request_tokens replies ?rs = {#}" by (simp add: conn_inv_def)
  have answered: "response replies r \<noteq> None" if r: "r \<in> set ?rs" for r
  proof -
    from r obtain k where k: "k < length ?rs" "?rs ! k = r" by (auto simp: in_set_conv_nth)
    have "request_token replies k r = {#}" using none k by (auto simp: request_tokens_def sum_eq_empty_iff)
    moreover have "request_ok (log_commands log) r" using ci r by (simp add: conn_inv_def list_all_iff)
    ultimately show ?thesis by (cases "(log_commands log, r)" rule: request_ok.cases) auto
  qed
  have rel: "released (map (response replies) ?rs) = map (\<lambda>r. the (response replies r)) ?rs"
  proof -
    have "takeWhile (\<lambda>x. x \<noteq> None) (map (response replies) ?rs) = map (response replies) ?rs"
      using answered unfolding takeWhile_eq_all_conv by auto
    then show ?thesis unfolding released_def by (simp only: map_map comp_def)
  qed
  have seq: "sequencer_ok (map (response replies) ?rs) (length (released (map (response replies) ?rs))) (cn_sequencer c)"
    using ci by (simp add: conn_inv_def)
  from in_flight_count_eq [OF this] show "in_flight_count (cn_sequencer c) = 0"
    by (simp add: rel unat_eq_zero)
  show "\<forall>r\<in>set ?rs. response replies r \<noteq> None" using answered by blast
  show "snd (sv_wire sv (peer_of c)) @ bb_data (cn_output c) = concat (map (\<lambda>r. the (response replies r)) ?rs)"
    using ci rel by (simp add: conn_inv_def answers_def)
qed



text \<open>
  C10. The step relation of the server covers the event loop's code: whatever a batch of events
  makes the handlers do, with their loops over sockets, buffers and queues, is a sequence of
  single steps, for any state of the workers and of the store.
\<close>

theorem handle_events_are_steps:
  assumes "handle_events os (sv_loop sv) events = Some (Inr el)" and "loop_ok cfg cap (sv_loop sv)"
    and "accept_valid os"
  shows "\<exists>wire n. (server_step hash os)\<^sup>*\<^sup>* sv (sv\<lparr>sv_loop := el, sv_wire := wire, sv_accepted := n\<rparr>)"
  using serves_events [OF assms, of hash] by (simp add: serves_def)

theorem handle_events_are_steps_witness:
  "\<exists>el wire n. handle_events script_os (demo_start (demo_world\<lparr>sc_accept := [7]\<rparr>))
       [listener_event, listener_event\<lparr>ev_fd := 7\<rparr>] = Some (Inr el) \<and>
     el_connections el \<noteq> empty_registry \<and>
     (server_step demo_hash script_os)\<^sup>*\<^sup>* (demo_server\<lparr>sv_loop := demo_start (demo_world\<lparr>sc_accept := [7]\<rparr>)\<rparr>)
       (demo_server\<lparr>sv_loop := el, sv_wire := wire, sv_accepted := n\<rparr>)"
proof -
  let ?el = "demo_start (demo_world\<lparr>sc_accept := [7]\<rparr>)"
  let ?events = "[listener_event, listener_event\<lparr>ev_fd := 7\<rparr>]"
  let ?sv = "demo_server\<lparr>sv_loop := ?el\<rparr>"
  have check: "case handle_events script_os ?el ?events of
      Some (Inr el) \<Rightarrow> cr_next_generation (el_connections el) = 2 | _ \<Rightarrow> False" by code_simp
  then obtain el where el: "handle_events script_os ?el ?events = Some (Inr el)"
    and g: "cr_next_generation (el_connections el) = 2"
    by (auto split: option.splits sum.splits)
  have ok: "loop_ok demo_config 2 ?el" by (rule loop_reachable_ok [OF demo_start_reachable script_accept_valid])
  have "el_connections el \<noteq> empty_registry" using g by (auto simp: empty_registry_def)
  with handle_events_are_steps [where sv = ?sv, OF _ _ script_accept_valid, of ?events el demo_config 2 demo_hash] el ok
  show ?thesis by auto
qed

end
