(* ===== verification/Server_Progress.thy ===== *)
theory Server_Progress
  imports Server_Service
begin

text \<open>
  The server never gets stuck while it runs: from every state it can reach, the workers and the
  event loop can finish all requests that were read, without any further input. The steps that
  do so make a measure of the work under way smaller.
\<close>

subsection \<open>Stored deadlines fit the clock\<close>

definition shard_deadlines :: "Shard \<Rightarrow> bool" where
  "shard_deadlines sh \<longleftrightarrow>
     (\<forall>key e d. sh_entries sh key = Some e \<longrightarrow> en_deadline e = Some d \<longrightarrow> in_int64 d)"

definition store_deadlines :: "Store \<Rightarrow> bool" where
  "store_deadlines st \<longleftrightarrow> (\<forall>sh\<in>set (st_shards st). shard_deadlines sh)"

lemma put_shard_deadlines:
  "store_deadlines st \<Longrightarrow> shard_deadlines sh \<Longrightarrow> store_deadlines (put_shard hash st key sh)"
  using set_update_subset_insert by (fastforce simp: store_deadlines_def put_shard_def)

lemma shard_for_deadlines: "wf_store hash st \<Longrightarrow> store_deadlines st \<Longrightarrow> shard_deadlines (shard_for hash st key)"
  by (simp add: store_deadlines_def shard_for_def shard_index_bound)

lemma shard_deadlines_erase [simp]:
  "shard_deadlines sh \<Longrightarrow> shard_deadlines (sh\<lparr>sh_entries := (sh_entries sh)(key := None)\<rparr>)"
  "shard_deadlines (sh\<lparr>sh_heap := h\<rparr>) \<longleftrightarrow> shard_deadlines sh"
  by (auto simp: shard_deadlines_def)

lemma shard_deadlines_ops:
  assumes "shard_deadlines sh"
  shows "shard_deadlines (shard_set sh key value)"
    and "shard_deadlines (snd (read_live sh now key))" "shard_deadlines (read_live_exclusive sh now key)"
    and "shard_deadlines (snd (shard_del sh now key))"
    and "shard_expire sh now key n = Inr (ok, sh') \<Longrightarrow> shard_deadlines sh'"
proof -
  show "shard_deadlines (shard_set sh key value)" using assms by (auto simp: shard_deadlines_def shard_set_def Let_def)
  show ex: "shard_deadlines (read_live_exclusive sh now key)"
    using assms by (simp add: read_live_exclusive_def split: option.split)
  with assms show "shard_deadlines (snd (read_live sh now key))"
    by (simp add: read_live_def split: SharedRead.split)
  show "shard_deadlines (snd (shard_del sh now key))" using assms by (simp add: shard_del_def split: option.split)
  show "shard_deadlines sh'" if "shard_expire sh now key n = Inr (ok, sh')"
  proof (cases "sh_entries sh key")
    case None
    with that assms show ?thesis by (simp add: shard_expire_def)
  next
    case (Some e)
    with that assms show ?thesis
      by (cases "is_expired e now")
        (auto simp: shard_expire_def deadline_after_def Let_def shard_deadlines_def split: sum.splits if_splits)
  qed
qed

lemma sweep_shard_deadlines: "shard_deadlines sh \<Longrightarrow> shard_deadlines (fst (sweep_shard budget now sh removed))"
proof (induction budget now sh removed rule: sweep_shard.induct)
  case (2 budget now sh removed)
  have erase: "shard_deadlines (sh\<lparr>sh_entries := (sh_entries sh)(k := None), sh_heap := h\<rparr>)" for k h
    using "2.prems" by (auto simp: shard_deadlines_def)
  from 2 erase show ?case by (simp add: Let_def)
qed simp

lemma dispatch_deadlines:
  assumes wf: "wf_store hash st" and ok: "store_deadlines st" and d: "dispatch hash st now c = Inr (resp, st')"
  shows "store_deadlines st'"
proof -
  note ops = shard_deadlines_ops [OF shard_for_deadlines [OF wf ok, of "cmd_key c"]]
  note put = put_shard_deadlines [OF ok]
  show ?thesis
  proof (cases "cmd_type c")
    case kExpire
    with d ops(5) put show ?thesis
      by (auto simp: dispatch_def dispatch_expire_def store_expire_def split: sum.splits)
  next
    case kTtl
    with d ops(2) [of now "cmd_key c"] put show ?thesis
      by (auto simp: dispatch_def dispatch_ttl_def store_ttl_def split: sum.splits prod.splits)
  qed (use d ops(1-4) put ok in \<open>auto simp: dispatch_def dispatch_set_def dispatch_get_def dispatch_del_def
      dispatch_exists_def store_set_def store_get_def store_del_def store_exists_def split_beta split: option.splits prod.splits\<close>)
qed

lemma run_sections_deadlines:
  assumes "run_sections hash st log = Inr (replies, st')" and "wf_store hash st" and "store_deadlines st"
  shows "wf_store hash st' \<and> store_deadlines st'"
  using assms
proof (induction hash st log arbitrary: replies rule: run_sections.induct)
  case (2 hash st now c ss)
  then obtain resp st1 rs where d: "command_section hash st now c = Inr (resp, st1)"
    and r: "run_sections hash st1 ss = Inr (rs, st')"
    by (auto simp: map_sum_def split: sum.splits)
  from d obtain st2 where d2: "dispatch hash st now c = Inr (resp, st2)" and "st1 = st \<or> st1 = st2"
    by (auto simp: command_section_def map_sum_def split: if_splits sum.splits)
  with "2.prems" dispatch_wf [OF _ d2] dispatch_deadlines [OF _ _ d2] have "wf_store hash st1" "store_deadlines st1" by auto
  with "2.IH" d r show ?case by auto
next
  case (3 hash st now key ss)
  have "store_deadlines (erase_section hash st now key)"
    unfolding erase_section_def
    by (rule put_shard_deadlines [OF "3.prems"(3) shard_deadlines_ops(3) [OF shard_for_deadlines [OF "3.prems"(2,3)]]])
  from "3.IH" [OF _ erase_section_correct(1) [OF "3.prems"(2)] this] "3.prems"(1) show ?case by simp
next
  case (4 hash st now i max_items ss)
  have "store_deadlines (sweep_section st now i max_items)"
  proof (cases "i < length (st_shards st)")
    case True
    then have "shard_deadlines (fst (sweep_shard max_items now (st_shards st ! i) 0))"
      using "4.prems"(3) by (intro sweep_shard_deadlines) (simp add: store_deadlines_def)
    then show ?thesis using "4.prems"(3) set_update_subset_insert
      by (fastforce simp: store_deadlines_def sweep_section_def)
  qed (use "4.prems"(3) in \<open>simp add: sweep_section_def store_deadlines_def list_update_beyond\<close>)
  from "4.IH" [OF _ sweep_section_correct(1) [OF "4.prems"(2)] this] "4.prems"(1) show ?case by simp
qed simp

text \<open>An EXPIRE fits the clock at \<open>now\<close> when its deadline does; the other commands always do.\<close>

definition command_fits :: "int \<Rightarrow> Command \<Rightarrow> bool" where
  "command_fits now c \<longleftrightarrow> (cmd_type c = kExpire \<longrightarrow>
     in_int64 (cmd_seconds c * ns_per_s) \<and> in_int64 (now + cmd_seconds c * ns_per_s))"

lemma command_section_total:
  assumes wf: "wf_store hash st" and ok: "store_deadlines st" and "0 \<le> now" and "command_fits now c"
  shows "\<exists>r. command_section hash st now c = Inr r"
proof -
  have "in_int64 (d - now)" if "live_view hash st now (cmd_key c) = Some (v, Some d)" for v d
  proof -
    from that obtain e where e: "sh_entries (shard_for hash st (cmd_key c)) (cmd_key c) = Some e"
      "\<not> is_expired e now" "en_deadline e = Some d"
      by (auto simp: live_view_def shard_view_def entry_view_def split: option.splits if_splits)
    with shard_for_deadlines [OF wf ok, of "cmd_key c"] have "in_int64 d" by (auto simp: shard_deadlines_def)
    with e \<open>0 \<le> now\<close> show ?thesis by (simp add: in_int64_def is_expired_def int64_min_def)
  qed
  then have "time_in_range now (live_view hash st now) c"
    using assms(4) by (auto simp: time_in_range_def command_fits_def split: CommandType.split option.split)
  then show ?thesis unfolding command_section_defined [OF wf] .
qed

subsection \<open>Work under way\<close>

definition backlog :: "'w Server \<Rightarrow> nat" where
  "backlog sv = 7 * length (bq_items (el_work_queue (sv_loop sv))) +
     2 * sum_list (map worker_weight (sv_workers sv)) + length (bq_items (el_completion_queue (sv_loop sv)))"

definition server_idle :: "'w Server \<Rightarrow> bool" where
  "server_idle sv \<longleftrightarrow> bq_items (el_work_queue (sv_loop sv)) = [] \<and>
     bq_items (el_completion_queue (sv_loop sv)) = [] \<and>
     (\<forall>wk\<in>set (sv_workers sv). wk = Popping \<or> wk = Exited)"

definition under_way :: "'w Server \<Rightarrow> Command set" where
  "under_way sv = wi_command ` (set (bq_items (el_work_queue (sv_loop sv))) \<union>
     {item. Working item \<in> set (sv_workers sv)})"

text \<open>A step that works off something and takes nothing new from outside.\<close>

definition work_step :: "(string \<Rightarrow> u64) \<Rightarrow> 'w Os \<Rightarrow> 'w Server \<Rightarrow> 'w Server \<Rightarrow> bool" where
  "work_step hash os sv sv' \<longleftrightarrow> server_step hash os sv sv' \<and> backlog sv' < backlog sv \<and>
     under_way sv' \<subseteq> under_way sv \<and> sv_accepted sv' = sv_accepted sv \<and>
     ((\<exists>wk\<in>set (sv_workers sv). wk \<noteq> Exited) \<longrightarrow> (\<exists>wk\<in>set (sv_workers sv'). wk \<noteq> Exited)) \<and>
     (\<forall>p. fst (sv_wire sv' p) = fst (sv_wire sv p))"

lemma worker_alive: "j < length ws \<Longrightarrow> w \<noteq> Exited \<Longrightarrow> \<exists>wk\<in>set (ws[j := w]). wk \<noteq> Exited"
  by (metis set_update_memI)

lemma working_update:
  "Working item \<in> set (ws[j := w]) \<Longrightarrow> w = Working item \<or> Working item \<in> set ws"
  using set_update_subset_insert [of ws j w] by blast

lemma work_pop:
  assumes j: "j < length (sv_workers sv)" "sv_workers sv ! j = Popping"
    and items: "bq_items (el_work_queue (sv_loop sv)) = item # rest"
  shows "\<exists>sv'. work_step hash os sv sv'"
proof -
  let ?q = "(el_work_queue (sv_loop sv))\<lparr>bq_items := rest\<rparr>"
  let ?sv = "sv\<lparr>sv_loop := (sv_loop sv)\<lparr>el_work_queue := ?q\<rparr>, sv_workers := (sv_workers sv)[j := Working item]\<rparr>"
  have "worker_pop (el_work_queue (sv_loop sv)) False = Some (Working item, ?q)"
    using items by (simp add: worker_pop_def pop_def pop_ready_def)
  from step_worker_pop [OF j this] have "server_step hash os sv ?sv" .
  moreover have "backlog ?sv < backlog sv"
    using sum_list_map_update [OF j(1), of worker_weight "Working item"] j(2) items by (simp add: backlog_def)
  moreover have "under_way ?sv \<subseteq> under_way sv"
    using items by (auto simp: under_way_def dest: working_update)
  ultimately have "work_step hash os sv ?sv" using worker_alive [OF j(1), of "Working item"] by (simp add: work_step_def)
  then show ?thesis ..
qed

lemma work_exec:
  assumes j: "j < length (sv_workers sv)" "sv_workers sv ! j = Working item"
    and d: "command_section hash (sv_store sv) now (wi_command item) = Inr r"
  shows "\<exists>sv'. work_step hash os sv sv'"
proof -
  from d obtain w st where e: "worker_exec hash (sv_store sv) now item = Inr (w, st)"
    by (cases r) (simp add: worker_exec_def)
  let ?sv = "sv\<lparr>sv_store := st, sv_workers := (sv_workers sv)[j := w]\<rparr>"
  have w: "worker_weight w < 4" "w \<noteq> Exited" "\<And>item. w \<noteq> Working item"
    using e by (auto elim!: worker_exec_cases)
  have "server_step hash os sv ?sv" by (rule step_worker_exec [OF j e])
  moreover have "backlog ?sv < backlog sv"
    using sum_list_map_update [OF j(1), of worker_weight w] j(2) w(1) by (simp add: backlog_def)
  moreover have "under_way ?sv \<subseteq> under_way sv" using w(3) by (auto simp: under_way_def dest: working_update)
  ultimately have "work_step hash os sv ?sv" using worker_alive [OF j(1) w(2)] by (simp add: work_step_def)
  then show ?thesis ..
qed

lemma work_erase:
  assumes j: "j < length (sv_workers sv)" "sv_workers sv ! j = Erasing key now completion"
  shows "\<exists>sv'. work_step hash os sv sv'"
proof -
  let ?sv = "sv\<lparr>sv_store := erase_section hash (sv_store sv) now key,
    sv_workers := (sv_workers sv)[j := Pushing completion]\<rparr>"
  have "server_step hash os sv ?sv" by (rule step_worker_erase [OF j])
  moreover have "backlog ?sv < backlog sv"
    using sum_list_map_update [OF j(1), of worker_weight "Pushing completion"] j(2) by (simp add: backlog_def)
  moreover have "under_way ?sv \<subseteq> under_way sv" by (auto simp: under_way_def dest: working_update)
  ultimately have "work_step hash os sv ?sv"
    using worker_alive [OF j(1), of "Pushing completion"] by (simp add: work_step_def)
  then show ?thesis ..
qed

lemma work_push:
  assumes j: "j < length (sv_workers sv)" "sv_workers sv ! j = Pushing completion"
    and "\<not> bq_closed (el_completion_queue (sv_loop sv))"
    and "length (bq_items (el_completion_queue (sv_loop sv))) < bq_capacity (el_completion_queue (sv_loop sv))"
  shows "\<exists>sv'. work_step hash os sv sv'"
proof -
  let ?cq = "el_completion_queue (sv_loop sv)"
  let ?q = "?cq\<lparr>bq_items := bq_items ?cq @ [completion]\<rparr>"
  let ?sv = "sv\<lparr>sv_loop := run_callback os (bq_on_push ?cq) ((sv_loop sv)\<lparr>el_completion_queue := ?q\<rparr>),
    sv_workers := (sv_workers sv)[j := Popping]\<rparr>"
  have "worker_push ?cq completion = Some (Popping, ?q, bq_on_push ?cq)"
    using assms(3,4) by (simp add: worker_push_def push_def push_ready_def)
  from step_worker_push [OF j this] have "server_step hash os sv ?sv" .
  moreover have "backlog ?sv < backlog sv"
    using sum_list_map_update [OF j(1), of worker_weight Popping] j(2) by (simp add: backlog_def)
  moreover have "under_way ?sv \<subseteq> under_way sv" by (auto simp: under_way_def dest: working_update)
  ultimately have "work_step hash os sv ?sv" using worker_alive [OF j(1), of Popping] by (simp add: work_step_def)
  then show ?thesis ..
qed

lemma close_peer_frame:
  "el_work_queue (sv_loop (close_peer os sv el i g)) = el_work_queue el"
  "el_completion_queue (sv_loop (close_peer os sv el i g)) = el_completion_queue el"
  "sv_workers (close_peer os sv el i g) = sv_workers sv" "sv_accepted (close_peer os sv el i g) = sv_accepted sv"
  "fst (sv_wire (close_peer os sv el i g) p) = fst (sv_wire sv p)"
  by (simp_all add: close_peer_def close_wire_def sent_on_def split: option.split prod.split)

lemma work_completion:
  assumes items: "bq_items (el_completion_queue (sv_loop sv)) = completion # rest"
  shows "\<exists>sv'. work_step hash os sv sv'"
proof -
  let ?i = "co_connection_id completion" and ?g = "co_connection_generation completion"
  let ?q = "(el_completion_queue (sv_loop sv))\<lparr>bq_items := rest\<rparr>"
  let ?el = "(sv_loop sv)\<lparr>el_completion_queue := ?q\<rparr>"
  have pop: "try_pop (el_completion_queue (sv_loop sv)) = (Some completion, ?q)"
    using items by (simp add: try_pop_def)
  show ?thesis
  proof (cases "find_connection (el_connections (sv_loop sv)) ?i ?g")
    case None
    have "work_step hash os sv (sv\<lparr>sv_loop := ?el\<rparr>)"
      using step_stale_completion [OF pop None] items by (simp add: work_step_def backlog_def under_way_def)
    then show ?thesis ..
  next
    case (Some c)
    obtain ok c' el where r: "record_and_push os ?el c (co_sequence completion) (co_response completion) = (ok, c', el)"
      by (cases "record_and_push os ?el c (co_sequence completion) (co_response completion)")
    have f: "el_completion_queue el = ?q" "el_work_queue el = el_work_queue (sv_loop sv)"
      using record_and_push_frame [OF r] by (auto simp: same_loop_def)
    let ?sv = "if ok then sv\<lparr>sv_loop := put_back el c'\<rparr> else close_peer os sv (put_back el c') ?i ?g"
    have "server_step hash os sv ?sv" by (rule step_completion [OF pop Some r])
    with items f have "work_step hash os sv ?sv"
      by (cases ok) (simp_all add: work_step_def backlog_def under_way_def close_peer_frame)
    then show ?thesis ..
  qed
qed

subsection \<open>Progress\<close>

lemma server_step_capacity:
  assumes "server_step hash os sv sv'"
  shows "bq_capacity (el_completion_queue (sv_loop sv')) = bq_capacity (el_completion_queue (sv_loop sv))"
  using assms
proof cases
  case (step_accept accepted el)
  then show ?thesis by (simp add: admit_client_connections(4))
next
  case (step_input i c r c' el)
  then show ?thesis using process_one_frame [OF step_input(3)] by (simp add: same_loop_def)
next
  case (step_input_close i c c' el)
  then show ?thesis using process_one_frame [OF step_input_close(3)] by (simp add: same_loop_def close_peer_frame)
next
  case (step_completion completion q c ok c' el)
  have "bq_capacity q = bq_capacity (el_completion_queue (sv_loop sv))"
    using step_completion(2) by (auto simp: try_pop_def split: list.splits)
  moreover have "el_completion_queue el = q"
    using record_and_push_frame [OF step_completion(4)] by (simp add: same_loop_def)
  ultimately show ?thesis using step_completion(1) by (simp add: close_peer_frame)
next
  case (step_worker_push j completion w q cb)
  then show ?thesis by (auto elim!: worker_push_cases)
qed (auto simp: same_service_def close_peer_frame try_pop_def split: list.splits)

lemma work_possible:
  assumes inv: "server_inv hash st cfg log replies rqs sv" and st: "wf_store hash st" "store_deadlines st"
    and cap: "0 < bq_capacity (el_completion_queue (sv_loop sv))"
    and alive: "\<exists>wk\<in>set (sv_workers sv). wk \<noteq> Exited"
    and now: "0 \<le> now" and fits: "\<forall>c\<in>under_way sv. command_fits now c"
    and busy: "\<not> server_idle sv"
  shows "\<exists>sv'. work_step hash os sv sv'"
proof (cases "bq_items (el_completion_queue (sv_loop sv))")
  case (Cons completion rest)
  then show ?thesis by (rule work_completion)
next
  case Nil
  have open_queue: "\<not> bq_closed (el_completion_queue (sv_loop sv))" and run: "run_sections hash st log = Inr (replies, sv_store sv)"
    using inv by (simp_all add: server_inv_def)
  note ok = run_sections_deadlines [OF run st]
  have "\<exists>wk\<in>set (sv_workers sv). wk \<noteq> Exited \<and> (wk = Popping \<longrightarrow> bq_items (el_work_queue (sv_loop sv)) \<noteq> [])"
    using busy alive Nil by (auto simp: server_idle_def)
  then obtain j where j: "j < length (sv_workers sv)" "sv_workers sv ! j \<noteq> Exited"
    and pop: "sv_workers sv ! j = Popping \<longrightarrow> bq_items (el_work_queue (sv_loop sv)) \<noteq> []"
    by (metis in_set_conv_nth)
  show ?thesis
  proof (cases "sv_workers sv ! j")
    case Popping
    with pop obtain item rest where "bq_items (el_work_queue (sv_loop sv)) = item # rest"
      by (auto simp: neq_Nil_conv)
    from work_pop [OF j(1) Popping this] show ?thesis .
  next
    case (Working item)
    then have "Working item \<in> set (sv_workers sv)" using j(1) by (metis nth_mem)
    then have "command_fits now (wi_command item)" using fits by (auto simp: under_way_def)
    from command_section_total [OF _ _ now this] ok obtain r
      where "command_section hash (sv_store sv) now (wi_command item) = Inr r" by blast
    from work_exec [OF j(1) Working this] show ?thesis .
  next
    case (Erasing key t completion)
    from work_erase [OF j(1) Erasing] show ?thesis .
  next
    case (Pushing completion)
    from work_push [OF j(1) Pushing open_queue] Nil cap show ?thesis by simp
  qed (use j(2) in simp)
qed

lemma start_server_store:
  assumes "start_server os cfg logger shard_count queue_capacity worker_count w = Inr sv"
  shows "wf_store hash (sv_store sv)" "store_deadlines (sv_store sv)"
    and "0 < bq_capacity (el_completion_queue (sv_loop sv))"
proof -
  have m: "make_store shard_count = Inr (sv_store sv)" by (rule start_server_inv(2) [OF assms])
  then show "wf_store hash (sv_store sv)" by (rule make_store_wf(1))
  have "\<forall>sh\<in>set (st_shards (sv_store sv)). sh = empty_shard"
    using m by (auto simp: make_store_def dest!: sym [of _ "sv_store sv"] split: sum.splits)
  then show "store_deadlines (sv_store sv)"
    by (auto simp: store_deadlines_def shard_deadlines_def empty_shard_def)
  from assms obtain wq cq el w' where q: "make_queue queue_capacity = Inr cq"
    and el: "make_event_loop os cfg logger wq cq w = (Inr el, w')" and sv: "sv_loop sv = el"
    by (auto simp: start_server_def split: sum.splits prod.splits)
  have "el_completion_queue el = set_on_push cq (Some WakeEventLoop)"
    using el by (auto simp: make_event_loop_def Let_def split: prod.splits sum.splits)
  with q show "0 < bq_capacity (el_completion_queue (sv_loop sv))"
    by (auto simp: sv make_queue_def set_on_push_def split: if_splits)
qed

text \<open>The states from which the server works towards idleness.\<close>

definition work_ok :: "(string \<Rightarrow> u64) \<Rightarrow> 'w Os \<Rightarrow> 'w Server \<Rightarrow> int \<Rightarrow> 'w Server \<Rightarrow> bool" where
  "work_ok hash os sv0 now sv \<longleftrightarrow> (server_step hash os)\<^sup>*\<^sup>* sv0 sv \<and> sv_accepted sv < 2 ^ 64 - 1 \<and>
     (\<exists>wk\<in>set (sv_workers sv). wk \<noteq> Exited) \<and> (\<forall>c\<in>under_way sv. command_fits now c)"

interpretation work: draining "work_ok hash os sv0 now" "work_step hash os" backlog
proof unfold_locales
  show "work_ok hash os sv0 now sv'" if "work_ok hash os sv0 now sv" "work_step hash os sv sv'" for sv sv'
    using that by (auto simp: work_ok_def work_step_def intro: rtranclp.rtrancl_into_rtrancl)
qed (simp add: work_step_def)

lemma work_to_idle:
  assumes "start_server os cfg logger shard_count queue_capacity worker_count w = Inr sv0"
    and "recv_bounded os" and "ec_max_in_flight_per_connection cfg < 2 ^ 64" and "0 \<le> now"
    and ok: "work_ok hash os sv0 now sv"
  shows "\<exists>sv'. (work_step hash os)\<^sup>*\<^sup>* sv sv' \<and> server_idle sv'"
proof -
  from work.run_ends [OF ok] obtain sv' where run: "(work_step hash os)\<^sup>*\<^sup>* sv sv'"
    and ok': "work_ok hash os sv0 now sv'" and stuck: "\<nexists>sv''. work_step hash os sv' sv''" by blast
  then have steps: "(server_step hash os)\<^sup>*\<^sup>* sv0 sv'" by (simp add: work_ok_def)
  from server_reachable_inv [OF assms(1) steps assms(2,3)] ok' obtain log replies rqs
    where inv: "server_inv hash (sv_store sv0) cfg log replies rqs sv'" by (auto simp: work_ok_def)
  have "bq_capacity (el_completion_queue (sv_loop sv')) = bq_capacity (el_completion_queue (sv_loop sv0))"
    using steps by (induction) (simp_all add: server_step_capacity)
  with start_server_store(3) [OF assms(1)] have "0 < bq_capacity (el_completion_queue (sv_loop sv'))" by simp
  from work_possible [OF inv start_server_store(1,2) [OF assms(1)] this _ assms(4), of os] ok' stuck run
  show ?thesis by (auto simp: work_ok_def)
qed

lemma work_steps:
  assumes "(work_step hash os)\<^sup>*\<^sup>* sv sv'"
  shows "(server_step hash os)\<^sup>*\<^sup>* sv sv' \<and> sv_accepted sv' = sv_accepted sv \<and>
    (\<forall>p. fst (sv_wire sv' p) = fst (sv_wire sv p))"
  using assms by (induction) (auto simp: work_step_def)


text \<open>The run of \<^const>\<open>demo_script\<close> up to where the first request waits in the work queue.\<close>

definition waiting_script :: "demo_step list" where
  "waiting_script = [Do_accept, Do_read, Do_input]"

definition demo_waiting :: "Script Server" where
  "demo_waiting = the (demo_run waiting_script demo_server)"

lemma demo_waiting_check:
  "case demo_run waiting_script demo_server of
     None \<Rightarrow> False
   | Some sv \<Rightarrow> sv_accepted sv = 1 \<and> sv_workers sv = [Popping] \<and> fst (sv_wire sv (7, 1)) = ping_frame @ ping_frame \<and>
     map wi_command (bq_items (el_work_queue (sv_loop sv))) = [cmd kPing [] [] 0]"
  by code_simp

lemma demo_waiting_state:
  "(server_step demo_hash script_os)\<^sup>*\<^sup>* demo_server demo_waiting" "sv_accepted demo_waiting < 2 ^ 64 - 1"
  "sv_workers demo_waiting = [Popping]" "under_way demo_waiting = {cmd kPing [] [] 0}"
  "fst (sv_wire demo_waiting (7, 1)) = ping_frame @ ping_frame" "\<not> server_idle demo_waiting"
  using demo_waiting_check
  by (auto simp: demo_waiting_def under_way_def server_idle_def intro: demo_run_steps split: option.splits)


end
