(* ===== verification/Server_Main.thy ===== *)
theory Server_Main
  imports Server_Steps Cli_Options Event_Loop_Behaviour
begin

text \<open>
  The program, \<^verbatim>\<open>src/src/main.cpp\<close>: the command line, the construction of the components, the
  event loop on the main thread, and the ways the process ends. The text of an error number,
  \<^verbatim>\<open>strerror\<close>, is a parameter.
\<close>

definition version :: string where
  "version = ''0.1.0''"

definition describe_options :: "ServerOptions \<Rightarrow> 16 word \<Rightarrow> string" where
  "describe_options opts bound_port =
     ''bind='' @ so_bind_address opts @ '' port='' @ nat_to_string (unat bound_port) @
     '' workers='' @ nat_to_string (unat (so_worker_count opts)) @
     '' shards='' @ nat_to_string (unat (so_shard_count opts)) @
     '' queue_capacity='' @ nat_to_string (unat (so_queue_capacity opts)) @
     '' log_level='' @ so_log_level opts"

text \<open>
  How the process ends: an exit status with what was written to the two output streams;
  \<^verbatim>\<open>std::terminate\<close>; undefined behaviour; or, after \<^verbatim>\<open>loop.run()\<close> has returned, the shutdown of
  the components, which waits for the workers (\<^verbatim>\<open>Worker_Pool\<close>) and then exits with status 0.
\<close>

datatype 'w Outcome =
    Exit nat string string
  | Terminate
  | Undefined
  | Shutdown "'w EventLoop"

text \<open>The \<^verbatim>\<open>catch\<close> clause around the server: only exceptions are caught.\<close>

definition fatal_error :: "'w Os \<Rightarrow> (int \<Rightarrow> string) \<Rightarrow> Logger \<Rightarrow> 'w \<Rightarrow> fault \<Rightarrow> 'w Outcome" where
  "fatal_error os strerror lg w f = (case f of
      UB u \<Rightarrow> Undefined
    | Exn e \<Rightarrow> Exit 1 [] (concat (lg_lines
        (log_message (os_time os w) lg kError (''fatal error: '' @ exn_what strerror e)))))"

definition event_loop_config :: "ServerOptions \<Rightarrow> EventLoopConfig" where
  "event_loop_config opts = default_event_loop_config\<lparr>ec_listener :=
     default_listener_config\<lparr>lc_bind_address := so_bind_address opts, lc_port := so_port opts\<rparr>\<rparr>"

text \<open>
  The body of the \<^verbatim>\<open>try\<close> block. \<open>others\<close> is what the workers, the sweeper and the signal thread
  do to the shared state while the event loop waits. An exception that leaves \<^verbatim>\<open>loop.run()\<close>
  destroys the signal thread while it is joinable.
\<close>

definition run_server ::
  "'w Os \<Rightarrow> (int \<Rightarrow> string) \<Rightarrow> ('w EventLoop \<Rightarrow> 'w EventLoop) \<Rightarrow> ServerOptions \<Rightarrow> Logger \<Rightarrow> 'w \<Rightarrow> 'w Outcome option" where
  "run_server os strerror others opts lg w =
     (let lg1 = log_message (os_time os w) lg kInfo (''starting cpp-kv-store '' @ version) in
      case start_server os (event_loop_config opts) (Some lg1) (so_shard_count opts)
        (unat (so_queue_capacity opts)) (unat (so_worker_count opts)) w of
        Inl f \<Rightarrow> Some (fatal_error os strerror lg1 w f)
      | Inr sv \<Rightarrow>
          let el = sv_loop sv; w1 = el_world el in
          (case listener_port os w1 (el_listener el) of
             Inl f \<Rightarrow> Some (fatal_error os strerror lg1 w1 f)
           | Inr port \<Rightarrow>
               let lg2 = log_message (os_time os w1) lg1 kInfo
                 (''startup configuration: '' @ describe_options opts port) in
               (case run os others (el\<lparr>el_logger := Some lg2\<rparr>) of
                  None \<Rightarrow> None
                | Some (Inl (Exn e)) \<Rightarrow> Some Terminate
                | Some (Inl (UB u)) \<Rightarrow> Some Undefined
                | Some (Inr el') \<Rightarrow> Some (Shutdown el'))))"

definition server_main ::
  "'w Os \<Rightarrow> (int \<Rightarrow> string) \<Rightarrow> ('w EventLoop \<Rightarrow> 'w EventLoop) \<Rightarrow> string list \<Rightarrow> 'w \<Rightarrow> 'w Outcome option" where
  "server_main os strerror others args w = (case parse_args args of
      Inl e \<Rightarrow> Some (Exit 1 [] (''error: '' @ exn_what strerror e @ [lf, lf] @ usage_text))
    | Inr opts \<Rightarrow>
        if so_show_help opts then Some (Exit 0 usage_text [])
        else if so_show_version opts then Some (Exit 0 (''cpp-kv-store '' @ version @ [lf]) [])
        else (case parse_level (so_log_level opts) of
            None \<Rightarrow> Some Undefined
          | Some level \<Rightarrow> run_server os strerror others opts \<lparr>lg_min_level = level, lg_lines = []\<rparr> w))"

text \<open>
  The end of \<^verbatim>\<open>main\<close> after \<^verbatim>\<open>loop.run()\<close> has returned: the pool is destroyed first, with the
  queues as the loop left them, and the program goes on once the workers are joined.
\<close>

definition shutdown_pool :: "'w EventLoop \<Rightarrow> Worker list \<Rightarrow> Store \<Rightarrow> Pool" where
  "shutdown_pool el workers st = destroy_pool \<lparr>pl_workers = workers, pl_work_queue = el_work_queue el,
     pl_completion_queue = el_completion_queue el, pl_store = st\<rparr>"

definition finish_main :: "'w Os \<Rightarrow> 'w EventLoop \<Rightarrow> Pool \<Rightarrow> 'w Outcome option" where
  "finish_main os el p =
     (if joined p
      then Some (Exit 0 [] (concat (lg_lines
        (log_message (os_time os (el_world el)) (the (el_logger el)) kInfo ''shutdown completion''))))
      else None)"

lemma blocked_shutdown_never_exits:
  assumes "(pool_step hash)\<^sup>*\<^sup>* (shutdown_pool el workers st) p"
    and "\<not> bq_closed (el_completion_queue el)"
    and "bq_capacity (el_completion_queue el) \<le> length (bq_items (el_completion_queue el))"
    and "i < length workers" and "workers ! i = Pushing completion"
  shows "finish_main os el p = None"
proof -
  have "i < length (pl_workers p) \<and> pl_workers p ! i = Pushing completion"
    using blocked_worker_stays [OF assms(1), of i completion] assms(2-5)
    by (simp add: shutdown_pool_def destroy_pool_def)
  then show ?thesis by (auto simp: finish_main_def joined_def list_all_length)
qed

subsection \<open>Faults of the components\<close>

fun is_exn :: "fault \<Rightarrow> bool" where
  "is_exn (Exn e) = True"
| "is_exn (UB u) = False"

text \<open>The parts that talk to the operating system have no undefined behaviour of their own.\<close>

lemma make_listener_exn: "make_listener os config w = (Inl f, w') \<Longrightarrow> is_exn f"
  by (auto simp: make_listener_def throw_errno_def split: prod.splits sum.splits option.splits if_splits)

lemma epoll_add_exn: "epoll_add os w ep fd = (Inl f, w') \<Longrightarrow> is_exn f"
  by (auto simp: epoll_add_def throw_errno_def split: prod.splits sum.splits)

lemma make_event_loop_exn:
  assumes "make_event_loop os config lg wq cq w = (Inl f, w')"
  shows "is_exn f"
proof -
  obtain l w1 where l: "make_listener os (ec_listener config) w = (l, w1)"
    by (cases "make_listener os (ec_listener config) w")
  obtain ep w2 where ep: "os_epoll_create1 os w1 = (ep, w2)" by (cases "os_epoll_create1 os w1")
  obtain wk w3 where wk: "os_eventfd os w2 = (wk, w3)" by (cases "os_eventfd os w2")
  show ?thesis
  proof (cases l)
    case (Inl f1)
    with assms l make_listener_exn [of os "ec_listener config" w f1 w1] show ?thesis by (simp add: make_event_loop_def)
  next
    case lis: (Inr listener)
    show ?thesis
    proof (cases "isl ep \<or> isl wk")
      case True
      with assms l ep wk lis show ?thesis
        by (cases ep; cases wk) (auto simp: make_event_loop_def throw_errno_def Let_def)
    next
      case False
      then obtain e k where r: "ep = Inr e" "wk = Inr k" by (cases ep; cases wk) auto
      obtain a w4 where a: "epoll_add os w3 e listener = (a, w4)" by (cases "epoll_add os w3 e listener")
      obtain b w5 where b: "epoll_add os w4 e k = (b, w5)" by (cases "epoll_add os w4 e k")
      from assms l ep wk lis r a b epoll_add_exn show ?thesis
        by (cases a; cases b) (auto simp: make_event_loop_def Let_def fd_of_def)
    qed
  qed
qed

lemma make_queue_exn: "make_queue n = Inl f \<Longrightarrow> is_exn f"
  by (auto simp: make_queue_def split: if_splits)

lemma make_workers_exn: "make_workers n = Inl f \<Longrightarrow> is_exn f"
  by (auto simp: make_workers_def split: if_splits)

lemma make_store_exn: "make_store n = Inl f \<Longrightarrow> is_exn f \<or> 2 ^ 63 < unat n"
  by (auto simp: make_store_def normalize_shard_count_def bit_ceil_def split: sum.splits if_splits)

lemma start_server_fault:
  assumes "start_server os cfg lg shards qc wc w = Inl f"
  shows "is_exn f \<or> 2 ^ 63 < unat shards"
  using assms
  by (auto simp: start_server_def dest: make_store_exn make_queue_exn make_event_loop_exn make_workers_exn
      split: sum.splits prod.splits)

lemma accept_one_exn:
  assumes "accept_one os w fd = Some (Inl f, w')"
  shows "is_exn f"
proof -
  let ?P = "\<lambda>os w fd r. \<forall>f w'. r = (Inl f, w') \<longrightarrow> is_exn f"
  have "?P os w fd r" if "accept_one os w fd = Some r" for r
  proof (rule accept_one.raw_induct [where P = ?P, OF _ that])
    fix g :: "'a Os \<Rightarrow> 'a \<Rightarrow> int \<Rightarrow> ((fault + AcceptedClient option) \<times> 'a) option" and os w fd r
    assume IH: "\<And>os w fd r. g os w fd = Some r \<Longrightarrow> ?P os w fd r"
      and eq: "(case os_accept4 os w fd of
        (Inl e, w') \<Rightarrow>
          if e = EAGAIN \<or> e = EWOULDBLOCK then Some (Inr None, w')
          else if e = EINTR \<or> e = ECONNABORTED then g os w' fd
          else Some (Inl (throw_errno e ''Listener: accept4() failed''), w')
      | (Inr (client_fd, addr), w') \<Rightarrow>
          Some (Inr (Some \<lparr>ac_fd = client_fd, ac_peer_address =
            os_inet_ntop os (sa_addr addr) @ '':'' @ nat_to_string (unat (sa_port addr))\<rparr>), w')) = Some r"
    obtain res w1 where a: "os_accept4 os w fd = (res, w1)" by (cases "os_accept4 os w fd")
    with eq IH [of os w1 fd r] show "?P os w fd r"
      by (auto simp: throw_errno_def split: sum.splits if_splits)
  qed
  with assms show ?thesis by blast
qed

lemma make_connection_exn: "make_connection i g fd peer mi mo = Inl f \<Longrightarrow> is_exn f"
  by (auto simp: make_connection_def make_buffer_def split: sum.splits if_splits)

lemma admit_client_exn: "admit_client os el a = Inl f \<Longrightarrow> is_exn f"
  by (auto simp: admit_client_def registry_add_def Let_def dest: make_connection_exn split: sum.splits prod.splits)

lemma handle_listener_readable_exn:
  assumes "handle_listener_readable os el = Some (Inl f)"
  shows "is_exn f"
proof -
  let ?P = "\<lambda>os el res. \<forall>f. res = Inl f \<longrightarrow> is_exn f"
  have "?P os el res" if "handle_listener_readable os el = Some res" for res
  proof (rule handle_listener_readable.raw_induct [where P = ?P, OF _ that])
    fix g :: "'a Os \<Rightarrow> 'a EventLoop \<Rightarrow> (fault + 'a EventLoop) option" and os el res
    assume IH: "\<And>os el res. g os el = Some res \<Longrightarrow> ?P os el res"
      and eq: "(case accept_one os (el_world el) (el_listener el) of
        None \<Rightarrow> None
      | Some (result, w) \<Rightarrow>
          (case result of
             Inl f \<Rightarrow> Some (Inl f)
           | Inr None \<Rightarrow> Some (Inr (el\<lparr>el_world := w\<rparr>))
           | Inr (Some accepted) \<Rightarrow>
               (case admit_client os (el\<lparr>el_world := w\<rparr>) accepted of
                  Inl f \<Rightarrow> Some (Inl f)
                | Inr el' \<Rightarrow> g os el'))) = Some res"
    show "?P os el res"
    proof (intro allI impI)
      fix f
      assume "res = Inl f"
      with eq show "is_exn f"
        by (auto split: option.splits sum.splits intro: accept_one_exn admit_client_exn IH [rule_format])
    qed
  qed
  with assms show ?thesis by blast
qed

lemma handle_event_exn: "handle_event os el ev = Some (Inl f) \<Longrightarrow> is_exn f"
  by (auto simp: handle_event_def Let_def dest: handle_listener_readable_exn split: if_splits option.splits)

lemma handle_events_exn: "handle_events os el evs = Some (Inl f) \<Longrightarrow> is_exn f"
  by (induction os el evs rule: handle_events.induct) (auto dest: handle_event_exn split: option.splits sum.splits)

lemma run_exn:
  assumes "run os others el = Some (Inl f)"
  shows "is_exn f"
proof -
  let ?P = "\<lambda>os others el res. \<forall>f. res = Inl f \<longrightarrow> is_exn f"
  have "?P os others el res" if "run os others el = Some res" for res
  proof (rule run.raw_induct [where P = ?P, OF _ that])
    fix g :: "'a Os \<Rightarrow> ('a EventLoop \<Rightarrow> 'a EventLoop) \<Rightarrow> 'a EventLoop \<Rightarrow> (fault + 'a EventLoop) option" and os others el res
    assume IH: "\<And>os others el res. g os others el = Some res \<Longrightarrow> ?P os others el res"
      and eq: "(if el_stop_requested el then Some (Inr el)
      else case os_epoll_wait os (el_world el) (el_epoll_fd el) kMaxEventsPerWait of
        (Inl e, w) \<Rightarrow>
          if e = EINTR then g os others (others (el\<lparr>el_world := w\<rparr>))
          else Some (Inl (throw_errno e ''EventLoop: epoll_wait() failed''))
      | (Inr events, w) \<Rightarrow>
          (case handle_events os (others (el\<lparr>el_world := w\<rparr>)) events of
             None \<Rightarrow> None
           | Some (Inl f) \<Rightarrow> Some (Inl f)
           | Some (Inr el') \<Rightarrow> g os others el')) = Some res"
    show "?P os others el res"
    proof (intro allI impI)
      fix f
      assume "res = Inl f"
      with eq show "is_exn f"
        by (auto simp: throw_errno_def split: option.splits sum.splits prod.splits if_splits
          intro: handle_events_exn IH [rule_format])
    qed
  qed
  with assms show ?thesis by blast
qed

subsection \<open>Properties\<close>



lemma start_server_zero:
  assumes "shards = 0 \<or> qc = 0 \<or> wc = 0"
  shows "\<exists>f. start_server os cfg lg shards qc wc w = Inl f"
  using assms
  by (auto simp: start_server_def make_store_def normalize_shard_count_def make_queue_def make_workers_def
      split: sum.splits prod.splits)

text \<open>
  A command line that asks for no shards, no queue slots or no workers is refused with exit
  status 1 and nothing on the standard output, whatever the operating system does.
\<close>

theorem server_main_refuses_zero:
  assumes "parse_args args = Inr opts" and "\<not> so_show_help opts" and "\<not> so_show_version opts"
    and "so_shard_count opts = 0 \<or> so_queue_capacity opts = 0 \<or> so_worker_count opts = 0"
    and "unat (so_shard_count opts) \<le> 2 ^ 63"
  shows "\<exists>err. server_main os strerror others args w = Some (Exit 1 [] err)"
proof -
  have "parse_level (so_log_level opts) \<noteq> None"
    using parse_args_from_log_level [of default_options args opts] assms(1)
    by (simp add: parse_args_def default_options_def parse_level_def lower_char_def)
  then obtain level where level: "parse_level (so_log_level opts) = Some level" by blast
  let ?lg = "log_message (os_time os w) \<lparr>lg_min_level = level, lg_lines = []\<rparr> kInfo (''starting cpp-kv-store '' @ version)"
  have "so_shard_count opts = 0 \<or> unat (so_queue_capacity opts) = 0 \<or> unat (so_worker_count opts) = 0"
    using assms(4) by auto
  from start_server_zero [OF this, of os "event_loop_config opts" "Some ?lg" w] obtain f where
    f: "start_server os (event_loop_config opts) (Some ?lg) (so_shard_count opts)
      (unat (so_queue_capacity opts)) (unat (so_worker_count opts)) w = Inl f" by blast
  from start_server_fault [OF f] assms(5) have "is_exn f" by simp
  then show ?thesis using assms(1-3) level f
    by (cases f) (simp_all add: server_main_def run_server_def fatal_error_def Let_def)
qed

theorem server_main_refuses_zero_witness:
  "\<exists>err. server_main script_os (\<lambda>code. []) id [''--workers'', ''0''] no_script = Some (Exit 1 [] err)"
proof -
  define opts where "opts = default_options\<lparr>so_worker_count := 0\<rparr>"
  have p: "parse_args [''--workers'', ''0''] = Inr opts" unfolding opts_def by code_simp
  show ?thesis
    by (rule server_main_refuses_zero [OF p]) (simp_all add: opts_def default_options_def)
qed


end
