(* ===== verification/Server_Shutdown.thy ===== *)
theory Server_Shutdown
  imports Server_Main Server_Progress
begin

text \<open>
  The end of the program: what becomes of the requests that are under way when the event loop
  has returned and \<^verbatim>\<open>main\<close> destroys the worker pool.
\<close>

subsection \<open>The pool and the store\<close>

definition pool_commands :: "Pool \<Rightarrow> Command set" where
  "pool_commands p = wi_command ` (set (bq_items (pl_work_queue p)) \<union> {item. Working item \<in> set (pl_workers p)})"

lemma pool_step_commands:
  assumes "pool_step hash p p'"
  shows "pool_commands p' \<subseteq> pool_commands p"
  using assms
proof cases
  case (pool_pop i stop w q)
  from pool_pop(4) show ?thesis
  proof (cases rule: worker_pop_cases)
    case (item x rest)
    with pool_pop(1) show ?thesis by (auto simp: pool_commands_def dest: working_update)
  qed (use pool_pop(1) in \<open>auto simp: pool_commands_def dest: working_update\<close>)
next
  case (pool_exec i item now w st)
  then show ?thesis by (auto simp: pool_commands_def elim!: worker_exec_cases dest: working_update)
next
  case (pool_erase i key now completion)
  then show ?thesis by (auto simp: pool_commands_def dest: working_update)
next
  case (pool_push i completion w q cb)
  then show ?thesis by (auto simp: pool_commands_def elim!: worker_push_cases dest: working_update)
qed

lemma pool_step_store:
  assumes "pool_step hash p p'" and "wf_store hash (pl_store p)" and "store_deadlines (pl_store p)"
  shows "wf_store hash (pl_store p') \<and> store_deadlines (pl_store p')"
  using assms(1)
proof cases
  case (pool_exec i item now w st)
  then obtain resp where "command_section hash (pl_store p) now (wi_command item) = Inr (resp, st)"
    by (auto elim: worker_exec_cases)
  then have "run_sections hash (pl_store p) [(now, Command_section (wi_command item))] = Inr ([resp], st)" by simp
  from run_sections_deadlines [OF this assms(2,3)] pool_exec(1) show ?thesis by simp
next
  case (pool_erase i key now completion)
  have "run_sections hash (pl_store p) [(now, Erase_section key)] = Inr ([], erase_section hash (pl_store p) now key)"
    by simp
  from run_sections_deadlines [OF this assms(2,3)] pool_erase(1) show ?thesis by simp
qed (use assms(2,3) in auto)

lemma pool_run_store:
  assumes "(pool_step hash ^^ n) p p'" and "wf_store hash (pl_store p)" and "store_deadlines (pl_store p)"
  shows "wf_store hash (pl_store p') \<and> store_deadlines (pl_store p') \<and> pool_commands p' \<subseteq> pool_commands p"
  using assms(1)
proof (induction n arbitrary: p')
  case 0
  with assms(2,3) show ?case by simp
next
  case (Suc n)
  then obtain q where q: "(pool_step hash ^^ n) p q" "pool_step hash q p'" by auto
  from Suc.IH [OF q(1)] pool_step_store [OF q(2)] pool_step_commands [OF q(2)] show ?case by blast
qed

subsection \<open>Graceful shutdown\<close>


lemma demo_waiting_room:
  "case demo_run waiting_script demo_server of None \<Rightarrow> False
   | Some sv \<Rightarrow> length (bq_items (el_completion_queue (sv_loop sv))) = 0 \<and>
       length (bq_items (el_work_queue (sv_loop sv))) = 1 \<and> \<not> bq_closed (el_completion_queue (sv_loop sv)) \<and>
       bq_capacity (el_completion_queue (sv_loop sv)) = 2"
  by code_simp


end
