(* ===== verification/Server_Signals.thy ===== *)
theory Server_Signals
  imports Event_Loop
begin

text \<open>
  The handling of signals in \<^verbatim>\<open>src/src/main.cpp\<close>: \<^verbatim>\<open>block_shutdown_signals\<close> and the thread that
  waits for SIGINT and SIGTERM. Of POSIX the model has the signal blocked of each thread, which a
  thread inherits from its creator, the set of signals pending for the process (a signal that
  is pending already is not queued again), delivery to a thread that does not block the signal,
  whose default action ends the process, and \<^verbatim>\<open>sigwait\<close>, which takes a pending signal.
\<close>

subsection \<open>Signals of a process\<close>

datatype Signal = SIGINT | SIGTERM

fun signal_number :: "Signal \<Rightarrow> int" where
  "signal_number SIGINT = 2"
| "signal_number SIGTERM = 15"

text \<open>The thread that waits: in \<^verbatim>\<open>sigwait\<close>, or past it with the signal it got, or returned.\<close>

datatype SignalThread = Not_started | In_sigwait | Woken Signal | Stopped_loop

text \<open>\<open>pr_masks\<close> are the masks of the threads, that of the main thread first.\<close>

record 'w Process =
  pr_masks :: "Signal set list"
  pr_pending :: "Signal set"
  pr_killed_by :: "Signal option"
  pr_signal_thread :: SignalThread
  pr_loop :: "'w EventLoop"

definition block_shutdown_signals :: "'w Process \<Rightarrow> 'w Process" where
  "block_shutdown_signals p = (case pr_masks p of
      [] \<Rightarrow> p
    | blocked # masks \<Rightarrow> p\<lparr>pr_masks := (blocked \<union> {SIGINT, SIGTERM}) # masks\<rparr>)"

definition send_signal :: "Signal \<Rightarrow> 'w Process \<Rightarrow> 'w Process" where
  "send_signal sig p =
     (if list_ex (\<lambda>blocked. sig \<notin> blocked) (pr_masks p) then p\<lparr>pr_killed_by := Some sig\<rparr>
      else p\<lparr>pr_pending := insert sig (pr_pending p)\<rparr>)"

text \<open>The main thread creates another thread: the sweeper, a worker, or the signal thread.\<close>

definition create_thread :: "'w Process \<Rightarrow> 'w Process" where
  "create_thread p = p\<lparr>pr_masks := pr_masks p @ take 1 (pr_masks p)\<rparr>"

definition start_signal_thread :: "'w Process \<Rightarrow> 'w Process" where
  "start_signal_thread p = (create_thread p)\<lparr>pr_signal_thread := In_sigwait\<rparr>"

definition sigwait_returns :: "Signal \<Rightarrow> 'w Process \<Rightarrow> 'w Process option" where
  "sigwait_returns sig p =
     (if pr_signal_thread p = In_sigwait \<and> sig \<in> pr_pending p
      then Some (p\<lparr>pr_pending := pr_pending p - {sig}, pr_signal_thread := Woken sig\<rparr>) else None)"

definition info :: "'w Os \<Rightarrow> 'w EventLoop \<Rightarrow> string \<Rightarrow> 'w EventLoop" where
  "info os el message = el\<lparr>el_logger :=
     map_option (\<lambda>lg. log_message (os_time os (el_world el)) lg kInfo message) (el_logger el)\<rparr>"

text \<open>What the thread does after \<^verbatim>\<open>sigwait\<close>: it logs the signal and stops the loop.\<close>

definition stop_on_signal :: "'w Os \<Rightarrow> 'w Process \<Rightarrow> 'w Process" where
  "stop_on_signal os p = (case pr_signal_thread p of
      Woken sig \<Rightarrow> p\<lparr>pr_loop := stop os (info os (pr_loop p)
          (''shutdown start: received signal '' @ int_to_string (signal_number sig))),
        pr_signal_thread := Stopped_loop\<rparr>
    | _ \<Rightarrow> p)"

text \<open>
  The life of the process from the moment the signals are blocked; the event loop and the workers
  do to the loop what they like, but nobody takes back a request to stop. \<open>sent\<close> says whether a
  signal was sent at all.
\<close>

inductive process_run :: "'w Os \<Rightarrow> 'w Process \<Rightarrow> bool \<Rightarrow> 'w Process \<Rightarrow> bool" for os p0 where
  run_start: "process_run os p0 False (block_shutdown_signals p0)"
| run_send: "process_run os p0 sent p \<Longrightarrow> process_run os p0 True (send_signal sig p)"
| run_create: "process_run os p0 sent p \<Longrightarrow> process_run os p0 sent (create_thread p)"
| run_signal_thread: "process_run os p0 sent p \<Longrightarrow> pr_signal_thread p = Not_started \<Longrightarrow>
    process_run os p0 sent (start_signal_thread p)"
| run_sigwait: "process_run os p0 sent p \<Longrightarrow> sigwait_returns sig p = Some p' \<Longrightarrow> process_run os p0 sent p'"
| run_stop: "process_run os p0 sent p \<Longrightarrow> process_run os p0 sent (stop_on_signal os p)"
| run_loop: "process_run os p0 sent p \<Longrightarrow> (el_stop_requested (pr_loop p) \<longrightarrow> el_stop_requested el) \<Longrightarrow>
    process_run os p0 sent (p\<lparr>pr_loop := el\<rparr>)"

text \<open>The process as \<^verbatim>\<open>main\<close> begins: one thread, nothing pending.\<close>

definition fresh_process :: "Signal set \<Rightarrow> 'w EventLoop \<Rightarrow> 'w Process" where
  "fresh_process blocked el = \<lparr>pr_masks = [blocked], pr_pending = {}, pr_killed_by = None,
     pr_signal_thread = Not_started, pr_loop = el\<rparr>"

subsection \<open>Shutdown by a signal\<close>

lemma stop_requested [simp]: "el_stop_requested (stop os el)"
  by (simp add: stop_def wake_def)

definition signals_ok :: "bool \<Rightarrow> 'w Process \<Rightarrow> bool" where
  "signals_ok sent p \<longleftrightarrow> pr_masks p \<noteq> [] \<and> list_all (\<lambda>blocked. {SIGINT, SIGTERM} \<subseteq> blocked) (pr_masks p) \<and>
     pr_killed_by p = None \<and>
     (sent \<longrightarrow> pr_pending p \<noteq> {} \<or> (\<exists>sig. pr_signal_thread p = Woken sig) \<or> pr_signal_thread p = Stopped_loop) \<and>
     (pr_signal_thread p = Stopped_loop \<longrightarrow> el_stop_requested (pr_loop p))"

lemma all_signals_blocked:
  "list_all (\<lambda>blocked. {SIGINT, SIGTERM} \<subseteq> blocked) masks \<Longrightarrow> \<not> list_ex (\<lambda>blocked. sig \<notin> blocked) masks"
  by (cases sig) (auto simp: list_all_iff list_ex_iff)

lemma send_signal_pending:
  "list_all (\<lambda>blocked. {SIGINT, SIGTERM} \<subseteq> blocked) (pr_masks p) \<Longrightarrow>
   send_signal sig p = p\<lparr>pr_pending := insert sig (pr_pending p)\<rparr>"
  by (simp add: send_signal_def all_signals_blocked)

lemma process_run_ok:
  assumes "process_run os (fresh_process blocked el) sent p"
  shows "signals_ok sent p"
  using assms
proof (induction rule: process_run.induct)
  case run_start
  show ?case by (simp add: signals_ok_def block_shutdown_signals_def fresh_process_def)
next
  case (run_send sent p sig)
  then show ?case by (simp add: signals_ok_def send_signal_pending)
next
  case (run_create sent p)
  then show ?case by (cases "pr_masks p") (simp_all add: signals_ok_def create_thread_def)
next
  case (run_signal_thread sent p)
  then show ?case
    by (cases "pr_masks p") (simp_all add: signals_ok_def start_signal_thread_def create_thread_def)
next
  case (run_sigwait sent p sig p')
  then show ?case by (auto simp: signals_ok_def sigwait_returns_def split: if_splits)
next
  case (run_stop sent p)
  then show ?case by (auto simp: signals_ok_def stop_on_signal_def split: SignalThread.split)
next
  case (run_loop sent p el)
  then show ?case by (auto simp: signals_ok_def)
qed

text \<open>
  C17. SIGINT and SIGTERM shut the server down in order, and only that: from the moment
  \<^verbatim>\<open>block_shutdown_signals\<close> has run, whatever threads are created and whenever the signals come, the
  process is not killed by them; a signal that was sent is pending, or the signal thread has
  taken it; while the thread waits, a pending signal wakes it, and its next step asks the loop to
  stop; and once the loop has been asked, a further signal is only added to the pending ones, so
  that it cannot cut a shutdown short that does not end.
\<close>

theorem signals_stop_server:
  assumes "process_run os (fresh_process blocked el) sent p"
  shows "pr_killed_by p = None \<and>
    (sent \<longrightarrow> pr_pending p \<noteq> {} \<or> (\<exists>sig. pr_signal_thread p = Woken sig) \<or> pr_signal_thread p = Stopped_loop) \<and>
    (pr_signal_thread p = In_sigwait \<longrightarrow> (\<forall>sig\<in>pr_pending p. \<exists>p'. sigwait_returns sig p = Some p' \<and>
       el_stop_requested (pr_loop (stop_on_signal os p')))) \<and>
    (pr_signal_thread p = Stopped_loop \<longrightarrow> el_stop_requested (pr_loop p)) \<and>
    send_signal sig' p = p\<lparr>pr_pending := insert sig' (pr_pending p)\<rparr>"
  using process_run_ok [OF assms] send_signal_pending [of p sig']
  by (auto simp: signals_ok_def sigwait_returns_def stop_on_signal_def)

theorem signals_stop_server_witness:
  "\<forall>el. \<exists>p. process_run script_os (fresh_process {} el) True p \<and> pr_signal_thread p = Stopped_loop \<and>
     el_stop_requested (pr_loop p) \<and> pr_killed_by p = None"
proof
  fix el :: "Script EventLoop"
  let ?p = "start_signal_thread (send_signal SIGTERM (create_thread (block_shutdown_signals (fresh_process {} el))))"
  have p: "process_run script_os (fresh_process {} el) True ?p"
    by (rule run_signal_thread [OF run_send [OF run_create [OF run_start]]])
      (simp add: send_signal_def create_thread_def block_shutdown_signals_def fresh_process_def)
  have w: "sigwait_returns SIGTERM ?p = Some (?p\<lparr>pr_pending := {}, pr_signal_thread := Woken SIGTERM\<rparr>)"
    by (simp add: sigwait_returns_def start_signal_thread_def send_signal_def create_thread_def
        block_shutdown_signals_def fresh_process_def)
  let ?q = "stop_on_signal script_os (?p\<lparr>pr_pending := {}, pr_signal_thread := Woken SIGTERM\<rparr>)"
  have q: "process_run script_os (fresh_process {} el) True ?q" by (rule run_stop [OF run_sigwait [OF p w]])
  have "pr_signal_thread ?q = Stopped_loop" by (simp add: stop_on_signal_def)
  with signals_stop_server [OF q, of SIGINT] q
  show "\<exists>p. process_run script_os (fresh_process {} el) True p \<and> pr_signal_thread p = Stopped_loop \<and>
     el_stop_requested (pr_loop p) \<and> pr_killed_by p = None" by blast
qed

end
