(* ===== verification/Bench_Percentile.thy ===== *)
theory Bench_Percentile
  imports KV_Prelude
begin

text \<open>
  The percentiles of the benchmark, \<^verbatim>\<open>percentile\<close> of \<^verbatim>\<open>src/benchmarks/client/kv_bench.cpp\<close>, with the
  floating-point arithmetic that selects the sample. All numbers involved are nonnegative
  and neither tiny nor huge, so a \<^verbatim>\<open>double\<close> is a natural number times a fixed power of two, and
  an operation is the exact result rounded to 53 significant bits, ties to even.
\<close>

subsection \<open>Rounding to double precision\<close>

fun bit_length :: "nat \<Rightarrow> nat" where
  "bit_length n = (if n = 0 then 0 else Suc (bit_length (n div 2)))"

declare bit_length.simps [simp del]

text \<open>The number of low bits that do not fit the 53 bits of a significand.\<close>

definition excess_bits :: "nat \<Rightarrow> nat" where
  "excess_bits n = bit_length n - 53"

definition round_double :: "nat \<Rightarrow> nat" where
  "round_double n =
     (let s = excess_bits n; q = n div 2 ^ s; r = n mod 2 ^ s in
      (if 2 * r > 2 ^ s \<or> 2 * r = 2 ^ s \<and> odd q then q + 1 else q) * 2 ^ s)"

text \<open>
  The literals \<^verbatim>\<open>0.50\<close>, \<^verbatim>\<open>0.95\<close> and \<^verbatim>\<open>0.99\<close> in units of \<open>2 ^ (- 53)\<close>, the nearest there are.
\<close>

datatype Percent = P50 | P95 | P99

fun percent_value :: "Percent \<Rightarrow> nat" where
  "percent_value P50 = 50"
| "percent_value P95 = 95"
| "percent_value P99 = 99"

fun percent_double :: "Percent \<Rightarrow> nat" where
  "percent_double P50 = 4503599627370496"
| "percent_double P95 = 8556839292003942"
| "percent_double P99 = 8917127262193582"

text \<open>\<^verbatim>\<open>static_cast<std::size_t>(p * static_cast<double>(size - 1))\<close>\<close>

definition percentile_index :: "Percent \<Rightarrow> nat \<Rightarrow> nat" where
  "percentile_index p n = round_double (percent_double p * round_double (n - 1)) div 2 ^ 53"

definition percentile :: "Percent \<Rightarrow> int list \<Rightarrow> int" where
  "percentile p sorted_latencies =
     (if sorted_latencies = [] then 0
      else sorted_latencies ! percentile_index p (length sorted_latencies))"

subsection \<open>The rounding is the nearest\<close>

lemma bit_length_bounds: "n < 2 ^ bit_length n \<and> (0 < n \<longrightarrow> 2 ^ (bit_length n - 1) \<le> n)"
proof (induction n rule: bit_length.induct)
  case (1 n)
  show ?case
  proof (cases "n = 0")
    case False
    with "1.IH" have ih: "n div 2 < 2 ^ bit_length (n div 2)"
      "0 < n div 2 \<Longrightarrow> 2 ^ (bit_length (n div 2) - 1) \<le> n div 2" by auto
    have "2 ^ bit_length (n div 2) \<le> n"
    proof (cases "n div 2 = 0")
      case True
      with False show ?thesis by (simp add: bit_length.simps [of 0])
    next
      case pos: False
      then have "bit_length (n div 2) = Suc (bit_length (n div 2) - 1)"
        by (subst bit_length.simps) (simp add: bit_length.simps [of "n div 2"])
      then have "(2::nat) ^ bit_length (n div 2) = 2 * 2 ^ (bit_length (n div 2) - 1)" by (metis power_Suc)
      with ih(2) pos show ?thesis by linarith
    qed
    with False ih(1) show ?thesis by (simp add: bit_length.simps [of n])
  qed (simp add: bit_length.simps [of 0])
qed

lemma excess_bits_small: "n < 2 ^ 53 \<Longrightarrow> excess_bits n = 0"
proof (rule ccontr)
  assume "n < 2 ^ 53" and "excess_bits n \<noteq> 0"
  then have "53 \<le> bit_length n - 1" "0 < n"
    by (auto simp: excess_bits_def bit_length.simps [of 0] intro!: Nat.gr0I)
  then have "(2::nat) ^ 53 \<le> 2 ^ (bit_length n - 1)" by (intro power_increasing) simp_all
  with bit_length_bounds [of n] \<open>0 < n\<close> \<open>n < 2 ^ 53\<close> show False by linarith
qed

lemma round_double_exact: "n < 2 ^ 53 \<Longrightarrow> round_double n = n"
  by (simp add: round_double_def excess_bits_small)

lemma excess_bits_upper: "n < 2 ^ (53 + excess_bits n)"
proof -
  have "(2::nat) ^ bit_length n \<le> 2 ^ (53 + excess_bits n)" by (rule power_increasing) (auto simp: excess_bits_def)
  with bit_length_bounds [of n] show ?thesis by linarith
qed

lemma excess_bits_le: "n < 2 ^ (53 + k) \<Longrightarrow> excess_bits n \<le> k"
proof (rule ccontr)
  assume n: "n < 2 ^ (53 + k)" and "\<not> excess_bits n \<le> k"
  then have "53 + k \<le> bit_length n - 1" "0 < n"
    by (auto simp: excess_bits_def bit_length.simps [of 0] intro!: Nat.gr0I)
  then have "(2::nat) ^ (53 + k) \<le> 2 ^ (bit_length n - 1)" by (intro power_increasing) simp_all
  with bit_length_bounds [of n] \<open>0 < n\<close> n show False by linarith
qed

lemma round_double_near:
  "2 * round_double n \<le> 2 * n + 2 ^ excess_bits n" "2 * n \<le> 2 * round_double n + 2 ^ excess_bits n"
proof -
  define S :: nat where "S = 2 ^ excess_bits n"
  define q r where "q = n div S" and "r = n mod S"
  have n: "n = q * S + r" by (simp add: q_def r_def)
  have r: "r < S" by (simp add: r_def S_def)
  have "round_double n = (if 2 * r > S \<or> 2 * r = S \<and> odd q then q + 1 else q) * S"
    by (simp only: round_double_def Let_def S_def q_def r_def)
  then consider "round_double n = q * S + S" "S \<le> 2 * r" | "round_double n = q * S" "2 * r \<le> S"
    by (auto split: if_splits)
  then show "2 * round_double n \<le> 2 * n + 2 ^ excess_bits n" "2 * n \<le> 2 * round_double n + 2 ^ excess_bits n"
    unfolding S_def [symmetric] using n r by (cases; linarith)+
qed

lemma round_double_nearest:
  assumes dvd: "2 ^ excess_bits n dvd k" and below: "2 * k < 2 * n + 2 ^ excess_bits n"
    and above: "2 * n < 2 * k + 2 ^ excess_bits n"
  shows "round_double n = k"
proof -
  define S :: nat where "S = 2 ^ excess_bits n"
  from dvd obtain c where c: "k = S * c" unfolding S_def by (auto simp: dvd_def)
  have S: "0 < S" by (simp add: S_def)
  have n: "n = S * (n div S) + n mod S" and r: "n mod S < S" using S by simp_all
  have low: "2 * (S * c) < 2 * (S * (n div S)) + 2 * (n mod S) + S" using below c n unfolding S_def by linarith
  have high: "2 * (S * (n div S)) + 2 * (n mod S) < 2 * (S * c) + S" using above c n unfolding S_def by linarith
  have "S * c < S * (n div S + 2)" using low r by (simp add: distrib_left)
  then have c2: "c < n div S + 2" using S by (simp only: mult_less_cancel1)
  have "S * (n div S) < S * (c + 1)" using high by (simp add: distrib_left)
  then have c1: "n div S < c + 1" using S by (simp only: mult_less_cancel1)
  from c1 c2 consider "c = n div S" | "c = n div S + 1" by linarith
  then show ?thesis
  proof cases
    case 1
    with high have "2 * (n mod S) < S" by simp
    with 1 c show ?thesis unfolding round_double_def Let_def S_def [symmetric] by simp
  next
    case 2
    with low have "S < 2 * (n mod S)" by (simp add: algebra_simps)
    with 2 c show ?thesis unfolding round_double_def Let_def S_def [symmetric] by simp
  qed
qed

subsection \<open>The selected sample\<close>

text \<open>How far the literals are from the percentages they write.\<close>

fun percent_error :: "Percent \<Rightarrow> nat" where
  "percent_error P50 = 0"
| "percent_error P95 = 40"
| "percent_error P99 = 8"

lemma percent_double_error:
  "100 * percent_double p + percent_error p = percent_value p * 2 ^ 53"
  "2 * percent_error p * 2 ^ 53 \<le> 100 * percent_double p"
  "percent_error p \<le> 40" "percent_double p < 2 ^ 53" "0 < percent_double p" "percent_value p < 100"
  by (cases p; simp)+

lemma percentile_product:
  "100 * (percent_double p * m) + percent_error p * m = percent_value p * m * 2 ^ 53"
proof -
  have "100 * (percent_double p * m) + percent_error p * m = (100 * percent_double p + percent_error p) * m"
    by (simp only: distrib_right mult.assoc)
  also have "\<dots> = percent_value p * 2 ^ 53 * m" by (simp only: percent_double_error(1))
  finally show ?thesis by (simp only: ac_simps)
qed

lemma percentile_product_bound:
  assumes "m < 2 ^ 40"
  shows "percent_double p * m < 2 ^ (53 + 40)"
proof -
  have "percent_double p * m < 2 ^ 53 * 2 ^ 40"
    using percent_double_error(4) [of p] assms by (intro mult_strict_mono) simp_all
  then show ?thesis by (simp only: power_add)
qed

text \<open>
  At a whole position the product is within half a unit of its last place, so the rounding
  repairs the error of the literal.
\<close>

lemma percentile_product_whole:
  assumes m: "m < 2 ^ 40" and k: "percent_value p * m = 100 * k"
  shows "round_double (percent_double p * m) = k * 2 ^ 53"
proof (rule round_double_nearest)
  let ?N = "percent_double p * m"
  let ?S = "(2::nat) ^ excess_bits ?N"
  have s: "excess_bits ?N \<le> 40" by (rule excess_bits_le [OF percentile_product_bound [OF m]])
  then show "?S dvd k * 2 ^ 53" by (intro dvd_mult le_imp_power_dvd) simp
  have N: "100 * ?N + percent_error p * m = 100 * (k * 2 ^ 53)"
    using percentile_product [of p m] unfolding k by (simp only: mult.assoc)
  have "2 * percent_error p * 2 ^ 53 * m \<le> 100 * percent_double p * m"
    by (rule mult_right_mono [OF percent_double_error(2)]) simp
  also have "\<dots> < 100 * (2 ^ 53 * ?S)"
    using excess_bits_upper [of ?N] by (simp only: power_add mult.assoc)
  finally have "2 ^ 53 * (2 * (percent_error p * m)) < 2 ^ 53 * (100 * ?S)"
    by (simp only: ac_simps)
  then have small: "2 * (percent_error p * m) < 100 * ?S" by (simp only: mult_less_cancel1)
  from N small show "2 * (k * 2 ^ 53) < 2 * ?N + ?S" by linarith
  have "0 < ?S" by simp
  with N show "2 * ?N < 2 * (k * 2 ^ 53) + ?S" by linarith
qed

text \<open>Between two positions the rounding is too small to reach either.\<close>

lemma percentile_product_between:
  assumes m: "m < 2 ^ 40" and k: "percent_value p * m = 100 * k + r" and r: "0 < r" "r < 100"
  shows "k * 2 ^ 53 \<le> round_double (percent_double p * m)"
    and "round_double (percent_double p * m) < (k + 1) * 2 ^ 53"
proof -
  let ?N = "percent_double p * m"
  have "(2::nat) ^ excess_bits ?N \<le> 2 ^ 40"
    by (rule power_increasing [OF excess_bits_le [OF percentile_product_bound [OF m]]]) simp
  with round_double_near [of ?N]
  have near: "2 * round_double ?N \<le> 2 * ?N + 2 ^ 40" "2 * ?N \<le> 2 * round_double ?N + 2 ^ 40" by linarith+
  have N: "100 * ?N + percent_error p * m = 100 * (k * 2 ^ 53) + r * 2 ^ 53"
    using percentile_product [of p m] unfolding k by (simp only: distrib_right mult.assoc)
  have e: "percent_error p * m \<le> 40 * 2 ^ 40"
    using percent_double_error(3) [of p] m by (intro mult_mono) simp_all
  have r_low: "1 * 2 ^ 53 \<le> r * 2 ^ 53" and r_high: "r * 2 ^ 53 \<le> 99 * 2 ^ 53"
    using r by (intro mult_right_mono; simp)+
  have "100 * (k * 2 ^ 53) \<le> 100 * round_double ?N" using near N e r_low by simp
  then show "k * 2 ^ 53 \<le> round_double ?N" by (simp only: mult_le_cancel1)
  have "100 * round_double ?N < 100 * (k * 2 ^ 53) + 100 * 2 ^ 53" using near N e r_high by simp
  then show "round_double ?N < (k + 1) * 2 ^ 53" by simp
qed

lemma percentile_index_exact:
  assumes "0 < n" and "n \<le> 2 ^ 40"
  shows "percentile_index p n = percent_value p * (n - 1) div 100"
proof -
  let ?m = "n - 1"
  let ?k = "percent_value p * ?m div 100" and ?r = "percent_value p * ?m mod 100"
  have m: "?m < 2 ^ 40" using assms by simp
  have split: "percent_value p * ?m = 100 * ?k + ?r" by simp
  have "round_double ?m = ?m" using m by (intro round_double_exact) simp
  moreover have "round_double (percent_double p * ?m) div 2 ^ 53 = ?k"
  proof (cases "?r = 0")
    case True
    with split have "round_double (percent_double p * ?m) = ?k * 2 ^ 53"
      by (intro percentile_product_whole [OF m]) linarith
    then show ?thesis by (simp only:) simp
  next
    case False
    then have "0 < ?r" "?r < 100" by simp_all
    from percentile_product_between [OF m split this] show ?thesis
      by (intro div_nat_eqI) (simp_all only: mult.commute Suc_eq_plus1)
  qed
  ultimately show ?thesis by (simp only: percentile_index_def)
qed

lemma percentile_index_bound:
  assumes "0 < n" and "n \<le> 2 ^ 40"
  shows "percentile_index p n < n"
proof -
  have "percent_value p * (n - 1) \<le> 100 * (n - 1)" using percent_double_error(6) [of p] by (intro mult_right_mono) simp_all
  then have "percent_value p * (n - 1) div 100 \<le> n - 1" by (metis div_le_mono nonzero_mult_div_cancel_left zero_neq_numeral)
  with assms show ?thesis by (simp add: percentile_index_exact)
qed

text \<open>How many elements of a sorted list are on either side of a position.\<close>

lemma sorted_rank:
  fixes xs :: "int list"
  assumes "sorted xs" and k: "k < length xs"
  shows "k < length (filter (\<lambda>y. y \<le> xs ! k) xs)"
    and "length xs - k \<le> length (filter (\<lambda>y. xs ! k \<le> y) xs)"
proof -
  have low: "filter (\<lambda>y. y \<le> xs ! k) (take (Suc k) xs) = take (Suc k) xs"
    using assms by (auto simp: filter_id_conv in_set_conv_nth less_Suc_eq_le sorted_iff_nth_mono)
  have "length (take (Suc k) xs) \<le> length (filter (\<lambda>y. y \<le> xs ! k) (take (Suc k) xs @ drop (Suc k) xs))"
    unfolding filter_append low by simp
  with k show "k < length (filter (\<lambda>y. y \<le> xs ! k) xs)" by (simp only: append_take_drop_id) simp
  have high: "filter (\<lambda>y. xs ! k \<le> y) (drop k xs) = drop k xs"
    using assms by (auto simp: filter_id_conv in_set_conv_nth sorted_iff_nth_mono)
  have "length (drop k xs) \<le> length (filter (\<lambda>y. xs ! k \<le> y) (take k xs @ drop k xs))"
    unfolding filter_append high by simp
  then show "length xs - k \<le> length (filter (\<lambda>y. xs ! k \<le> y) xs)" by (simp only: append_take_drop_id) simp
qed

text \<open>
  C19. The percentile the benchmark reports is an order statistic of its samples: for up to
  \<open>2 ^ 40\<close> latencies the rounded floating-point product selects exactly the position
  \<open>\<lfloor>percent * (n - 1) / 100\<rfloor>\<close> of the sorted samples. The position is in range, at least
  \<open>\<lfloor>percent * (n - 1) / 100\<rfloor> + 1\<close> of the samples are at most the reported one, and those
  from that position on are at least it. No sample reports zero.
\<close>

theorem percentile_order_statistic:
  assumes "length latencies \<le> 2 ^ 40"
  shows "(latencies = [] \<longrightarrow> percentile p (sort latencies) = 0) \<and>
         (latencies \<noteq> [] \<longrightarrow>
            (let k = percent_value p * (length latencies - 1) div 100; x = percentile p (sort latencies) in
             k < length latencies \<and> x \<in> set latencies \<and> x = sort latencies ! k \<and>
             k < length (filter (\<lambda>y. y \<le> x) latencies) \<and>
             length latencies - k \<le> length (filter (\<lambda>y. x \<le> y) latencies)))"
proof (cases "latencies = []")
  case False
  let ?n = "length latencies"
  let ?k = "percent_value p * (?n - 1) div 100"
  have index: "percentile_index p ?n = ?k" "?k < ?n"
    using percentile_index_exact [of ?n p] percentile_index_bound [of ?n p] False assms by simp_all
  have "sort latencies \<noteq> []" using False by (metis length_sort length_0_conv)
  then have x: "percentile p (sort latencies) = sort latencies ! ?k"
    by (simp only: percentile_def index(1) length_sort if_False)
  have "sort latencies ! ?k \<in> set (sort latencies)" by (rule nth_mem) (use index(2) in simp)
  moreover note sorted_rank [OF sorted_sort, of ?k latencies]
  ultimately show ?thesis using False index(2) by (simp add: Let_def x filter_sort)
qed (simp add: percentile_def)

theorem percentile_order_statistic_witness:
  "percentile P95 (sort [30, 10, 20]) = 20 \<and> percentile P50 (sort [30, 10, 20]) = 20"
proof -
  have "length [30, 10, 20 :: int] \<le> 2 ^ 40" by simp
  from percentile_order_statistic [OF this, of P95] percentile_order_statistic [OF this, of P50]
  show ?thesis by (simp add: Let_def)
qed

end
