(* ===== verification/Bench_Client.thy ===== *)
theory Bench_Client
  imports Resp_Serializer Posix Bench_Percentile
begin

section \<open>The benchmark client\<close>

text \<open>
  The client \<^verbatim>\<open>src/benchmarks/client/kv_bench.cpp\<close>: its command line, its blocking connection,
  the closed loop of one request and one reply at a time, and how the process ends. The random
  draws and the points at which the stop flag is seen are parameters (the list of rounds of a
  thread); the value of \<^verbatim>\<open>--duration\<close> only bounds a sleep and is kept as its text. A latency
  is kept in the ticks of the clock, of which the source stores the microseconds; how the
  output stream writes a floating-point number is a parameter (\<open>BenchText\<close>).
\<close>

subsection \<open>Numbers of the C library\<close>

definition is_space :: "char \<Rightarrow> bool" where
  "is_space c \<longleftrightarrow> c \<in> {CHR '' '', CHR 0x09, CHR 0x0A, CHR 0x0B, CHR 0x0C, CHR 0x0D}"

text \<open>
  What \<^verbatim>\<open>strtol\<close> and \<^verbatim>\<open>strtoul\<close> read in base ten, before they cut it to their range: white
  space, an optional sign and the longest run of digits; \<^const>\<open>None\<close> when there are no digits.
\<close>

definition read_decimal :: "string \<Rightarrow> int option" where
  "read_decimal s =
     (let t = dropWhile is_space s;
          signed = t \<noteq> [] \<and> (hd t = CHR ''+'' \<or> hd t = CHR ''-'');
          ds = takeWhile is_digit (if signed then tl t else t)
      in if ds = [] then None
         else Some (if signed \<and> hd t = CHR ''-'' then - dec_value ds else dec_value ds))"

definition strtol :: "string \<Rightarrow> int" where
  "strtol s = (case read_decimal s of None \<Rightarrow> 0 | Some v \<Rightarrow> max int64_min (min int64_max v))"

definition stoi :: "string \<Rightarrow> exn + int" where
  "stoi s = (case read_decimal s of
      None \<Rightarrow> Inl (Invalid_argument ''stoi'')
    | Some v \<Rightarrow> if v < - (2 ^ 31) \<or> 2 ^ 31 \<le> v then Inl (Out_of_range ''stoi'') else Inr v)"

text \<open>\<^verbatim>\<open>strtoul\<close> takes a minus sign and negates within 64 bits.\<close>

definition stoul :: "string \<Rightarrow> exn + u64" where
  "stoul s = (case read_decimal s of
      None \<Rightarrow> Inl (Invalid_argument ''stoul'')
    | Some v \<Rightarrow> if 2 ^ 64 \<le> abs v then Inl (Out_of_range ''stoul'') else Inr (word_of_int v))"

subsection \<open>Command line\<close>

record BenchOptions =
  bo_host :: string
  bo_port :: "16 word"
  bo_connections :: int
  bo_duration_seconds :: string
  bo_workload :: string
  bo_value_size :: u64
  bo_keyspace :: u64
  bo_csv :: bool

definition default_bench_options :: BenchOptions where
  "default_bench_options = \<lparr>bo_host = ''127.0.0.1'', bo_port = 6380, bo_connections = 50,
     bo_duration_seconds = ''5.0'', bo_workload = ''get'', bo_value_size = 64, bo_keyspace = 10000,
     bo_csv = False\<rparr>"

text \<open>The lambda \<^verbatim>\<open>next\<close>, followed by the conversion of the value.\<close>

definition bench_next :: "string \<Rightarrow> string list \<Rightarrow> (string \<Rightarrow> exn + 'a) \<Rightarrow> exn + 'a \<times> string list" where
  "bench_next arg rest conv = (case rest of
      [] \<Rightarrow> Inl (Runtime_error (''missing value for '' @ arg))
    | v # rest' \<Rightarrow> map_sum id (\<lambda>x. (x, rest')) (conv v))"

text \<open>\<open>stod_throws\<close> says for which texts \<^verbatim>\<open>std::stod\<close> throws.\<close>

definition bench_option ::
  "(string \<Rightarrow> exn option) \<Rightarrow> BenchOptions \<Rightarrow> string \<Rightarrow> string list \<Rightarrow> exn + BenchOptions \<times> string list" where
  "bench_option stod_throws opts arg rest =
     (if arg = ''--host'' then
        map_sum id (\<lambda>(v, rest'). (opts\<lparr>bo_host := v\<rparr>, rest')) (bench_next arg rest Inr)
      else if arg = ''--port'' then
        map_sum id (\<lambda>(n, rest'). (opts\<lparr>bo_port := word_of_int n\<rparr>, rest')) (bench_next arg rest stoi)
      else if arg = ''--connections'' then
        map_sum id (\<lambda>(n, rest'). (opts\<lparr>bo_connections := n\<rparr>, rest')) (bench_next arg rest stoi)
      else if arg = ''--duration'' then
        map_sum id (\<lambda>(v, rest'). (opts\<lparr>bo_duration_seconds := v\<rparr>, rest'))
          (bench_next arg rest (\<lambda>v. case stod_throws v of Some e \<Rightarrow> Inl e | None \<Rightarrow> Inr v))
      else if arg = ''--workload'' then
        map_sum id (\<lambda>(v, rest'). (opts\<lparr>bo_workload := v\<rparr>, rest')) (bench_next arg rest Inr)
      else if arg = ''--value-size'' then
        map_sum id (\<lambda>(n, rest'). (opts\<lparr>bo_value_size := n\<rparr>, rest')) (bench_next arg rest stoul)
      else if arg = ''--keyspace'' then
        map_sum id (\<lambda>(n, rest'). (opts\<lparr>bo_keyspace := n\<rparr>, rest')) (bench_next arg rest stoul)
      else if arg = ''--csv'' then Inr (opts\<lparr>bo_csv := True\<rparr>, rest)
      else Inl (Runtime_error (''unknown option: '' @ arg)))"

lemma bench_next_shorter: "bench_next arg rest conv = Inr (x, rest') \<Longrightarrow> length rest' \<le> length rest"
  by (auto simp: bench_next_def map_sum_def split: list.splits sum.splits)

lemma bench_option_shorter:
  "bench_option stod_throws opts arg rest = Inr (opts', rest') \<Longrightarrow> length rest' \<le> length rest"
  by (auto simp: bench_option_def map_sum_def dest!: bench_next_shorter split: if_splits sum.splits)

function bench_options_from ::
  "(string \<Rightarrow> exn option) \<Rightarrow> BenchOptions \<Rightarrow> string list \<Rightarrow> exn + BenchOptions" where
  "bench_options_from stod_throws opts [] = Inr opts"
| "bench_options_from stod_throws opts (arg # rest) =
     (case bench_option stod_throws opts arg rest of
        Inl e \<Rightarrow> Inl e
      | Inr (opts', rest') \<Rightarrow> bench_options_from stod_throws opts' rest')"
  by pat_completeness auto
termination
  by (relation "measure (\<lambda>(s, opts, args). length args)") (auto dest!: bench_option_shorter)

definition workloads :: "string list" where
  "workloads = [''get'', ''set'', ''mixed8020'', ''mixed5050'']"

definition bench_parse_args :: "(string \<Rightarrow> exn option) \<Rightarrow> string list \<Rightarrow> exn + BenchOptions" where
  "bench_parse_args stod_throws args = (case bench_options_from stod_throws default_bench_options args of
      Inl e \<Rightarrow> Inl e
    | Inr opts \<Rightarrow>
        if bo_connections opts \<le> 0 then Inl (Runtime_error ''--connections must be positive'')
        else if bo_workload opts \<notin> set workloads
        then Inl (Runtime_error ''--workload must be one of: get, set, mixed8020, mixed5050'')
        else Inr opts)"

subsection \<open>The connection\<close>

text \<open>
  The blocking socket calls of the client. \<^verbatim>\<open>send\<close> is called without \<^verbatim>\<open>MSG_NOSIGNAL\<close>, so where
  it would fail with \<^verbatim>\<open>EPIPE\<close> the process is killed by \<^verbatim>\<open>SIGPIPE\<close> instead (\<open>Killed\<close>).
\<close>

record 'w BlockingOs =
  bs_socket :: "'w \<Rightarrow> (Errno + int) \<times> 'w"
  bs_inet_pton :: "string \<Rightarrow> 32 word option"
  bs_connect :: "'w \<Rightarrow> int \<Rightarrow> SockAddr \<Rightarrow> (Errno + unit) \<times> 'w"
  bs_nodelay :: "'w \<Rightarrow> int \<Rightarrow> 'w"
  bs_send :: "'w \<Rightarrow> int \<Rightarrow> string \<Rightarrow> (Errno + nat) \<times> 'w"
  bs_recv :: "'w \<Rightarrow> int \<Rightarrow> nat \<Rightarrow> (Errno + string) \<times> 'w"
  bs_close :: "'w \<Rightarrow> int \<Rightarrow> 'w"
  bs_now :: "'w \<Rightarrow> int"

datatype 'a Run =
    Done 'a
  | Threw exn
  | Killed

definition connect_blocking :: "'w BlockingOs \<Rightarrow> string \<Rightarrow> 16 word \<Rightarrow> 'w \<Rightarrow> (exn + int) \<times> 'w" where
  "connect_blocking os host port w = (case bs_socket os w of
      (Inl e, w1) \<Rightarrow> (Inl (Runtime_error ''socket() failed''), w1)
    | (Inr fd, w1) \<Rightarrow>
        (case bs_inet_pton os host of
           None \<Rightarrow> (Inl (Runtime_error (''invalid --host address: '' @ host)), bs_close os w1 fd)
         | Some addr \<Rightarrow>
             (case bs_connect os w1 fd \<lparr>sa_addr = addr, sa_port = port\<rparr> of
                (Inl e, w2) \<Rightarrow>
                  (Inl (Runtime_error (''connect() to '' @ host @ '' failed'')), bs_close os w2 fd)
              | (Inr _, w2) \<Rightarrow> (Inr fd, bs_nodelay os w2 fd))))"

text \<open>The first loop of \<^verbatim>\<open>send_and_receive\<close>, on what is left to send.\<close>

function send_all :: "'w BlockingOs \<Rightarrow> 'w \<Rightarrow> int \<Rightarrow> string \<Rightarrow> bool Run \<times> 'w" where
  "send_all os w fd request =
     (if request = [] then (Done True, w)
      else case bs_send os w fd request of
        (Inl e, w') \<Rightarrow> (if e = EPIPE then Killed else Done False, w')
      | (Inr n, w') \<Rightarrow> if n = 0 then (Done False, w') else send_all os w' fd (drop n request))"
  by pat_completeness auto
termination
  by (relation "measure (\<lambda>(os, w, fd, request). length request)") auto

declare send_all.simps [simp del]

text \<open>
  The body of the second loop after \<^verbatim>\<open>append\<close>: \<open>Some b\<close> when it returns \<open>b\<close>, \<^const>\<open>None\<close> when it
  continues.
\<close>

definition reply_status :: "string \<Rightarrow> bool option" where
  "reply_status buffer =
     (if buffer = [] then None
      else let type = hd buffer in
        if type = CHR ''+'' \<or> type = CHR ''-'' \<or> type = CHR '':'' then
          if find_crlf buffer \<noteq> None then Some True else None
        else if type = CHR ''$'' then
          (case find_crlf buffer of
             None \<Rightarrow> None
           | Some header_end \<Rightarrow>
               let len = strtol (tl buffer) in
               if len < 0 then Some True
               else if header_end + 2 + nat len + 2 \<le> length buffer then Some True
               else None)
        else Some False)"

definition kChunkSize :: nat where [kv_consts]:
  "kChunkSize = 4096"

partial_function (option) receive_reply ::
  "'w BlockingOs \<Rightarrow> 'w \<Rightarrow> int \<Rightarrow> string \<Rightarrow> (bool \<times> string \<times> 'w) option" where
  "receive_reply os w fd buffer = (case bs_recv os w fd kChunkSize of
      (Inl e, w') \<Rightarrow> Some (False, buffer, w')
    | (Inr chunk, w') \<Rightarrow>
        if chunk = [] then Some (False, buffer, w')
        else (case reply_status (buffer @ chunk) of
            Some result \<Rightarrow> Some (result, buffer @ chunk, w')
          | None \<Rightarrow> receive_reply os w' fd (buffer @ chunk)))"

declare receive_reply.simps [code]

definition send_and_receive :: "'w BlockingOs \<Rightarrow> 'w \<Rightarrow> int \<Rightarrow> string \<Rightarrow> (bool Run \<times> 'w) option" where
  "send_and_receive os w fd request = (case send_all os w fd request of
      (Done True, w1) \<Rightarrow>
        (case receive_reply os w1 fd [] of
           None \<Rightarrow> None
         | Some (result, buffer, w2) \<Rightarrow> Some (Done result, w2))
    | (r, w1) \<Rightarrow> Some (r, w1))"

subsection \<open>The workload\<close>

definition bench_key :: "u64 \<Rightarrow> string" where
  "bench_key index = ''bench:'' @ nat_to_string (unat index)"

definition bench_value :: "BenchOptions \<Rightarrow> string" where
  "bench_value opts = replicate (unat (bo_value_size opts)) (CHR ''x'')"

fun populate_from ::
  "'w BlockingOs \<Rightarrow> BenchOptions \<Rightarrow> int \<Rightarrow> 'w \<Rightarrow> nat list \<Rightarrow> (unit Run \<times> 'w) option" where
  "populate_from os opts fd w [] = Some (Done (), bs_close os w fd)"
| "populate_from os opts fd w (i # is) =
     (case send_and_receive os w fd
             (encode_command [''SET'', bench_key (word_of_nat i), bench_value opts]) of
        None \<Rightarrow> None
      | Some (Done True, w') \<Rightarrow> populate_from os opts fd w' is
      | Some (Done False, w') \<Rightarrow>
          Some (Threw (Runtime_error ''failed to pre-populate keyspace''), bs_close os w' fd)
      | Some (Threw e, w') \<Rightarrow> Some (Threw e, w')
      | Some (Killed, w') \<Rightarrow> Some (Killed, w'))"

definition populate_keyspace :: "'w BlockingOs \<Rightarrow> BenchOptions \<Rightarrow> 'w \<Rightarrow> (unit Run \<times> 'w) option" where
  "populate_keyspace os opts w = (case connect_blocking os (bo_host opts) (bo_port opts) w of
      (Inl e, w1) \<Rightarrow> Some (Threw e, w1)
    | (Inr fd, w1) \<Rightarrow> populate_from os opts fd w1 [0..<unat (bo_keyspace opts)])"

text \<open>One round of a connection: the key index and the number the generator gave it.\<close>

record Round =
  rd_key :: u64
  rd_mix :: int

record ThreadResult =
  th_requests :: u64
  th_errors :: u64
  th_latencies :: "int list"

definition do_set :: "BenchOptions \<Rightarrow> Round \<Rightarrow> bool" where
  "do_set opts rd =
     (if bo_workload opts = ''set'' then True
      else if bo_workload opts = ''mixed8020'' then rd_mix rd < 20
      else if bo_workload opts = ''mixed5050'' then rd_mix rd < 50
      else False)"

definition bench_request :: "BenchOptions \<Rightarrow> Round \<Rightarrow> string" where
  "bench_request opts rd =
     (if do_set opts rd then encode_command [''SET'', bench_key (rd_key rd), bench_value opts]
      else encode_command [''GET'', bench_key (rd_key rd)])"

definition no_result :: ThreadResult where
  "no_result = \<lparr>th_requests = 0, th_errors = 0, th_latencies = []\<rparr>"

text \<open>The loop runs through the rounds until the stop flag is seen, which ends the list.\<close>

fun connection_loop ::
  "'w BlockingOs \<Rightarrow> BenchOptions \<Rightarrow> int \<Rightarrow> 'w \<Rightarrow> ThreadResult \<Rightarrow> Round list \<Rightarrow> (ThreadResult Run \<times> 'w) option" where
  "connection_loop os opts fd w result [] = Some (Done result, bs_close os w fd)"
| "connection_loop os opts fd w result (rd # rds) =
     (case send_and_receive os w fd (bench_request opts rd) of
        None \<Rightarrow> None
      | Some (Done True, w') \<Rightarrow>
          connection_loop os opts fd w'
            (result\<lparr>th_requests := th_requests result + 1,
               th_latencies := th_latencies result @ [bs_now os w' - bs_now os w]\<rparr>) rds
      | Some (Done False, w') \<Rightarrow>
          Some (Done (result\<lparr>th_errors := th_errors result + 1\<rparr>), bs_close os w' fd)
      | Some (Threw e, w') \<Rightarrow> Some (Threw e, w')
      | Some (Killed, w') \<Rightarrow> Some (Killed, w'))"

definition run_connection ::
  "'w BlockingOs \<Rightarrow> BenchOptions \<Rightarrow> Round list \<Rightarrow> 'w \<Rightarrow> (ThreadResult Run \<times> 'w) option" where
  "run_connection os opts rds w = (case connect_blocking os (bo_host opts) (bo_port opts) w of
      (Inl e, w1) \<Rightarrow> Some (Threw e, w1)
    | (Inr fd, w1) \<Rightarrow> connection_loop os opts fd w1 no_result rds)"

subsection \<open>The program\<close>

text \<open>
  The exit status and what is written to the output and to the error stream; or \<open>Bench_aborted\<close> when the process
  dies of an exception that leaves a thread (\<^verbatim>\<open>std::terminate\<close>) or of \<^verbatim>\<open>SIGPIPE\<close>.
\<close>

datatype BenchOutcome =
    Bench_exit nat string string
  | Bench_aborted

definition bench_totals :: "ThreadResult list \<Rightarrow> u64 \<times> u64" where
  "bench_totals results = foldl (\<lambda>(total_requests, total_errors) result.
     (total_requests + th_requests result, total_errors + th_errors result)) (0, 0) results"

definition bench_latencies :: "ThreadResult list \<Rightarrow> int list" where
  "bench_latencies results = foldl (\<lambda>all_latencies result. all_latencies @ th_latencies result) [] results"

text \<open>
  How the stream writes the floating-point figures: a latency in microseconds, a duration in
  seconds, and the throughput of a number of requests in a positive duration.
\<close>

record BenchText =
  bt_micros :: "int \<Rightarrow> string"
  bt_seconds :: "int \<Rightarrow> string"
  bt_rate :: "u64 \<Rightarrow> int \<Rightarrow> string"

definition bench_line :: "BenchText \<Rightarrow> BenchOptions \<Rightarrow> int \<Rightarrow> u64 \<Rightarrow> u64 \<Rightarrow> int list \<Rightarrow> string" where
  "bench_line txt opts elapsed total_requests total_errors all_latencies =
     (let latencies = sort all_latencies;
          connections = int_to_string (bo_connections opts);
          requests = nat_to_string (unat total_requests);
          errors = nat_to_string (unat total_errors);
          throughput = (if 0 < elapsed then bt_rate txt total_requests elapsed else ''0'');
          p50 = bt_micros txt (percentile P50 latencies);
          p95 = bt_micros txt (percentile P95 latencies);
          p99 = bt_micros txt (percentile P99 latencies)
      in if bo_csv opts
         then connections @ '','' @ bo_workload opts @ '','' @ throughput @ '','' @ p50 @ '','' @ p95 @ '','' @ p99 @
           '','' @ requests @ '','' @ errors @ '','' @ bt_seconds txt elapsed @ [lf]
         else ''connections='' @ connections @ '' workload='' @ bo_workload opts @ '' requests='' @ requests @
           '' errors='' @ errors @ '' duration_s='' @ bt_seconds txt elapsed @ '' throughput_rps='' @ throughput @
           '' p50_us='' @ p50 @ '' p95_us='' @ p95 @ '' p99_us='' @ p99 @ [lf])"

text \<open>What \<^verbatim>\<open>main\<close> makes of the threads it started: it joins all of them.\<close>

fun thread_result :: "(ThreadResult Run \<times> 'w) option \<Rightarrow> ThreadResult option" where
  "thread_result (Some (Done result, w)) = Some result"
| "thread_result r = None"

definition thread_dies :: "(ThreadResult Run \<times> 'w) option \<Rightarrow> bool" where
  "thread_dies r \<longleftrightarrow> (case r of Some (Threw e, w) \<Rightarrow> True | Some (Killed, w) \<Rightarrow> True | _ \<Rightarrow> False)"

definition bench_report ::
  "BenchText \<Rightarrow> BenchOptions \<Rightarrow> int \<Rightarrow> (ThreadResult Run \<times> 'w) option list \<Rightarrow> BenchOutcome option" where
  "bench_report txt opts elapsed runs =
     (if list_ex thread_dies runs then Some Bench_aborted
      else if list_ex (\<lambda>r. r = None) runs then None
      else
        (let results = map (the \<circ> thread_result) runs; (total_requests, total_errors) = bench_totals results
         in Some (Bench_exit (if 0 < total_errors then 2 else 0)
              (bench_line txt opts elapsed total_requests total_errors (bench_latencies results)) [])))"

text \<open>
  \<open>threads i\<close> is the outside world as the i-th connection meets it, with the rounds it runs
  before it sees the stop flag; \<open>elapsed\<close> is the time from before the first thread is started
  until after the last one is joined.
\<close>

definition bench_main ::
  "'w BlockingOs \<Rightarrow> (int \<Rightarrow> string) \<Rightarrow> (string \<Rightarrow> exn option) \<Rightarrow> BenchText \<Rightarrow> int \<Rightarrow> string list \<Rightarrow> 'w \<Rightarrow>
    (nat \<Rightarrow> 'w \<times> Round list) \<Rightarrow> BenchOutcome option" where
  "bench_main os strerror stod_throws txt elapsed args w threads = (case bench_parse_args stod_throws args of
      Inl e \<Rightarrow> Some (Bench_exit 1 [] (''error: '' @ exn_what strerror e @ [lf]))
    | Inr opts \<Rightarrow>
        (case populate_keyspace os opts w of
           None \<Rightarrow> None
         | Some (Threw e, w') \<Rightarrow> Some (Bench_exit 1 [] (''error: '' @ exn_what strerror e @ [lf]))
         | Some (Killed, w') \<Rightarrow> Some Bench_aborted
         | Some (Done _, w') \<Rightarrow>
             bench_report txt opts elapsed (map (\<lambda>i. run_connection os opts (snd (threads i)) (fst (threads i)))
               [0..<nat (bo_connections opts)])))"

subsection \<open>Framing of replies\<close>

lemma find_crlf_take:
  assumes "cr \<notin> set s" and "n < length s + 2"
  shows "find_crlf (take n (s @ crlf @ t)) = None"
proof (cases "n \<le> length s")
  case True
  then have "cr \<notin> set (take n s)" using assms(1) in_set_takeD by fast
  with True show ?thesis by (simp add: find_crlf_None)
next
  case False
  with assms(2) have "n = Suc (length s)" by simp
  with assms(1) show ?thesis by (simp add: find_crlf_no_cr)
qed

lemma strtol_nat:
  assumes "int n \<le> int64_max"
  shows "strtol (nat_to_string n @ cr # t) = int n"
proof -
  let ?d = "nat_to_string n"
  have digits: "\<forall>c\<in>set ?d. is_digit c" using nat_to_string_digits by blast
  then have "is_digit (hd ?d)" by simp
  then have h: "\<not> is_space (hd ?d)" "hd ?d \<noteq> CHR ''+''" "hd ?d \<noteq> CHR ''-''"
    by (auto simp: is_space_def is_digit_def)
  have "takeWhile is_digit (?d @ cr # t) = ?d" using digits by (simp add: takeWhile_tail)
  moreover from h(1) have "dropWhile is_space (?d @ cr # t) = ?d @ cr # t"
    by (cases ?d) simp_all
  ultimately show ?thesis
    using h assms by (simp add: strtol_def read_decimal_def dec_value_nat_to_string int64_min_def Let_def)
qed

lemma reply_status_line:
  assumes "t \<in> {CHR ''+'', CHR ''-'', CHR '':''}" and "cr \<notin> set line" and "0 < n"
    and "n \<le> length (t # line @ crlf)"
  shows "reply_status (take n (t # line @ crlf)) = (if n < length (t # line @ crlf) then None else Some True)"
proof -
  have t: "cr \<notin> set (t # line)" "take n (t # line @ crlf) \<noteq> []" "hd (take n (t # line @ crlf)) = t"
    using assms(1-3) by (auto simp: take_Cons')
  have "find_crlf (take n (t # line @ crlf)) = (if n < length (t # line @ crlf) then None else Some (Suc (length line)))"
    using find_crlf_take [OF t(1), of n "[]"] find_crlf_line [OF t(1), of "[]"] assms(4) by auto
  with t assms(1) show ?thesis by (auto simp: reply_status_def)
qed

lemma reply_status_bulk:
  assumes "int (length s) \<le> int64_max" and "0 < n" and "n \<le> length (encode_bulk_string s)"
  shows "reply_status (take n (encode_bulk_string s)) =
    (if n < length (encode_bulk_string s) then None else Some True)"
proof -
  let ?e = "encode_bulk_string s" and ?d = "CHR ''$'' # nat_to_string (length s)"
  have e: "?e = ?d @ crlf @ s @ crlf" by (simp add: encode_bulk_string_def)
  have d: "cr \<notin> set ?d" by simp
  have b: "take n ?e \<noteq> []" "hd (take n ?e) = CHR ''$''" using assms(2) by (auto simp: e take_Cons')
  show ?thesis
  proof (cases "n < length ?d + 2")
    case True
    with find_crlf_take [OF d True, of "s @ crlf"] b show ?thesis by (simp add: reply_status_def e)
  next
    case False
    then have tn: "take n ?e = ?d @ crlf @ take (n - (length ?d + 2)) (s @ crlf)"
      by (simp add: e take_Cons' not_less)
    have f: "find_crlf (take n ?e) = Some (length ?d)" unfolding tn by (rule find_crlf_line [OF d])
    have "strtol (tl (take n ?e)) = int (length s)"
      unfolding tn using strtol_nat [OF assms(1)] by simp
    with f b assms(3) show ?thesis by (auto simp: reply_status_def e)
  qed
qed

lemma reply_status_encoded:
  assumes "line_safe r" and "int (length (encode_reply r)) \<le> int64_max"
    and "0 < n" and "n \<le> length (encode_reply r)"
  shows "reply_status (take n (encode_reply r)) = (if n < length (encode_reply r) then None else Some True)"
proof (cases r)
  case (SimpleReply s)
  with assms reply_status_line [of "CHR ''+''" s n] show ?thesis by (simp add: encode_simple_string_def)
next
  case (ErrorReply s)
  with assms reply_status_line [of "CHR ''-''" s n] show ?thesis by (simp add: encode_error_def)
next
  case (IntegerReply i)
  with assms reply_status_line [of "CHR '':''" "int_to_string i" n] show ?thesis by (simp add: encode_integer_def)
next
  case (BulkReply s)
  with assms have "int (length s) \<le> int64_max" by (simp add: encode_bulk_string_def)
  with BulkReply assms reply_status_bulk [of s n] show ?thesis by simp
next
  case NullReply
  have "n \<in> {1, 2, 3, 4, 5}" using assms(3,4) NullReply by (auto simp: encode_null_bulk_string_def)
  then show ?thesis unfolding NullReply encode_reply.simps by (elim insertE) (simp_all; code_simp)+
qed

text \<open>\<open>chunks\<close> are what the next calls of \<^verbatim>\<open>recv\<close> return, and \<open>w'\<close> the world after them.\<close>

fun delivers :: "'w BlockingOs \<Rightarrow> int \<Rightarrow> 'w \<Rightarrow> string list \<Rightarrow> 'w \<Rightarrow> bool" where
  "delivers os fd w [] w' \<longleftrightarrow> w' = w"
| "delivers os fd w (chunk # chunks) w' \<longleftrightarrow> chunk \<noteq> [] \<and>
     (case bs_recv os w fd kChunkSize of
        (Inl e, w1) \<Rightarrow> False
      | (Inr ds, w1) \<Rightarrow> ds = chunk \<and> delivers os fd w1 chunks w')"

lemma receive_reply_chunks:
  assumes "line_safe r" and "int (length (encode_reply r)) \<le> int64_max"
    and "delivers os fd w chunks w'" and "buffer @ concat chunks @ later = encode_reply r"
    and "chunks = [] \<longrightarrow> later \<noteq> []"
  shows "receive_reply os w fd buffer =
    (if later = [] then Some (True, encode_reply r, w') else receive_reply os w' fd (buffer @ concat chunks))"
  using assms(3-5)
proof (induction chunks arbitrary: w buffer)
  case (Cons chunk chunks)
  then obtain w1 where recv: "bs_recv os w fd kChunkSize = (Inr chunk, w1)" and "chunk \<noteq> []"
    and rest: "delivers os fd w1 chunks w'" by (auto split: prod.splits sum.splits)
  let ?b = "buffer @ chunk"
  have b: "?b @ concat chunks @ later = encode_reply r" using Cons.prems(2) by simp
  have n: "0 < length ?b" using \<open>chunk \<noteq> []\<close> by simp
  have "length ?b \<le> length (encode_reply r)" "?b = take (length ?b) (encode_reply r)"
    by (simp_all flip: b)
  with reply_status_encoded [OF assms(1,2) n] have st: "reply_status ?b =
      (if length ?b < length (encode_reply r) then None else Some True)" by metis
  show ?case
  proof (cases "concat chunks @ later = []")
    case True
    then have "chunks = []" using rest by (cases chunks) auto
    with True b st recv rest \<open>chunk \<noteq> []\<close> show ?thesis by (simp add: receive_reply.simps [of os w])
  next
    case False
    then have "length ?b < length (encode_reply r)" by (simp flip: b)
    with st recv \<open>chunk \<noteq> []\<close> have "receive_reply os w fd buffer = receive_reply os w1 fd ?b"
      by (simp add: receive_reply.simps [of os w])
    moreover have "chunks = [] \<longrightarrow> later \<noteq> []" using False by auto
    ultimately show ?thesis using Cons.IH [OF rest b] by simp
  qed
qed simp

lemma encode_reply_not_Nil [simp]: "encode_reply r \<noteq> []"
  by (cases r) (simp_all add: encode_simple_string_def encode_error_def encode_integer_def
    encode_bulk_string_def encode_null_bulk_string_def)

lemma send_and_receive_reply:
  assumes "line_safe r" and "int (length (encode_reply r)) \<le> int64_max"
    and "send_all os w fd request = (Done True, w0)"
    and "delivers os fd w0 chunks w1" and "concat chunks = encode_reply r"
  shows "send_and_receive os w fd request = Some (Done True, w1)"
proof -
  have "chunks \<noteq> []" using assms(5) encode_reply_not_Nil [of r] by (cases chunks) auto
  with receive_reply_chunks [OF assms(1,2,4), of "[]" "[]"] assms(3,5) show ?thesis
    by (simp add: send_and_receive_def)
qed

definition stream_ends :: "'w BlockingOs \<Rightarrow> int \<Rightarrow> 'w \<Rightarrow> 'w \<Rightarrow> bool" where
  "stream_ends os fd w w' \<longleftrightarrow> (case bs_recv os w fd kChunkSize of
      (Inl e, w1) \<Rightarrow> w1 = w'
    | (Inr ds, w1) \<Rightarrow> ds = [] \<and> w1 = w')"

text \<open>A network that is a list of chunks to receive; it takes whatever is sent, and refuses connections once it is empty.\<close>

definition chunk_os :: "string list BlockingOs" where
  "chunk_os = \<lparr>
     bs_socket = (\<lambda>w. (Inr 3, w)),
     bs_inet_pton = (\<lambda>host. Some 0),
     bs_connect = (\<lambda>w fd a. (if w = [] then Inl (OtherErrno 111) else Inr (), w)),
     bs_nodelay = (\<lambda>w fd. w),
     bs_send = (\<lambda>w fd ds. (Inr (length ds), w)),
     bs_recv = (\<lambda>w fd n. case w of [] \<Rightarrow> (Inr [], []) | c # cs \<Rightarrow> (Inr (take n c), cs)),
     bs_close = (\<lambda>w fd. w),
     bs_now = (\<lambda>w. 0)\<rparr>"

text \<open>
  The client reads exactly one reply per request. However the network splits a reply, the
  client goes on reading until its last byte and returns true with that byte, so no byte of a
  reply is left for the next request; if the stream ends before that, it returns false. This
  holds for each of the five kinds of reply the server encodes, of up to \<open>2 ^ 63 - 1\<close> bytes.
\<close>

theorem bench_reads_one_reply:
  assumes "line_safe r" and "int (length (encode_reply r)) \<le> int64_max"
    and "send_all os w fd request = (Done True, w0)"
    and "delivers os fd w0 chunks w1" and "concat chunks @ later = encode_reply r"
  shows "(later = [] \<longrightarrow> send_and_receive os w fd request = Some (Done True, w1)) \<and>
    (later \<noteq> [] \<and> stream_ends os fd w1 w2 \<longrightarrow> send_and_receive os w fd request = Some (Done False, w2))"
proof (intro conjI impI)
  show "send_and_receive os w fd request = Some (Done True, w1)" if "later = []"
    using that assms(5) by (intro send_and_receive_reply [OF assms(1-4)]) simp
  show "send_and_receive os w fd request = Some (Done False, w2)" if "later \<noteq> [] \<and> stream_ends os fd w1 w2"
    using that receive_reply_chunks [OF assms(1,2,4), of "[]" later] assms(3,5)
    by (auto simp: send_and_receive_def stream_ends_def receive_reply.simps [of os w1] split: prod.splits sum.splits)
qed

theorem bench_reads_one_reply_witness:
  "delivers chunk_os 3 [''$3'', crlf @ ''a'', cr # ''b'' @ crlf] [''$3'', crlf @ ''a'', cr # ''b'' @ crlf] [] \<and>
   send_and_receive chunk_os [''$3'', crlf @ ''a'', cr # ''b'' @ crlf] 3 ''x'' = Some (Done True, []) \<and>
   send_and_receive chunk_os [''$3'', crlf @ ''a''] 3 ''x'' = Some (Done False, [])"
proof -
  have size: "int (length (encode_reply (BulkReply (''a'' @ cr # ''b'')))) \<le> int64_max" by code_simp
  have safe: "line_safe (BulkReply (''a'' @ cr # ''b''))" by simp
  have send: "send_all chunk_os w 3 ''x'' = (Done True, w)" for w
    by (simp add: chunk_os_def send_all.simps)
  have d: "delivers chunk_os 3 [''$3'', crlf @ ''a'', cr # ''b'' @ crlf] [''$3'', crlf @ ''a'', cr # ''b'' @ crlf] []"
    "delivers chunk_os 3 [''$3'', crlf @ ''a''] [''$3'', crlf @ ''a''] []"
    by code_simp+
  have e: "concat [''$3'', crlf @ ''a'', cr # ''b'' @ crlf] @ [] = encode_reply (BulkReply (''a'' @ cr # ''b''))"
    "concat [''$3'', crlf @ ''a''] @ (cr # ''b'' @ crlf) = encode_reply (BulkReply (''a'' @ cr # ''b''))"
    by code_simp+
  have "stream_ends chunk_os 3 [] []" by code_simp
  with bench_reads_one_reply [OF safe size send d(1) e(1)] bench_reads_one_reply [OF safe size send d(2) e(2)] d(1)
  show ?thesis by simp
qed

subsection \<open>How the benchmark ends\<close>

lemma connection_loop_errors:
  "connection_loop os opts fd w result rds = Some (Done result', w') \<Longrightarrow> th_errors result = 0 \<Longrightarrow>
   th_errors result' \<le> 1"
  by (induction rds arbitrary: w result) (auto split: option.splits prod.splits Run.splits bool.splits)

lemma run_connection_errors: "run_connection os opts rds w = Some (Done result, w') \<Longrightarrow> th_errors result \<le> 1"
  by (auto simp: run_connection_def no_result_def split: prod.splits sum.splits dest: connection_loop_errors)

lemma u64_le_one: "w \<le> (1 :: u64) \<Longrightarrow> w = 0 \<or> w = 1"
proof -
  assume "w \<le> 1"
  then have "unat w \<le> 1" by (simp add: word_le_nat_alt)
  then have "unat w = 0 \<or> unat w = 1" by linarith
  then show ?thesis using u64_of_unat [of w 1] by (auto simp: unat_eq_zero)
qed

lemma bench_totals_errors:
  assumes "\<forall>r\<in>set results. th_errors r \<le> 1" and "length results < 2 ^ 64"
  shows "unat (snd (bench_totals results)) = length (filter (\<lambda>r. th_errors r \<noteq> 0) results)"
  using assms
proof (induction results rule: rev_induct)
  case (snoc r results)
  let ?n = "length (filter (\<lambda>r. th_errors r \<noteq> 0) results)"
  have n: "?n \<le> length results" by (rule length_filter_le)
  from snoc have IH: "unat (snd (bench_totals results)) = ?n" by simp
  have "snd (bench_totals (results @ [r])) = snd (bench_totals results) + th_errors r"
    by (simp add: bench_totals_def split: prod.split)
  moreover have "th_errors r = 0 \<or> th_errors r = 1" using snoc.prems(1) u64_le_one by simp
  moreover have "unat (snd (bench_totals results) + 1) = ?n + 1"
    using IH le_less_trans [OF n, of "2 ^ 64 - 1"] snoc.prems(2) by (simp add: unat_word_ariths)
  ultimately show ?case using IH by auto
qed (simp add: bench_totals_def)

text \<open>Every completed request leaves one latency.\<close>

definition one_sample_each :: "ThreadResult \<Rightarrow> bool" where
  "one_sample_each result \<longleftrightarrow> th_requests result = word_of_nat (length (th_latencies result))"

lemma one_sample_each_next:
  "one_sample_each result \<Longrightarrow>
   one_sample_each (result\<lparr>th_requests := th_requests result + 1, th_latencies := th_latencies result @ [t]\<rparr>)"
  "one_sample_each result \<Longrightarrow> one_sample_each (result\<lparr>th_errors := n\<rparr>)"
  by (simp_all add: one_sample_each_def add.commute)

lemma connection_loop_samples:
  "connection_loop os opts fd w result rds = Some (Done result', w') \<Longrightarrow> one_sample_each result \<Longrightarrow>
   one_sample_each result'"
  by (induction rds arbitrary: w result)
    (auto dest: one_sample_each_next split: option.splits prod.splits Run.splits bool.splits)

lemma run_connection_samples: "run_connection os opts rds w = Some (Done result, w') \<Longrightarrow> one_sample_each result"
  by (auto simp: run_connection_def one_sample_each_def no_result_def split: prod.splits sum.splits
      dest!: connection_loop_samples)

lemma bench_latencies_concat: "bench_latencies results = concat (map th_latencies results)"
  by (induction results rule: rev_induct) (simp_all add: bench_latencies_def)

lemma bench_totals_requests:
  "\<forall>r\<in>set results. one_sample_each r \<Longrightarrow> fst (bench_totals results) = word_of_nat (length (bench_latencies results))"
  by (induction results rule: rev_induct)
    (auto simp: bench_totals_def bench_latencies_def one_sample_each_def split: prod.splits)

lemma bench_option_connections:
  assumes "bench_option stod_throws opts arg rest = Inr (opts', rest')" and "bo_connections opts < 2 ^ 31"
  shows "bo_connections opts' < 2 ^ 31"
proof (cases "bench_next arg rest stoi")
  case (Inl e)
  with assms show ?thesis by (auto simp: bench_option_def map_sum_def split: if_splits sum.splits)
next
  case (Inr p)
  obtain n ys where p: "p = (n, ys)" by (cases p)
  from Inr p have "n < 2 ^ 31"
    by (auto simp: bench_next_def stoi_def map_sum_def split: list.splits option.splits if_splits)
  with Inr p assms show ?thesis by (auto simp: bench_option_def map_sum_def split: if_splits sum.splits)
qed

lemma bench_options_from_connections:
  "bench_options_from stod_throws opts args = Inr opts' \<Longrightarrow> bo_connections opts < 2 ^ 31 \<Longrightarrow>
   bo_connections opts' < 2 ^ 31"
  by (induction stod_throws opts args rule: bench_options_from.induct)
    (auto dest: bench_option_connections split: sum.splits)

lemma bench_parse_args_connections:
  assumes "bench_parse_args stod_throws args = Inr opts"
  shows "0 < bo_connections opts \<and> bo_connections opts < 2 ^ 31"
proof -
  have "bo_connections default_bench_options < 2 ^ 31" by (simp add: default_bench_options_def)
  with assms bench_options_from_connections [of stod_throws default_bench_options args] show ?thesis
    by (auto simp: bench_parse_args_def split: sum.splits if_splits)
qed

lemma bench_report_results:
  assumes "bench_report txt opts elapsed runs = Some (Bench_exit status out err)"
  shows "\<exists>results ws. runs = map2 (\<lambda>result w'. Some (Done result, w')) results ws \<and> length ws = length results \<and>
    err = [] \<and> status = (if 0 < snd (bench_totals results) then 2 else 0) \<and>
    out = bench_line txt opts elapsed (fst (bench_totals results)) (snd (bench_totals results)) (bench_latencies results)"
proof -
  have "\<exists>p. r = Some (Done (fst p), snd p)" if "r \<in> set runs" for r
  proof -
    have "\<not> thread_dies r" "r = None \<Longrightarrow> False"
      using assms that by (auto simp: bench_report_def list_ex_iff split: if_splits)
    then show ?thesis by (cases r) (auto simp: thread_dies_def split: Run.splits)
  qed
  then obtain f where f: "\<And>r. r \<in> set runs \<Longrightarrow> r = Some (Done (fst (f r)), snd (f r))" by metis
  have results: "map (the \<circ> thread_result) runs = map (fst \<circ> f) runs"
  proof (rule map_cong [OF refl])
    show "(the \<circ> thread_result) r = (fst \<circ> f) r" if "r \<in> set runs" for r
      by (subst f [OF that]) simp
  qed
  from assms have "err = [] \<and> status = (if 0 < snd (bench_totals (map (fst \<circ> f) runs)) then 2 else 0) \<and>
    out = bench_line txt opts elapsed (fst (bench_totals (map (fst \<circ> f) runs)))
      (snd (bench_totals (map (fst \<circ> f) runs))) (bench_latencies (map (fst \<circ> f) runs))"
    unfolding bench_report_def Let_def case_prod_unfold results by (simp split: if_split_asm)
  moreover have "runs = map2 (\<lambda>result w'. Some (Done result, w')) (map (fst \<circ> f) runs) (map (snd \<circ> f) runs)"
    unfolding map2_map_map comp_def by (rule map_idI [symmetric]) (rule f [symmetric])
  ultimately show ?thesis by (intro exI [of _ "map (fst \<circ> f) runs"] exI [of _ "map (snd \<circ> f) runs"]) simp
qed

text \<open>
  C18. The benchmark reports what its connections measured. When it ends normally after the
  keyspace is populated, every connection has returned a result; the line on the output is that
  of the latencies of all of them, with one latency for each request it counts, and with the
  number of connections that lost a request. The exit status is 2 exactly when there is one, and
  0 otherwise: the error counters of up to \<open>2 ^ 31 - 1\<close> connections do not wrap to zero.
\<close>

theorem bench_reports_samples:
  assumes "bench_parse_args stod_throws args = Inr opts" and "populate_keyspace os opts w = Some (Done (), w1)"
    and "bench_main os strerror stod_throws txt elapsed args w threads = Some (Bench_exit status out err)"
  shows "\<exists>results. length results = nat (bo_connections opts) \<and>
    (\<forall>i < nat (bo_connections opts). \<exists>w'.
      run_connection os opts (snd (threads i)) (fst (threads i)) = Some (Done (results ! i), w')) \<and>
    (let latencies = concat (map th_latencies results); lost = length (filter (\<lambda>r. th_errors r \<noteq> 0) results) in
     out = bench_line txt opts elapsed (word_of_nat (length latencies)) (word_of_nat lost) latencies \<and>
     err = [] \<and> status = (if 0 < lost then 2 else 0))"
proof -
  let ?run = "\<lambda>i. run_connection os opts (snd (threads i)) (fst (threads i))"
  let ?n = "nat (bo_connections opts)"
  have "bench_report txt opts elapsed (map ?run [0..<?n]) = Some (Bench_exit status out err)"
    using assms by (simp add: bench_main_def)
  from bench_report_results [OF this] obtain results ws
    where runs: "map ?run [0..<?n] = map2 (\<lambda>result w'. Some (Done result, w')) results ws" "length ws = length results"
    and rep: "err = []" "status = (if 0 < snd (bench_totals results) then 2 else 0)"
      "out = bench_line txt opts elapsed (fst (bench_totals results)) (snd (bench_totals results)) (bench_latencies results)"
    by blast
  from arg_cong [OF runs(1), of length] runs(2) have n: "length results = ?n" by simp
  have run: "?run i = Some (Done (results ! i), ws ! i)" if "i < ?n" for i
    using arg_cong [OF runs(1), of "\<lambda>xs. xs ! i"] that n runs(2) by simp
  have "one_sample_each r \<and> th_errors r \<le> 1" if "r \<in> set results" for r
    using that run n by (metis in_set_conv_nth run_connection_samples run_connection_errors)
  then have samples: "\<forall>r\<in>set results. one_sample_each r" and one: "\<forall>r\<in>set results. th_errors r \<le> 1" by blast+
  have "length results < 2 ^ 64" using bench_parse_args_connections [OF assms(1)] n by (simp add: nat_less_iff)
  note errors = bench_totals_errors [OF one this]
  have "snd (bench_totals results) = word_of_nat (length (filter (\<lambda>r. th_errors r \<noteq> 0) results))"
    unfolding errors [symmetric] by simp
  moreover have "0 < snd (bench_totals results) \<longleftrightarrow> 0 < length (filter (\<lambda>r. th_errors r \<noteq> 0) results)"
    unfolding word_less_nat_alt errors by simp
  ultimately show ?thesis using n run rep bench_totals_requests [OF samples]
    by (intro exI [of _ results]) (auto simp: Let_def bench_latencies_concat)
qed

text \<open>Two connections against a network that answers the first one and cuts off the second one's reply.\<close>

definition bench_demo_args :: "string list" where
  "bench_demo_args = [''--keyspace'', ''0'', ''--connections'', ''2'']"

definition bench_demo_options :: BenchOptions where
  "bench_demo_options = default_bench_options\<lparr>bo_keyspace := 0, bo_connections := 2\<rparr>"

definition bench_demo_threads :: "nat \<Rightarrow> string list \<times> Round list" where
  "bench_demo_threads i = (if i = 0 then [''$-1'' @ crlf] else [''$-1''], [\<lparr>rd_key = 7, rd_mix = 0\<rparr>])"

lemma bench_demo_start:
  "bench_parse_args (\<lambda>v. None) bench_demo_args = Inr bench_demo_options"
  "populate_keyspace chunk_os bench_demo_options [''y''] = Some (Done (), [''y''])"
  by code_simp+

definition bench_demo_text :: BenchText where
  "bench_demo_text = \<lparr>bt_micros = int_to_string, bt_seconds = int_to_string, bt_rate = (\<lambda>n t. nat_to_string (unat n))\<rparr>"

theorem bench_reports_samples_witness:
  "bench_main chunk_os (\<lambda>n. []) (\<lambda>v. None) bench_demo_text 3 bench_demo_args [''y''] bench_demo_threads =
     Some (Bench_exit 2 (bench_line bench_demo_text bench_demo_options 3 1 1 [0]) []) \<and>
   (\<exists>results :: ThreadResult list. length results = nat (bo_connections bench_demo_options) \<and>
     length (filter (\<lambda>r. th_errors r \<noteq> 0) results) \<noteq> 0)"
proof -
  have r: "bench_main chunk_os (\<lambda>n. []) (\<lambda>v. None) bench_demo_text 3 bench_demo_args [''y''] bench_demo_threads =
     Some (Bench_exit 2 (bench_line bench_demo_text bench_demo_options 3 1 1 [0]) [])" by code_simp
  from bench_reports_samples [OF bench_demo_start r] obtain results :: "ThreadResult list"
    where "length results = nat (bo_connections bench_demo_options)"
      and "(2 :: nat) = (if 0 < length (filter (\<lambda>r. th_errors r \<noteq> 0) results) then 2 else 0)"
    unfolding Let_def by blast
  with r show ?thesis by (intro conjI exI [of _ results]) (auto split: if_splits)
qed

text \<open>
  A connection of the benchmark that cannot be established kills the whole process: the
  exception leaves the thread function, outside the \<^verbatim>\<open>try\<close> block of \<^verbatim>\<open>main\<close>, whatever the other
  connections did. The same failure while the keyspace is populated is reported as an error
  with exit status 1.
\<close>

theorem bench_connection_failure_aborts:
  assumes "bench_parse_args stod_throws args = Inr opts"
    and "connect_blocking os (bo_host opts) (bo_port opts) w1 = (Inl e, w2)"
  shows "bench_main os strerror stod_throws txt elapsed args w1 threads =
      Some (Bench_exit 1 [] (''error: '' @ exn_what strerror e @ [lf])) \<and>
    (populate_keyspace os opts w = Some (Done (), w') \<and> i < nat (bo_connections opts) \<and> fst (threads i) = w1 \<longrightarrow>
      bench_main os strerror stod_throws txt elapsed args w threads = Some Bench_aborted)"
proof (intro conjI impI)
  show "bench_main os strerror stod_throws txt elapsed args w1 threads =
      Some (Bench_exit 1 [] (''error: '' @ exn_what strerror e @ [lf]))"
    using assms by (simp add: bench_main_def populate_keyspace_def)
next
  assume h: "populate_keyspace os opts w = Some (Done (), w') \<and> i < nat (bo_connections opts) \<and> fst (threads i) = w1"
  then have "thread_dies (run_connection os opts (snd (threads i)) (fst (threads i)))"
    using assms(2) by (simp add: run_connection_def thread_dies_def)
  with h assms(1) show "bench_main os strerror stod_throws txt elapsed args w threads = Some Bench_aborted"
    by (auto simp: bench_main_def bench_report_def list_ex_iff)
qed

theorem bench_connection_failure_aborts_witness:
  "bench_main chunk_os (\<lambda>n. []) (\<lambda>v. None) bench_demo_text 3 bench_demo_args [] bench_demo_threads =
     Some (Bench_exit 1 [] (''error: connect() to 127.0.0.1 failed'' @ [lf])) \<and>
   bench_main chunk_os (\<lambda>n. []) (\<lambda>v. None) bench_demo_text 3 bench_demo_args [''y''] (\<lambda>i. ([], [])) = Some Bench_aborted"
proof -
  have c: "connect_blocking chunk_os (bo_host bench_demo_options) (bo_port bench_demo_options) [] =
      (Inl (Runtime_error ''connect() to 127.0.0.1 failed''), [])" by code_simp
  have "0 < nat (bo_connections bench_demo_options)" by (simp add: bench_demo_options_def)
  with bench_connection_failure_aborts [OF bench_demo_start(1) c, of "\<lambda>n. []" bench_demo_text 3 "\<lambda>i. ([], [])" "[''y'']" "[''y'']" 0]
    bench_connection_failure_aborts [OF bench_demo_start(1) c, of "\<lambda>n. []" bench_demo_text 3 bench_demo_threads] bench_demo_start(2)
  show ?thesis by simp
qed

end
