(* ===== verification/Bench_Service.thy ===== *)
theory Bench_Service
  imports Server_Progress Bench_Client
begin

text \<open>
  The client and the server together: the requests of the benchmark client, as the server's
  parser reads them, and the server's answers, as the client's reader frames them.
\<close>

subsection \<open>Requests of the client\<close>

definition bench_command :: "BenchOptions \<Rightarrow> Round \<Rightarrow> Command" where
  "bench_command opts rd =
     (if do_set opts rd then cmd kSet (bench_key (rd_key rd)) (bench_value opts) 0
      else cmd kGet (bench_key (rd_key rd)) [] 0)"

lemma bench_request_command: "bench_request opts rd = encode_command (command_args (bench_command opts rd))"
  by (simp add: bench_request_def bench_command_def cmd_def)

lemma bench_command_valid:
  assumes "unat (bo_value_size opts) \<le> kMaxValueLength"
  shows "valid_command (bench_command opts rd)"
proof -
  have "unat (rd_key rd) < 2 ^ 64" using unsigned_less [of "rd_key rd"] by simp
  then have "unat (rd_key rd) < 10 ^ 20" by simp
  then have "length (nat_to_string (unat (rd_key rd))) \<le> 20" by (rule length_nat_to_string) simp
  with assms show ?thesis
    by (simp add: bench_command_def valid_command_def cmd_def bench_key_def bench_value_def kMaxKeyLength_def int64_max_def)
qed

text \<open>The server's parser reads exactly the commands of the client off the stream of its requests.\<close>

lemma parses_bench_requests:
  assumes "unat (bo_value_size opts) \<le> kMaxValueLength"
    and "parses as (concat (map (bench_request opts) rds)) rest" and "parse_command rest = NeedMoreData"
  shows "as = map (Ask_command \<circ> bench_command opts) rds \<and> rest = []"
  using assms(2)
proof (induction rds arbitrary: as)
  case Nil
  have "parse_command [] = NeedMoreData" by code_simp
  with Nil show ?case by (cases as) auto
next
  case (Cons rd rds)
  let ?tail = "concat (map (bench_request opts) rds)"
  have p: "parse_command (bench_request opts rd @ ?tail) =
      ParsedCommand (bench_command opts rd) (length (bench_request opts rd))"
    unfolding bench_request_command by (rule parse_encoded_command [OF bench_command_valid [OF assms(1)]])
  show ?case
  proof (cases as)
    case Nil
    with Cons.prems p assms(3) show ?thesis by auto
  next
    case (Cons a as')
    with Cons.prems p have "a = Ask_command (bench_command opts rd)" "parses as' ?tail rest" by simp_all
    with Cons.IH Cons show ?thesis by simp
  qed
qed

subsection \<open>Answers of the server\<close>

lemma dispatch_reply:
  assumes "dispatch hash st now c = Inr (r, st')"
  shows "\<exists>reply. r = encode_reply reply \<and> line_safe reply"
proof -
  have simple: "\<exists>reply. encode_simple_string s = encode_reply reply \<and> line_safe reply" if "cr \<notin> set s" for s
    using that by (intro exI [of _ "SimpleReply s"]) simp
  have int: "\<exists>reply. encode_integer i = encode_reply reply \<and> line_safe reply" for i
    by (intro exI [of _ "IntegerReply i"]) simp
  have bulk: "\<exists>reply. encode_bulk_string s = encode_reply reply \<and> line_safe reply" for s
    by (intro exI [of _ "BulkReply s"]) simp
  have null: "\<exists>reply. encode_null_bulk_string = encode_reply reply \<and> line_safe reply"
    by (intro exI [of _ NullReply]) simp
  show ?thesis
    using assms simple [of "''PONG''"] simple [of "''OK''"] int bulk null
    by (cases "cmd_type c")
      (auto simp: dispatch_def dispatch_ping_def dispatch_set_def dispatch_get_def dispatch_del_def dispatch_exists_def
        dispatch_expire_def dispatch_ttl_def ttl_reply_def split: prod.splits option.splits sum.splits TtlStatus.splits)
qed

lemma run_sections_typed:
  assumes "run_sections hash st log = Inr (replies, st')" and "r \<in> set replies"
  shows "\<exists>reply. r = encode_reply reply \<and> line_safe reply"
  using assms
proof (induction hash st log arbitrary: replies rule: run_sections.induct)
  case (2 hash st now c ss)
  then obtain resp st1 rs where d: "command_section hash st now c = Inr (resp, st1)"
    and r: "run_sections hash st1 ss = Inr (rs, st')" "replies = resp # rs"
    by (auto simp: map_sum_def split: sum.splits)
  from d obtain st2 where "dispatch hash st now c = Inr (resp, st2)"
    by (auto simp: command_section_def map_sum_def split: if_splits sum.splits)
  from dispatch_reply [OF this] "2.IH" [OF d refl r(1)] "2.prems"(2) r(2) show ?case by auto
qed auto

lemma busy_reply: "r \<in> busy_replies \<Longrightarrow> \<exists>reply. r = encode_reply reply \<and> line_safe reply"
  by (auto simp: busy_replies_def intro: exI [of _ "ErrorReply s" for s])

text \<open>Whatever a command is answered with is one reply that the client can frame.\<close>

lemma command_answer:
  assumes "run_sections hash st log = Inr (replies, st')" and "request_ok (log_commands log) (Ask_command c, a)"
    and "response replies (Ask_command c, a) = Some r"
  shows "\<exists>reply. r = encode_reply reply \<and> line_safe reply"
proof (cases a)
  case (Answered n)
  then have "n < length replies" "r = replies ! n"
    using assms(2,3) run_sections_length [OF assms(1)] by auto
  with run_sections_typed [OF assms(1), of r] show ?thesis by simp
next
  case (Refused s)
  with assms(2,3) busy_reply show ?thesis by simp
qed (use assms(3) in simp_all)

subsection \<open>The closed loop\<close>

text \<open>
  A conversation over the client's network: each request is sent, then one reply arrives, in any
  chunks, before the next request is sent.
\<close>

fun conversation ::
  "'v BlockingOs \<Rightarrow> BenchOptions \<Rightarrow> int \<Rightarrow> 'v \<Rightarrow> Round list \<Rightarrow> Reply list \<Rightarrow> 'v \<Rightarrow> bool" where
  "conversation net opts fd v [] [] v' \<longleftrightarrow> v' = v"
| "conversation net opts fd v (rd # rds) (r # rs) v' \<longleftrightarrow>
     (\<exists>v0 chunks v1. send_all net v fd (bench_request opts rd) = (Done True, v0) \<and>
        delivers net fd v0 chunks v1 \<and> concat chunks = encode_reply r \<and> conversation net opts fd v1 rds rs v')"
| "conversation net opts fd v rds rs v' \<longleftrightarrow> False"

lemma conversation_loop:
  assumes "conversation net opts fd v rds rs v'"
    and "\<forall>r\<in>set rs. line_safe r \<and> int (length (encode_reply r)) \<le> int64_max"
  shows "\<exists>latencies. length latencies = length rds \<and> connection_loop net opts fd v result rds =
    Some (Done (result\<lparr>th_requests := th_requests result + word_of_nat (length rds),
      th_latencies := th_latencies result @ latencies\<rparr>), bs_close net v' fd)"
  using assms
proof (induction net opts fd v rds rs v' arbitrary: result rule: conversation.induct)
  case (2 net opts fd v rd rds r rs v')
  then obtain v0 chunks v1 where s: "send_all net v fd (bench_request opts rd) = (Done True, v0)"
    and d: "delivers net fd v0 chunks v1" "concat chunks = encode_reply r"
    and rest: "conversation net opts fd v1 rds rs v'" by auto
  have "send_and_receive net v fd (bench_request opts rd) = Some (Done True, v1)"
    using "2.prems"(2) by (intro send_and_receive_reply [OF _ _ s d]) simp_all
  with "2.IH" [OF rest, of "result\<lparr>th_requests := th_requests result + 1,
      th_latencies := th_latencies result @ [bs_now net v1 - bs_now net v]\<rparr>"] "2.prems"(2)
  obtain latencies where "length latencies = length rds"
    and "connection_loop net opts fd v result (rd # rds) =
      Some (Done (result\<lparr>th_requests := th_requests result + word_of_nat (length (rd # rds)),
        th_latencies := th_latencies result @ (bs_now net v1 - bs_now net v) # latencies\<rparr>), bs_close net v' fd)"
    by (auto simp: ac_simps)
  then show ?case by (intro exI [of _ "(bs_now net v1 - bs_now net v) # latencies"]) simp
qed simp_all

lemma encode_reply_size: "r \<in> set rs \<Longrightarrow> length (encode_reply r) \<le> length (concat (map encode_reply rs))"
  by (auto simp: length_concat intro: member_le_sum_list)

text \<open>
  C14. The benchmark client and the server fit together. Take any run of the whole server, with
  any other clients, to a state where it is idle, and a connection on which it has received the
  requests of the client's rounds (with values of at most 1 MiB), has parsed its input and flushed
  its output. Then it has sent exactly one reply per round, each of a form the client can frame;
  and in any closed-loop conversation with these replies, however they are split, the client's
  loop counts every round as a completed request with its latency, and no error.
\<close>

theorem bench_client_served:
  assumes "start_server os cfg logger shard_count queue_capacity worker_count w = Inr sv0"
    and "(server_step hash os)\<^sup>*\<^sup>* sv0 sv" and "recv_bounded os"
    and "ec_max_in_flight_per_connection cfg < 2 ^ 64" and "sv_accepted sv < 2 ^ 64 - 1"
    and idle: "server_idle sv" and c: "find_current (el_connections (sv_loop sv)) i = Some c"
    and size: "unat (bo_value_size opts) \<le> kMaxValueLength"
    and requests: "fst (sv_wire sv (peer_of c)) = concat (map (bench_request opts) rds)"
    and parsed: "parse_command (bb_data (cn_input c)) = NeedMoreData" and flushed: "bb_data (cn_output c) = []"
    and sent: "int (length (snd (sv_wire sv (peer_of c)))) \<le> int64_max"
  shows "\<exists>rs. length rs = length rds \<and> snd (sv_wire sv (peer_of c)) = concat (map encode_reply rs) \<and>
    list_all line_safe rs \<and>
    (\<forall>(net :: 'v BlockingOs) fd v v' result. conversation net opts fd v rds rs v' \<longrightarrow>
      (\<exists>latencies. length latencies = length rds \<and> connection_loop net opts fd v result rds =
        Some (Done (result\<lparr>th_requests := th_requests result + word_of_nat (length rds),
          th_latencies := th_latencies result @ latencies\<rparr>), bs_close net v' fd)))"
proof -
  from server_reachable_inv [OF assms(1-5)] obtain log replies rqs
    where inv: "server_inv hash (sv_store sv0) cfg log replies rqs sv" by blast
  let ?rqs = "rqs (peer_of c)"
  have run: "run_sections hash (sv_store sv0) log = Inr (replies, sv_store sv)" using inv by (simp add: server_inv_def)
  note ci = server_invD(5) [OF inv c]
  have asks: "map fst ?rqs = map (Ask_command \<circ> bench_command opts) rds"
    using parses_bench_requests [OF size, of "map fst ?rqs" rds "bb_data (cn_input c)"] ci requests parsed
    by (simp add: conn_inv_def)
  have reply: "\<exists>reply. the (response replies r) = encode_reply reply \<and> line_safe reply" if r: "r \<in> set ?rqs" for r
  proof -
    from r have "fst r \<in> set (map fst ?rqs)" by simp
    then obtain command where "fst r = Ask_command command" unfolding asks by auto
    then have eq: "r = (Ask_command command, snd r)" by (cases r) simp
    have "request_ok (log_commands log) r" using ci r by (auto simp: conn_inv_def list_all_iff)
    moreover obtain s where "response replies r = Some s"
      using idle_answered(1) [OF inv _ _ _ c] idle r by (auto simp: server_idle_def)
    ultimately show ?thesis using command_answer [OF run, of command "snd r" s] eq by simp
  qed
  define rs where "rs = map (\<lambda>r. SOME reply. the (response replies r) = encode_reply reply \<and> line_safe reply) ?rqs"
  have rs: "map encode_reply rs = map (\<lambda>r. the (response replies r)) ?rqs" "\<forall>r\<in>set rs. line_safe r"
    unfolding rs_def using someI_ex [OF reply] by auto
  have "length rs = length rds" using arg_cong [OF asks, of length] by (simp add: rs_def)
  moreover have wire: "snd (sv_wire sv (peer_of c)) = concat (map encode_reply rs)"
    using idle_answered(2) [OF inv _ _ _ c] idle flushed by (simp add: rs(1) server_idle_def)
  moreover have "line_safe r \<and> int (length (encode_reply r)) \<le> int64_max" if "r \<in> set rs" for r
    using rs(2) that encode_reply_size [OF that] sent wire by simp
  ultimately show ?thesis
    by (intro exI [of _ rs]) (simp add: list_all_iff conversation_loop)
qed

text \<open>One round of the client's default workload, served by the demonstration server.\<close>

definition bench_round :: Round where
  "bench_round = \<lparr>rd_key = 7, rd_mix = 0\<rparr>"

definition bench_world :: Script where
  "bench_world = no_script\<lparr>sc_recv := [(7, bench_request default_bench_options bench_round)]\<rparr>"

definition bench_server :: "Script Server" where
  "bench_server = projr (start_server script_os demo_config None 2 2 1 bench_world)"

definition bench_served :: "Script Server" where
  "bench_served = the (demo_run demo_script bench_server)"

lemma bench_server_start: "start_server script_os demo_config None 2 2 1 bench_world = Inr bench_server"
proof -
  have "\<not> isl (start_server script_os demo_config None 2 2 1 bench_world)" by code_simp
  then show ?thesis by (simp add: bench_server_def)
qed

lemma bench_served_check:
  "case demo_run demo_script bench_server of
     None \<Rightarrow> False
   | Some sv \<Rightarrow> sv_accepted sv = 1 \<and>
     sv_wire sv (7, 1) = (bench_request default_bench_options bench_round, ''$-1'' @ crlf) \<and>
     (case find_current (el_connections (sv_loop sv)) 7 of None \<Rightarrow> False | Some c \<Rightarrow>
       cn_id c = 7 \<and> cn_generation c = 1 \<and> bb_data (cn_output c) = [] \<and> bb_data (cn_input c) = []) \<and>
     bq_items (el_work_queue (sv_loop sv)) = [] \<and> bq_items (el_completion_queue (sv_loop sv)) = [] \<and>
     sv_workers sv = [Popping]"
  by code_simp

lemma bench_served:
  shows "(server_step demo_hash script_os)\<^sup>*\<^sup>* bench_server bench_served" and "sv_accepted bench_served < 2 ^ 64 - 1"
    and "sv_wire bench_served (7, 1) = (bench_request default_bench_options bench_round, ''$-1'' @ crlf)"
    and "\<exists>c. find_current (el_connections (sv_loop bench_served)) 7 = Some c \<and> peer_of c = (7, 1) \<and>
      bb_data (cn_input c) = [] \<and> bb_data (cn_output c) = []"
    and "server_idle bench_served"
  using bench_served_check
  by (auto simp: bench_served_def server_idle_def peer_of_def intro: demo_run_steps split: option.splits)

theorem bench_client_served_witness:
  "sv_wire bench_served (7, 1) = (bench_request default_bench_options bench_round, ''$-1'' @ crlf) \<and>
   connection_loop chunk_os default_bench_options 3 [''$-'', ''1'' @ crlf] no_result [bench_round] =
     Some (Done \<lparr>th_requests = 1, th_errors = 0, th_latencies = [0]\<rparr>, [])"
proof -
  from bench_served(4) obtain c where c: "find_current (el_connections (sv_loop bench_served)) 7 = Some c"
    "peer_of c = (7, 1)" "bb_data (cn_input c) = []" "bb_data (cn_output c) = []" by blast
  have size: "unat (bo_value_size default_bench_options) \<le> kMaxValueLength" by code_simp
  have parsed: "parse_command (bb_data (cn_input c)) = NeedMoreData" unfolding c(3) by code_simp
  have requests: "fst (sv_wire bench_served (peer_of c)) = concat (map (bench_request default_bench_options) [bench_round])"
    by (simp add: c(2) bench_served(3))
  have sent: "int (length (snd (sv_wire bench_served (peer_of c)))) \<le> int64_max"
    by (simp add: c(2) bench_served(3) int64_max_def)
  from bench_client_served [where 'v = "string list", OF bench_server_start bench_served(1) script_recv_bounded
      demo_in_flight bench_served(2,5) c(1) size requests parsed c(4) sent]
  obtain rs where rs: "length rs = Suc 0" "''$-1'' @ crlf = concat (map encode_reply rs)"
    and loop: "\<And>(net :: string list BlockingOs) fd v v' result.
      conversation net default_bench_options fd v [bench_round] rs v' \<Longrightarrow>
      \<exists>latencies. length latencies = length [bench_round] \<and>
        connection_loop net default_bench_options fd v result [bench_round] =
        Some (Done (result\<lparr>th_requests := th_requests result + word_of_nat (length [bench_round]),
          th_latencies := th_latencies result @ latencies\<rparr>), bs_close net v' fd)"
    by (auto simp: c(2) bench_served(3))
  from rs obtain r where r: "rs = [r]" "encode_reply r = ''$-1'' @ crlf" by (auto simp: length_Suc_conv)
  have "conversation chunk_os default_bench_options 3 [''$-'', ''1'' @ crlf] [bench_round] rs []"
    unfolding r(1) conversation.simps r(2)
    by (intro exI [of _ "[''$-'', ''1'' @ crlf]"] exI [of _ "[]"]) (simp add: send_all.simps chunk_os_def kChunkSize_def)
  from loop [OF this, of no_result] obtain latencies where "length latencies = Suc 0"
    and "connection_loop chunk_os default_bench_options 3 [''$-'', ''1'' @ crlf] no_result [bench_round] =
      Some (Done \<lparr>th_requests = 1, th_errors = 0, th_latencies = latencies\<rparr>, [])"
    by (auto simp: no_result_def chunk_os_def)
  moreover have "case connection_loop chunk_os default_bench_options 3 [''$-'', ''1'' @ crlf] no_result [bench_round] of
      Some (Done result, w') \<Rightarrow> th_latencies result = [0] | _ \<Rightarrow> False" by code_simp
  ultimately show ?thesis using bench_served(3) by simp
qed

end
