(* ===== verification/Spec2Isabelle.thy ===== *)
theory Spec2Isabelle
  imports KV_Prelude Resp_Parser Resp_Serializer Expiration_Queue Store Store_Contract Dispatcher
    Store_Concurrency Store_Lagging Clock Store_Threads Store_Realtime Ttl_Sweeper Bounded_Queue
    Response_Sequencer Connections Posix Net_Io Timestamp Logger Listener Work_Item Event_Loop
    Event_Loop_Safety Event_Loop_Behaviour Cli_Options Worker_Pool Server_Steps Server_Invariant
    Server_Workers Server_Correct Server_Handlers Server_Service Server_Progress Server_Main
    Server_Shutdown Server_Signals Bench_Percentile Bench_Client Bench_Service
begin

text \<open>
  \<^bold>\<open>A multithreaded in-memory key-value server.\<close> This library models the C++ server under
  \<^verbatim>\<open>src/src\<close> and \<^verbatim>\<open>src/include/kvstore\<close> and its benchmark client
  \<^verbatim>\<open>src/benchmarks/client/kv_bench.cpp\<close>, and proves what the server does for its clients.

  \<^bold>\<open>The program.\<close> One event loop thread accepts TCP clients, reads their bytes, parses RESP2
  requests and puts each command, with the identity of its connection and a sequence number, into
  a bounded work queue. A pool of workers takes commands from it, executes them on a store of
  locked shards, and puts the responses into a bounded completion queue, which wakes the event
  loop. The loop puts the responses of a connection back into request order and writes them out.
  A sweeper thread removes expired keys, and a signal thread stops the loop. \<^verbatim>\<open>main\<close> builds these
  parts from the command line and takes them down in reverse order.

  \<^bold>\<open>Conventions.\<close> A C++ call that can throw or run into undefined behaviour returns a sum with
  \<open>Inl\<close> of what happened (\<^typ>\<open>exn\<close>, \<^typ>\<open>ub\<close>, \<^typ>\<open>fault\<close>). Counters that may wrap are 64-bit
  words; signed time arithmetic is on integers with every result checked against 64 bits. In the
  theories on the store and the server clock readings are arguments, which \<^verbatim>\<open>Store_Threads\<close> takes from
  the clock; \<^verbatim>\<open>std::hash\<close> and error texts are arguments. The operating system is an argument too:
  a record of functions on an arbitrary state (\<^typ>\<open>'w Os\<close> for the server, \<^typ>\<open>'w BlockingOs\<close> for
  the client), about which nothing is assumed unless a theorem says so (\<^const>\<open>recv_bounded\<close>: a read
  returns no more than was asked for). Loops whose end depends on the outside are
  \<^theory_text>\<open>partial_function (option)\<close>, so that not returning is \<^const>\<open>None\<close>; no fuel is used anywhere. All
  other loops are functions with a termination proof.

  \<^bold>\<open>Theories, in the order of the layers.\<close>

  \<^item> \<^verbatim>\<open>KV_Prelude\<close>: failures, checked arithmetic, byte strings and decimal numbers, and the locale
    \<open>draining\<close> of systems whose steps make a measure smaller (interpreted for the worker pool and
    for the whole server).
  \<^item> \<^verbatim>\<open>Resp_Parser\<close> (\<^verbatim>\<open>protocol/parser.cpp\<close>, function by function) and \<^verbatim>\<open>Resp_Serializer\<close>
    (\<^verbatim>\<open>protocol/serializer.cpp\<close> and the client's \<^verbatim>\<open>encode_command\<close>): verdicts are stable under
    more input, bounded, and well-typed; requests and replies survive being encoded and read back.
  \<^item> \<^verbatim>\<open>Expiration_Queue\<close> (the priority queue of \<^verbatim>\<open>shard.hpp\<close>, behind the locale \<open>min_queue\<close>),
    \<^verbatim>\<open>Store\<close> (\<^verbatim>\<open>storage/store.cpp\<close>, \<^verbatim>\<open>shard.hpp\<close>: each body of a critical section is a function
    on \<^typ>\<open>Shard\<close>, each public operation one on \<^typ>\<open>Store\<close>) and \<^verbatim>\<open>Store_Contract\<close> (the locale
    \<open>kv_contract\<close>, what \<^verbatim>\<open>store.hpp\<close> promises, interpreted on the store).
  \<^item> \<^verbatim>\<open>Dispatcher\<close> (\<^verbatim>\<open>command/dispatcher.cpp\<close>): commands refine the command table of
    \<^verbatim>\<open>SPEC.md\<close>, an abstract map with deadlines. \<^verbatim>\<open>Store_Concurrency\<close>: the same for every
    interleaving of the critical sections of concurrent threads. \<^verbatim>\<open>Store_Lagging\<close>: the same when
    the clock readings are out of order, as they are when a thread reads the clock and then waits
    for a lock; each command acts at an effective time, its own reading or a later reading that
    an earlier section already used.
  \<^item> \<^verbatim>\<open>Clock\<close> (\<^verbatim>\<open>storage/clock.hpp\<close>, \<^verbatim>\<open>clock.cpp\<close>; the locale \<open>steady_source\<close>, interpreted on the
    steady clock), \<^verbatim>\<open>Store_Threads\<close> (a call of the store as steps of its thread: clock, shared or
    exclusive lock of the shard, read, write, unlock, with schedules of any number of threads)
    and \<^verbatim>\<open>Store_Realtime\<close>: the locks make each section atomic, so every run is one of the
    histories of \<^verbatim>\<open>Store_Concurrency\<close>; each call takes effect between its invocation and its
    return; nobody deadlocks; and what goes wrong with EXPIRE when its thread is delayed.
  \<^item> \<^verbatim>\<open>Ttl_Sweeper\<close>
    (\<^verbatim>\<open>storage/ttl_sweeper.cpp\<close>): the thread, and what its bounded passes achieve beside the
    other threads.
  \<^item> \<^verbatim>\<open>Bounded_Queue\<close> (\<^verbatim>\<open>worker/bounded_queue.hpp\<close>): FIFO contract (locale \<open>bounded_fifo\<close>), and the
    condition variables as a step relation in which no wake-up is lost.
  \<^item> \<^verbatim>\<open>Response_Sequencer\<close>, \<^verbatim>\<open>Connections\<close> (buffers, descriptors, connections, registry),
    \<^verbatim>\<open>Posix\<close> (the operating system and a scripted instance of it), \<^verbatim>\<open>Net_Io\<close>, \<^verbatim>\<open>Timestamp\<close> and
    \<^verbatim>\<open>Logger\<close> (\<^verbatim>\<open>util/logger.cpp\<close>, with the calendar of \<^verbatim>\<open>gmtime_r\<close>), \<^verbatim>\<open>Listener\<close>, \<^verbatim>\<open>Work_Item\<close>: the parts of \<^verbatim>\<open>net/\<close> and \<^verbatim>\<open>util/\<close>, one source file each.
  \<^item> \<^verbatim>\<open>Event_Loop\<close> (\<^verbatim>\<open>net/event_loop.cpp\<close>, every member function) with \<^verbatim>\<open>Event_Loop_Safety\<close> (its
    invariant over all events and all interference of other threads: buffers and queues within
    their caps) and \<^verbatim>\<open>Event_Loop_Behaviour\<close> (its loops return; parsing is exhaustive; writing
    keeps the order; scenarios in which it misbehaves).
  \<^item> \<^verbatim>\<open>Worker_Pool\<close> (\<^verbatim>\<open>worker/worker_pool.cpp\<close>): \<^verbatim>\<open>worker_main\<close> as steps between its blocking
    calls, the destructor, draining and blocking at shutdown.
  \<^item> \<^verbatim>\<open>Server_Steps\<close>: the whole server as one step relation, \<^const>\<open>server_step\<close>, whose steps are calls
    of the component models; the state records the bytes on every connection's wire.
    \<^verbatim>\<open>Server_Invariant\<close>, \<^verbatim>\<open>Server_Workers\<close>, \<^verbatim>\<open>Server_Correct\<close>: its invariant, step by step.
    \<^verbatim>\<open>Server_Handlers\<close>: the handlers of the event loop, with their nested loops, are sequences of
    these steps. \<^verbatim>\<open>Server_Service\<close>: every client gets the answers to what it sent, in order, from
    one history of the store. \<^verbatim>\<open>Server_Progress\<close>: the running server can always finish what it
    has read.
  \<^item> \<^verbatim>\<open>Cli_Options\<close> (\<^verbatim>\<open>cli/options.cpp\<close>), \<^verbatim>\<open>Server_Main\<close> (\<^verbatim>\<open>main.cpp\<close>, \<^verbatim>\<open>version.cpp\<close>: all the ways
    the program can end), \<^verbatim>\<open>Server_Shutdown\<close> (what it does with pending requests at the end) and
    \<^verbatim>\<open>Server_Signals\<close> (\<^verbatim>\<open>main.cpp\<close>: the signal mask every thread inherits, and the signal thread).
  \<^item> \<^verbatim>\<open>Bench_Percentile\<close> (\<^verbatim>\<open>percentile\<close> of \<^verbatim>\<open>kv_bench.cpp\<close>, with its rounding to double precision),
    \<^verbatim>\<open>Bench_Client\<close> (\<^verbatim>\<open>kv_bench.cpp\<close>: command line, closed loop, reply framing, report, exit status) and
    \<^verbatim>\<open>Bench_Service\<close> (client and server together: one framed reply per request).

  \<^bold>\<open>How the layers meet.\<close> A step of \<^const>\<open>server_step\<close> is one call of \<^const>\<open>admit_client\<close>,
  \<^const>\<open>read_into\<close>, \<^const>\<open>process_one\<close>, \<^const>\<open>record_and_push\<close>, \<^const>\<open>write_from\<close>,
  \<^const>\<open>close_connection\<close>, \<^const>\<open>worker_pop\<close>, \<^const>\<open>worker_exec\<close>, \<^const>\<open>erase_section\<close>,
  \<^const>\<open>worker_push\<close> or \<^const>\<open>sweep_section\<close>. The granularity is that of the locks: the event loop is
  the only thread that touches connections, a queue operation is one critical section of its
  mutex, and a store operation is one critical section per lock it takes, so a read of an expired
  key and its erasure are two steps with anything in between. Each request of a connection is
  tracked from the bytes it was parsed from, over its place in a queue or a worker, to the bytes
  of its answer; the tokens under way are a multiset that each step must account for.

  \<^bold>\<open>Bounds.\<close> Connection generations and sequence numbers are 64-bit words. The theorems on whole
  runs assume fewer than \<open>2 ^ 64 - 1\<close> accepted connections and an in-flight limit below \<open>2 ^ 64\<close>
  (the default is 64); sequence numbers may wrap around. EXPIRE and TTL are defined exactly as long
  as their arithmetic fits 64 bits, and theorems that need it say so (\<^const>\<open>command_fits\<close>). The time
  stamp is for the years 1970 to 9999, and percentiles are exact for up to \<open>2 ^ 40\<close> samples, more
  than fit the memory of a machine.

  \<^bold>\<open>Not modelled.\<close> The memory model below the level of locks: accesses to a shard are steps of
  their thread, and an exclusive section reads and then writes its shard, but single machine
  accesses are not told apart (\<^verbatim>\<open>Store_Realtime\<close> shows that the locks keep them apart; relaxed
  atomics are only counters and stop flags). The fairness of mutexes, allocation failure and the
  length of waits are outside. The logger's mutex only keeps lines apart. The initial signal
  mask of the process is arbitrary; other signals are left out. Deleted and defaulted members,
  moves whose result is a plain copy, and accessors of tests (\<^verbatim>\<open>shard_count\<close>,
  \<^verbatim>\<open>active_expiration_count\<close>, \<^verbatim>\<open>size\<close> of the registry) have no definition of their own, and header
  files consist otherwise of declarations and comments, whose code is in the source files. In the
  client the random draws, the moment at which a thread sees the stop flag, and the text of a
  floating-point number are arguments. Branches for values outside an enumeration cannot be
  written down.
\<close>

end
